(* ===== verification/Prelude.thy ===== *)
theory Prelude
  imports Main "HOL-Library.Word" "HOL-Library.Multiset" "HOL-Library.Char_ord" "HOL-Library.List_Lexorder"
begin

text \<open>
  Shared vocabulary of the development.

  \<^item> The status codes of \<^verbatim>\<open>include/datasystem/utils/status.h\<close>: an operation that returns
    a \<^verbatim>\<open>Status\<close> is a function into \<open>StatusCode + 'a\<close>, where \<open>Inl c\<close> is the early return with
    code \<open>c\<close> and \<open>Inr\<close> carries the out-parameters of the successful call. The message text
    of a status is diagnostics only and is left out.
  \<^item> Signed 64-bit counters as \<open>int\<close> with the wrap-around of the machine written out
    (\<open>wrap64\<close>); unsigned 64-bit and 32-bit values are words.
  \<^item> \<^verbatim>\<open>std::map\<close> as an association list in strictly ascending key order
    (\<open>om_ok\<close>), with insertion, erasure and the half-open range scan
    \<^verbatim>\<open>lower_bound(key) ... it->first < rangeEnd\<close>. \<^verbatim>\<open>std::string\<close> keys are compared bytewise,
    which is the lexicographic order of HOL-Library on character lists.
  \<^item> The locale \<open>keyed_store\<close>, the contract of a keyed container, and the lemmas its
    clients use.
\<close>

named_theorems store_simps \<open>equations of the keyed containers\<close>
named_theorems inv_intros \<open>preservation of component invariants\<close>

section \<open>Status codes\<close>

datatype StatusCode =
    K_DUPLICATED | K_INVALID | K_NOT_FOUND | K_KVSTORE_ERROR | K_RUNTIME_ERROR | K_OUT_OF_MEMORY
  | K_IO_ERROR | K_NOT_READY | K_NOT_AUTHORIZED | K_UNKNOWN_ERROR | K_INTERRUPTED | K_OUT_OF_RANGE
  | K_NO_SPACE | K_NOT_LEADER_MASTER | K_RECOVERY_ERROR | K_RECOVERY_IN_PROGRESS
  | K_FILE_NAME_TOO_LONG | K_FILE_LIMIT_REACHED | K_TRY_AGAIN | K_DATA_INCONSISTENCY
  | K_SHUTTING_DOWN | K_WORKER_ABNORMAL | K_CLIENT_WORKER_DISCONNECT | K_WORKER_TIMEOUT
  | K_MASTER_TIMEOUT | K_NOT_FOUND_IN_L2CACHE | K_REPLICA_NOT_READY
  | K_CLIENT_WORKER_VERSION_MISMATCH | K_SERVER_FD_CLOSED | K_RETRY_IF_LEAVING | K_SCALE_DOWN
  | K_SCALING | K_CLIENT_DEADLOCK | K_LRU_HARD_LIMIT | K_LRU_SOFT_LIMIT | K_NOT_SUPPORTED
  | K_NO_AVAILABLE_WORKER | K_NOT_OWNER | K_METADATA_OWNER_UNAVAILABLE

type_synonym 'a result = "StatusCode + 'a"

section \<open>Machine integers\<close>

definition i64_max :: int where
  "i64_max = 2 ^ 63 - 1"

definition wrap64 :: "int \<Rightarrow> int" where
  "wrap64 x = (x + 2 ^ 63) mod 2 ^ 64 - 2 ^ 63"

lemma wrap64_id [simp]: "- (2 ^ 63) \<le> x \<Longrightarrow> x \<le> i64_max \<Longrightarrow> wrap64 x = x"
  by (simp add: wrap64_def i64_max_def)

lemma wrap64_range: "- (2 ^ 63) \<le> wrap64 x" "wrap64 x \<le> i64_max"
proof -
  have "0 \<le> (x + 2 ^ 63) mod 2 ^ 64" "(x + 2 ^ 63) mod 2 ^ 64 < (2::int) ^ 64" by simp_all
  then show "- (2 ^ 63) \<le> wrap64 x" "wrap64 x \<le> i64_max"
    by (simp_all add: wrap64_def i64_max_def)
qed

section \<open>Keyed containers\<close>

locale keyed_store =
  fixes get :: "'m \<Rightarrow> 'k \<Rightarrow> 'v option"
    and put :: "'k \<Rightarrow> 'v \<Rightarrow> 'm \<Rightarrow> 'm"
    and del :: "'k \<Rightarrow> 'm \<Rightarrow> 'm"
    and ok :: "'m \<Rightarrow> bool"
  assumes get_put: "get (put k v m) = (get m)(k \<mapsto> v)"
    and get_del: "get (del k m) = (get m)(k := None)"
    and ok_put: "ok m \<Longrightarrow> ok (put k v m)"
    and ok_del: "ok m \<Longrightarrow> ok (del k m)"
begin

lemma ok_fold_del: "ok m \<Longrightarrow> ok (fold del ks m)"
  by (induction ks arbitrary: m) (simp_all add: ok_del)

lemma get_fold_del: "get (fold del ks m) k = (if k \<in> set ks then None else get m k)"
  by (induction ks arbitrary: m) (auto simp: get_del)

lemma get_put_other: "k' \<noteq> k \<Longrightarrow> get (put k v m) k' = get m k'"
  by (simp add: get_put)

lemma ran_put: "e \<in> ran (get (put k v m)) \<Longrightarrow> e = v \<or> e \<in> ran (get m)"
  by (auto simp: get_put ran_def split: if_splits)

lemma ran_del: "e \<in> ran (get (del k m)) \<Longrightarrow> e \<in> ran (get m)"
  by (auto simp: get_del ran_def split: if_splits)

end

section \<open>Ordered maps\<close>

type_synonym ('k, 'v) omap = "('k \<times> 'v) list"

definition om_ok :: "('k::linorder, 'v) omap \<Rightarrow> bool" where
  "om_ok m \<longleftrightarrow> sorted_wrt (<) (map fst m)"

fun om_put :: "'k::linorder \<Rightarrow> 'v \<Rightarrow> ('k, 'v) omap \<Rightarrow> ('k, 'v) omap" where
  "om_put k v [] = [(k, v)]"
| "om_put k v (p # m) =
     (if fst p < k then p # om_put k v m
      else if fst p = k then (k, v) # m
      else (k, v) # p # m)"

definition om_del :: "'k::linorder \<Rightarrow> ('k, 'v) omap \<Rightarrow> ('k, 'v) omap" where
  "om_del k m = filter (\<lambda>p. fst p \<noteq> k) m"

definition om_lower_bound :: "'k::linorder \<Rightarrow> ('k, 'v) omap \<Rightarrow> ('k, 'v) omap" where
  "om_lower_bound k m = dropWhile (\<lambda>p. fst p < k) m"

definition om_range :: "'k::linorder \<Rightarrow> 'k \<Rightarrow> ('k, 'v) omap \<Rightarrow> ('k, 'v) omap" where
  "om_range k e m = takeWhile (\<lambda>p. fst p < e) (om_lower_bound k m)"

lemma om_ok_Nil [simp]: "om_ok []"
  by (simp add: om_ok_def)

lemma om_ok_Cons: "om_ok (p # m) \<longleftrightarrow> (\<forall>q \<in> set m. fst p < fst q) \<and> om_ok m"
  by (auto simp: om_ok_def)

lemma om_ok_distinct: "om_ok m \<Longrightarrow> distinct (map fst m)"
  by (induction m) (auto simp: om_ok_Cons)

lemma fst_set_om_put: "fst ` set (om_put k v m) = insert k (fst ` set m)"
  by (induction m) auto

lemma om_ok_put: "om_ok m \<Longrightarrow> om_ok (om_put k v m)"
proof (induction m)
  case (Cons p m)
  have keys: "fst ` set (om_put k v m) = insert k (fst ` set m)"
    by (rule fst_set_om_put)
  have below: "\<forall>q \<in> set (om_put k v m). fst p < fst q" if "fst p < k"
  proof
    fix q assume "q \<in> set (om_put k v m)"
    then have "fst q \<in> insert k (fst ` set m)" unfolding keys [symmetric] by (rule imageI)
    with Cons.prems that show "fst p < fst q" by (auto simp: om_ok_Cons)
  qed
  show ?case
    using Cons below by (auto simp: om_ok_Cons)
qed (simp add: om_ok_Cons)

lemma om_ok_del: "om_ok m \<Longrightarrow> om_ok (om_del k m)"
  by (induction m) (auto simp: om_ok_Cons om_del_def)

lemma map_of_om_put [store_simps]: "map_of (om_put k v m) = (map_of m)(k \<mapsto> v)"
  by (induction m) auto

lemma map_of_om_del [store_simps]: "map_of (om_del k m) = (map_of m)(k := None)"
  by (induction m) (auto simp: om_del_def)

interpretation om: keyed_store map_of om_put om_del om_ok
  by unfold_locales (simp_all add: map_of_om_put map_of_om_del om_ok_put om_ok_del)

lemma om_range_filter:
  "om_ok m \<Longrightarrow> om_range k e m = filter (\<lambda>p. k \<le> fst p \<and> fst p < e) m"
proof (induction m)
  case (Cons p m)
  have "takeWhile (\<lambda>p. fst p < e) m' = filter (\<lambda>p. fst p < e) m'" if "om_ok m'" for m' :: "('a, 'b) omap"
    using that
  proof (induction m')
    case (Cons q m')
    then have "filter (\<lambda>p. fst p < e) m' = []" if "\<not> fst q < e"
      using that by (fastforce simp: om_ok_Cons filter_empty_conv)
    with Cons show ?case by (auto simp: om_ok_Cons)
  qed simp
  note take = this [OF Cons.prems]
  show ?case
  proof (cases "fst p < k")
    case True
    with Cons show ?thesis by (auto simp: om_ok_Cons om_range_def om_lower_bound_def)
  next
    case False
    have "k \<le> fst q" if "q \<in> set (p # m)" for q
      using that False Cons.prems by (fastforce simp: om_ok_Cons)
    then have "filter (\<lambda>p. fst p < e) (p # m) = filter (\<lambda>p. k \<le> fst p \<and> fst p < e) (p # m)"
      by (intro filter_cong) auto
    with False take show ?thesis by (simp add: om_range_def om_lower_bound_def)
  qed
qed (simp add: om_range_def om_lower_bound_def)

lemma set_om_range:
  "om_ok m \<Longrightarrow> p \<in> set (om_range k e m) \<longleftrightarrow> p \<in> set m \<and> k \<le> fst p \<and> fst p < e"
  by (auto simp: om_range_filter)

lemma om_ok_filter: "om_ok m \<Longrightarrow> om_ok (filter P m)"
  by (induction m) (auto simp: om_ok_Cons)

lemma om_set_iff: "om_ok m \<Longrightarrow> (k, v) \<in> set m \<longleftrightarrow> map_of m k = Some v"
  using om_ok_distinct by fastforce

text \<open>
  The scope of a range request or a watch: the single key when the end is empty, the half-open
  interval otherwise.
\<close>

definition inScope :: "string \<Rightarrow> string \<Rightarrow> string \<Rightarrow> bool" where
  "inScope key rangeEnd k \<longleftrightarrow> (if rangeEnd = [] then k = key else key \<le> k \<and> k < rangeEnd)"

section \<open>Queues ordered by a time\<close>

text \<open>
  Insertion after every element whose key is not greater: \<^verbatim>\<open>std::multimap::emplace\<close> on a
  multimap read as a list, and insertion at \<^verbatim>\<open>std::upper_bound\<close> of a sorted sequence.
\<close>

fun emplace_after :: "('a \<Rightarrow> 'k::linorder) \<Rightarrow> 'a \<Rightarrow> 'a list \<Rightarrow> 'a list" where
  "emplace_after f x [] = [x]"
| "emplace_after f x (y # ys) = (if f x < f y then x # y # ys else y # emplace_after f x ys)"

lemma set_emplace_after [simp]: "set (emplace_after f x ys) = insert x (set ys)"
  by (induction ys) auto

lemma mset_emplace_after [simp]: "mset (emplace_after f x ys) = add_mset x (mset ys)"
  by (induction ys) auto

lemma sorted_emplace_after: "sorted (map f ys) \<Longrightarrow> sorted (map f (emplace_after f x ys))"
proof (induction ys)
  case (Cons y ys)
  then show ?case by (cases "f x < f y") (simp_all, fastforce)
qed simp

lemma distinct_emplace_after:
  "distinct (map g ys) \<Longrightarrow> g x \<notin> g ` set ys \<Longrightarrow> distinct (map g (emplace_after f x ys))"
  by (induction ys) auto

lemma map_of_emplace_after:
  "i \<notin> fst ` set m \<Longrightarrow> map_of (emplace_after f (i, r) m) = (map_of m)(i \<mapsto> r)"
  by (induction m) (auto simp: fun_eq_iff)

end
