(* ===== verification/Kv_Store.thy ===== *)
theory Kv_Store
  imports Prelude
begin

text \<open>
  The in-memory key-value store of the coordinator,
  \<^verbatim>\<open>src/datasystem/common/coordinator/memory_kv_store.{h,cpp}\<close>, with the entry and event
  types of \<^verbatim>\<open>key_value_entry.h\<close> and \<^verbatim>\<open>watch_event.h\<close>.

  Each operation holds \<^verbatim>\<open>mutex_\<close> for its whole effect on the store, so it is one state
  transformation. A set \<^verbatim>\<open>mutationCallback_\<close> is called after the lock is released, once per
  event and in order; the operations return that list of events. \<^verbatim>\<open>revision_\<close> and the
  entry versions are signed 64-bit counters.
\<close>

section \<open>Data\<close>

definition COORDINATOR_NO_VERSION_CHECK :: int where
  "COORDINATOR_NO_VERSION_CHECK = - 1"

definition COORDINATOR_KEY_NOT_EXISTS_VERSION :: int where
  "COORDINATOR_KEY_NOT_EXISTS_VERSION = 0"

definition COORDINATOR_NO_MOD_REVISION_CHECK :: int where
  "COORDINATOR_NO_MOD_REVISION_CHECK = 0"

definition COORDINATOR_NO_GLOBAL_REVISION_CHECK :: int where
  "COORDINATOR_NO_GLOBAL_REVISION_CHECK = 0"

lemmas coordinator_consts =
  COORDINATOR_NO_VERSION_CHECK_def COORDINATOR_KEY_NOT_EXISTS_VERSION_def
  COORDINATOR_NO_MOD_REVISION_CHECK_def COORDINATOR_NO_GLOBAL_REVISION_CHECK_def

record KeyValueEntry =
  kve_key :: string
  kve_value :: string
  kve_version :: int
  kve_modRevision :: int

datatype WatchEventType = PUT | DELETE | REWATCH

record WatchEvent =
  ev_type :: WatchEventType
  ev_entry :: KeyValueEntry
  ev_revision :: int

record ValueEntry =
  ve_value :: string
  ve_version :: int
  ve_createRevision :: int
  ve_modRevision :: int
  ve_ttlMs :: int
  ve_ttlGeneration :: "64 word"

record MemoryKvStore =
  kv_data :: "(string, ValueEntry) omap"
  kv_callback :: bool
  kv_revision :: int

definition MemoryKvStore_init :: MemoryKvStore where
  "MemoryKvStore_init = \<lparr>kv_data = [], kv_callback = False, kv_revision = 1\<rparr>"

definition MemoryKvStore_SetMutationCallback :: "bool \<Rightarrow> MemoryKvStore \<Rightarrow> MemoryKvStore" where
  "MemoryKvStore_SetMutationCallback callback s = s\<lparr>kv_callback := callback\<rparr>"

definition MemoryKvStore_CurrentRevision :: "MemoryKvStore \<Rightarrow> int" where
  "MemoryKvStore_CurrentRevision s = kv_revision s"

definition toKeyValueEntry :: "string \<times> ValueEntry \<Rightarrow> KeyValueEntry" where
  "toKeyValueEntry p =
     \<lparr>kve_key = fst p, kve_value = ve_value (snd p), kve_version = ve_version (snd p),
      kve_modRevision = ve_modRevision (snd p)\<rparr>"

section \<open>Operations\<close>

text \<open>The three fences of \<^verbatim>\<open>Put\<close>, in the order the code tests them.\<close>

definition Put_fences ::
  "MemoryKvStore \<Rightarrow> ValueEntry option \<Rightarrow> int \<Rightarrow> int \<Rightarrow> int \<Rightarrow> StatusCode option" where
  "Put_fences s it expectedVersion expectedModRevision expectedGlobalRevision =
     (if expectedGlobalRevision \<noteq> COORDINATOR_NO_GLOBAL_REVISION_CHECK
         \<and> kv_revision s \<noteq> expectedGlobalRevision
      then Some K_TRY_AGAIN
      else if expectedModRevision \<noteq> COORDINATOR_NO_MOD_REVISION_CHECK
         \<and> (case it of None \<Rightarrow> True | Some e \<Rightarrow> ve_modRevision e \<noteq> expectedModRevision)
      then Some K_TRY_AGAIN
      else if expectedVersion = COORDINATOR_KEY_NOT_EXISTS_VERSION
      then (if it \<noteq> None then Some K_INVALID else None)
      else if expectedVersion \<noteq> COORDINATOR_NO_VERSION_CHECK
      then (case it of None \<Rightarrow> Some K_NOT_FOUND
            | Some e \<Rightarrow> if ve_version e \<noteq> expectedVersion then Some K_INVALID else None)
      else None)"

definition Put_stored :: "ValueEntry option \<Rightarrow> string \<Rightarrow> int \<Rightarrow> int \<Rightarrow> ValueEntry" where
  "Put_stored it val ttlMs newRevision =
     (case it of
        Some e \<Rightarrow> e\<lparr>ve_version := wrap64 (ve_version e + 1), ve_value := val,
                    ve_modRevision := newRevision, ve_ttlMs := ttlMs,
                    ve_ttlGeneration := ve_ttlGeneration e + 1\<rparr>
      | None \<Rightarrow> \<lparr>ve_value = val, ve_version = 1, ve_createRevision = newRevision,
                 ve_modRevision = newRevision, ve_ttlMs = ttlMs, ve_ttlGeneration = 1\<rparr>)"

record PutResult =
  put_version :: int
  put_revision :: int
  put_ttlGeneration :: "64 word"

definition MemoryKvStore_Put ::
  "string \<Rightarrow> string \<Rightarrow> int \<Rightarrow> int \<Rightarrow> int \<Rightarrow> int \<Rightarrow> MemoryKvStore
   \<Rightarrow> (MemoryKvStore \<times> PutResult \<times> WatchEvent list) result" where
  "MemoryKvStore_Put key val ttlMs expectedVersion expectedModRevision expectedGlobalRevision s =
     (let it = map_of (kv_data s) key in
      case Put_fences s it expectedVersion expectedModRevision expectedGlobalRevision of
        Some code \<Rightarrow> Inl code
      | None \<Rightarrow>
          (let newRevision = wrap64 (kv_revision s + 1);
               stored = Put_stored it val ttlMs newRevision;
               event = \<lparr>ev_type = PUT, ev_entry = toKeyValueEntry (key, stored),
                        ev_revision = newRevision\<rparr>
           in Inr (s\<lparr>kv_data := om_put key stored (kv_data s), kv_revision := newRevision\<rparr>,
                   \<lparr>put_version = ve_version stored, put_revision = newRevision,
                    put_ttlGeneration = ve_ttlGeneration stored\<rparr>,
                   if kv_callback s then [event] else [])))"

text \<open>The entries selected by \<^verbatim>\<open>[key, rangeEnd)\<close>, or by the single key when \<^verbatim>\<open>rangeEnd\<close> is empty.\<close>

definition selectRange :: "string \<Rightarrow> string \<Rightarrow> MemoryKvStore \<Rightarrow> (string \<times> ValueEntry) list" where
  "selectRange key rangeEnd s =
     (if rangeEnd = []
      then (case map_of (kv_data s) key of None \<Rightarrow> [] | Some e \<Rightarrow> [(key, e)])
      else om_range key rangeEnd (kv_data s))"

definition MemoryKvStore_Range ::
  "string \<Rightarrow> string \<Rightarrow> KeyValueEntry list \<Rightarrow> MemoryKvStore \<Rightarrow> KeyValueEntry list \<times> int" where
  "MemoryKvStore_Range key rangeEnd kvs s =
     (kvs @ map toKeyValueEntry (selectRange key rangeEnd s), kv_revision s)"

record DeleteResult =
  del_deleted :: int
  del_revision :: int
  del_entries :: "KeyValueEntry list"

definition MemoryKvStore_Delete ::
  "string \<Rightarrow> string \<Rightarrow> KeyValueEntry list \<Rightarrow> int \<Rightarrow> MemoryKvStore
   \<Rightarrow> (MemoryKvStore \<times> DeleteResult \<times> WatchEvent list) result" where
  "MemoryKvStore_Delete key rangeEnd deletedEntries expectedModRevision s =
     (if expectedModRevision \<noteq> COORDINATOR_NO_MOD_REVISION_CHECK \<and> rangeEnd \<noteq> []
      then Inl K_INVALID
      else
        let toDelete = selectRange key rangeEnd s in
        if toDelete = []
        then Inr (s, \<lparr>del_deleted = 0, del_revision = kv_revision s,
                      del_entries = deletedEntries\<rparr>, [])
        else if expectedModRevision \<noteq> COORDINATOR_NO_MOD_REVISION_CHECK
                \<and> ve_modRevision (snd (hd toDelete)) \<noteq> expectedModRevision
        then Inl K_TRY_AGAIN
        else
          let newRevision = wrap64 (kv_revision s + 1);
              entries = deletedEntries @ map toKeyValueEntry toDelete;
              events = (if kv_callback s
                        then map (\<lambda>p. \<lparr>ev_type = DELETE, ev_entry = toKeyValueEntry p,
                                        ev_revision = newRevision\<rparr>) toDelete
                        else [])
          in Inr (s\<lparr>kv_data := fold om_del (map fst toDelete) (kv_data s),
                    kv_revision := newRevision\<rparr>,
                  \<lparr>del_deleted = int (length entries), del_revision = newRevision,
                   del_entries = entries\<rparr>,
                  events))"

definition MemoryKvStore_DeleteIfTtlExpired ::
  "string \<Rightarrow> int \<Rightarrow> 64 word \<Rightarrow> MemoryKvStore \<Rightarrow> bool \<times> MemoryKvStore \<times> WatchEvent list" where
  "MemoryKvStore_DeleteIfTtlExpired key revision ttlGeneration s =
     (case map_of (kv_data s) key of
        None \<Rightarrow> (False, s, [])
      | Some e \<Rightarrow>
          if ve_modRevision e \<noteq> revision then (False, s, [])
          else if ve_ttlMs e \<le> 0 \<or> ve_ttlGeneration e \<noteq> ttlGeneration then (False, s, [])
          else
            let deleteRevision = wrap64 (kv_revision s + 1);
                event = \<lparr>ev_type = DELETE, ev_entry = toKeyValueEntry (key, e),
                         ev_revision = deleteRevision\<rparr>
            in (True,
                s\<lparr>kv_data := om_del key (kv_data s), kv_revision := deleteRevision\<rparr>,
                if kv_callback s then [event] else []))"

record KeepAliveResult =
  ka_ttlMs :: int
  ka_remainingTtlMs :: int
  ka_revision :: int
  ka_ttlGeneration :: "64 word"

definition MemoryKvStore_KeepAlive ::
  "string \<Rightarrow> int \<Rightarrow> MemoryKvStore \<Rightarrow> (MemoryKvStore \<times> KeepAliveResult) result" where
  "MemoryKvStore_KeepAlive key expectedModRevision s =
     (case map_of (kv_data s) key of
        None \<Rightarrow> Inl K_NOT_FOUND
      | Some e \<Rightarrow>
          if ve_ttlMs e \<le> 0 then Inl K_NOT_FOUND
          else if expectedModRevision \<noteq> COORDINATOR_NO_MOD_REVISION_CHECK
                  \<and> ve_modRevision e \<noteq> expectedModRevision
          then Inl K_TRY_AGAIN
          else
            let entry = e\<lparr>ve_ttlGeneration := ve_ttlGeneration e + 1\<rparr>
            in Inr (s\<lparr>kv_data := om_put key entry (kv_data s)\<rparr>,
                    \<lparr>ka_ttlMs = ve_ttlMs entry, ka_remainingTtlMs = ve_ttlMs entry,
                     ka_revision = ve_modRevision entry,
                     ka_ttlGeneration = ve_ttlGeneration entry\<rparr>))"


lemmas kv_exec =
  MemoryKvStore_Put_def MemoryKvStore_Delete_def MemoryKvStore_DeleteIfTtlExpired_def
  MemoryKvStore_KeepAlive_def MemoryKvStore_Range_def Put_fences_def Put_stored_def
  selectRange_def om_range_def om_lower_bound_def om_del_def toKeyValueEntry_def
  coordinator_consts Let_def

section \<open>Sequences of operations\<close>

datatype KvOp =
    OpPut string string int int int int
  | OpDelete string string int
  | OpExpire string int "64 word"
  | OpKeepAlive string int

fun kv_step :: "MemoryKvStore \<Rightarrow> KvOp \<Rightarrow> MemoryKvStore \<times> WatchEvent list" where
  "kv_step s (OpPut key val ttlMs ev em eg) =
     (case MemoryKvStore_Put key val ttlMs ev em eg s of
        Inl _ \<Rightarrow> (s, []) | Inr (s', _, evs) \<Rightarrow> (s', evs))"
| "kv_step s (OpDelete key rangeEnd em) =
     (case MemoryKvStore_Delete key rangeEnd [] em s of
        Inl _ \<Rightarrow> (s, []) | Inr (s', _, evs) \<Rightarrow> (s', evs))"
| "kv_step s (OpExpire key rv gen) = snd (MemoryKvStore_DeleteIfTtlExpired key rv gen s)"
| "kv_step s (OpKeepAlive key em) =
     (case MemoryKvStore_KeepAlive key em s of Inl _ \<Rightarrow> (s, []) | Inr (s', _) \<Rightarrow> (s', []))"

fun kv_run :: "MemoryKvStore \<Rightarrow> KvOp list \<Rightarrow> MemoryKvStore \<times> WatchEvent list" where
  "kv_run s [] = (s, [])"
| "kv_run s (op # ops) =
     (let (s1, evs1) = kv_step s op; (s2, evs2) = kv_run s1 ops in (s2, evs1 @ evs2))"

section \<open>The store invariant\<close>

definition entry_ok :: "int \<Rightarrow> ValueEntry \<Rightarrow> bool" where
  "entry_ok r e \<longleftrightarrow> 1 \<le> ve_version e \<and> 1 \<le> ve_createRevision e
     \<and> ve_createRevision e \<le> ve_modRevision e \<and> ve_modRevision e \<le> r
     \<and> ve_version e \<le> ve_modRevision e - ve_createRevision e + 1"

definition kv_inv :: "MemoryKvStore \<Rightarrow> bool" where
  "kv_inv s \<longleftrightarrow> om_ok (kv_data s) \<and> 1 \<le> kv_revision s \<and> kv_revision s \<le> i64_max
     \<and> (\<forall>k e. map_of (kv_data s) k = Some e \<longrightarrow> entry_ok (kv_revision s) e)
     \<and> (\<forall>k e k' e'. map_of (kv_data s) k = Some e \<longrightarrow> map_of (kv_data s) k' = Some e'
          \<longrightarrow> ve_modRevision e = ve_modRevision e' \<longrightarrow> k = k')"

lemma kv_invI:
  assumes "om_ok (kv_data s)" "1 \<le> kv_revision s" "kv_revision s \<le> i64_max"
    and "\<And>k e. map_of (kv_data s) k = Some e \<Longrightarrow> entry_ok (kv_revision s) e"
    and "\<And>k e k' e'. map_of (kv_data s) k = Some e \<Longrightarrow> map_of (kv_data s) k' = Some e'
          \<Longrightarrow> ve_modRevision e = ve_modRevision e' \<Longrightarrow> k = k'"
  shows "kv_inv s"
  unfolding kv_inv_def using assms by blast

lemma kv_inv_inj:
  "kv_inv s \<Longrightarrow> map_of (kv_data s) k = Some e \<Longrightarrow> map_of (kv_data s) k' = Some e'
   \<Longrightarrow> ve_modRevision e = ve_modRevision e' \<Longrightarrow> k = k'"
  unfolding kv_inv_def by blast

lemma kv_inv_init: "kv_inv MemoryKvStore_init"
  by (simp add: kv_inv_def MemoryKvStore_init_def i64_max_def)

lemma kv_invD:
  assumes "kv_inv s"
  shows "om_ok (kv_data s)" "1 \<le> kv_revision s" "kv_revision s \<le> i64_max"
    and "map_of (kv_data s) k = Some e \<Longrightarrow> entry_ok (kv_revision s) e"
    and "map_of (kv_data s) k = Some e \<Longrightarrow> ve_modRevision e \<le> kv_revision s"
  using assms by (auto simp: kv_inv_def entry_ok_def)

lemma kv_inv_nonneg: "kv_inv s \<Longrightarrow> 0 \<le> kv_revision s"
  by (simp add: kv_inv_def)

lemma wrap64_next: "1 \<le> r \<Longrightarrow> r < i64_max \<Longrightarrow> wrap64 (r + 1) = r + 1"
  by (rule wrap64_id) (simp_all add: i64_max_def)

lemma entry_ok_mono: "entry_ok r e \<Longrightarrow> r \<le> r' \<Longrightarrow> entry_ok r' e"
  by (simp add: entry_ok_def)

lemma entry_ok_generation [simp]: "entry_ok r (e\<lparr>ve_ttlGeneration := g\<rparr>) = entry_ok r e"
  by (simp add: entry_ok_def)

lemma Put_stored_modRevision [simp]: "ve_modRevision (Put_stored it val ttl r) = r"
  by (simp add: Put_stored_def split: option.splits)

lemma Put_stored_ttlMs [simp]: "ve_ttlMs (Put_stored it val ttl r) = ttl"
  by (simp add: Put_stored_def split: option.splits)

lemma Put_stored_value [simp]: "ve_value (Put_stored it val ttl r) = val"
  by (simp add: Put_stored_def split: option.splits)

lemma Put_stored_ok:
  assumes "1 \<le> r" "r < i64_max" "\<And>e. it = Some e \<Longrightarrow> entry_ok r e"
  shows "entry_ok (r + 1) (Put_stored it val ttl (r + 1))"
proof (cases it)
  case None
  with assms(1) show ?thesis by (simp add: Put_stored_def entry_ok_def)
next
  case (Some e)
  from assms(3) [OF this] have e: "entry_ok r e" .
  then have "wrap64 (ve_version e + 1) = ve_version e + 1"
    using assms(2) by (intro wrap64_next) (simp_all add: entry_ok_def)
  with e Some show ?thesis by (simp add: Put_stored_def entry_ok_def)
qed

lemma Put_cases:
  assumes "MemoryKvStore_Put key val ttl ev em eg s = Inr (s', res, evs)"
  obtains stored where
    "Put_fences s (map_of (kv_data s) key) ev em eg = None"
    "stored = Put_stored (map_of (kv_data s) key) val ttl (wrap64 (kv_revision s + 1))"
    "s' = s\<lparr>kv_data := om_put key stored (kv_data s), kv_revision := wrap64 (kv_revision s + 1)\<rparr>"
    "res = \<lparr>put_version = ve_version stored, put_revision = wrap64 (kv_revision s + 1),
            put_ttlGeneration = ve_ttlGeneration stored\<rparr>"
    "evs = (if kv_callback s then [\<lparr>ev_type = PUT, ev_entry = toKeyValueEntry (key, stored),
            ev_revision = wrap64 (kv_revision s + 1)\<rparr>] else [])"
  using assms by (auto simp: MemoryKvStore_Put_def Let_def split: option.splits)

lemma KeepAlive_cases:
  assumes "MemoryKvStore_KeepAlive key em s = Inr (s', res)"
  obtains e where "map_of (kv_data s) key = Some e" "0 < ve_ttlMs e"
    "em = COORDINATOR_NO_MOD_REVISION_CHECK \<or> ve_modRevision e = em"
    "s' = s\<lparr>kv_data := om_put key (e\<lparr>ve_ttlGeneration := ve_ttlGeneration e + 1\<rparr>) (kv_data s)\<rparr>"
    "res = \<lparr>ka_ttlMs = ve_ttlMs e, ka_remainingTtlMs = ve_ttlMs e, ka_revision = ve_modRevision e,
            ka_ttlGeneration = ve_ttlGeneration e + 1\<rparr>"
  using assms
  by (auto simp: MemoryKvStore_KeepAlive_def Let_def not_le split: option.splits if_splits)

lemma Expire_cases:
  obtains (kept) "MemoryKvStore_DeleteIfTtlExpired key rv gen s = (False, s, [])"
  | (deleted) e where "map_of (kv_data s) key = Some e" "ve_modRevision e = rv"
      "0 < ve_ttlMs e" "ve_ttlGeneration e = gen"
      "MemoryKvStore_DeleteIfTtlExpired key rv gen s =
         (True, s\<lparr>kv_data := om_del key (kv_data s), kv_revision := wrap64 (kv_revision s + 1)\<rparr>,
          if kv_callback s then [\<lparr>ev_type = DELETE, ev_entry = toKeyValueEntry (key, e),
                                   ev_revision = wrap64 (kv_revision s + 1)\<rparr>] else [])"
proof (cases "map_of (kv_data s) key")
  case None
  then show thesis by (intro kept) (simp add: MemoryKvStore_DeleteIfTtlExpired_def)
next
  case (Some e)
  show thesis
  proof (cases "ve_modRevision e = rv \<and> 0 < ve_ttlMs e \<and> ve_ttlGeneration e = gen")
    case True
    with Some show thesis
      by (intro deleted) (simp_all add: MemoryKvStore_DeleteIfTtlExpired_def Let_def)
  next
    case False
    with Some show thesis
      by (intro kept) (auto simp: MemoryKvStore_DeleteIfTtlExpired_def)
  qed
qed

lemma Delete_cases:
  assumes "MemoryKvStore_Delete key rangeEnd es em s = Inr (s', res, evs)"
  obtains (none) "selectRange key rangeEnd s = []" "s' = s" "evs = []"
      "res = \<lparr>del_deleted = 0, del_revision = kv_revision s, del_entries = es\<rparr>"
  | (some) "selectRange key rangeEnd s \<noteq> []"
      "em = COORDINATOR_NO_MOD_REVISION_CHECK
        \<or> rangeEnd = [] \<and> ve_modRevision (snd (hd (selectRange key rangeEnd s))) = em"
      "s' = s\<lparr>kv_data := fold om_del (map fst (selectRange key rangeEnd s)) (kv_data s),
              kv_revision := wrap64 (kv_revision s + 1)\<rparr>"
      "evs = (if kv_callback s
              then map (\<lambda>p. \<lparr>ev_type = DELETE, ev_entry = toKeyValueEntry p,
                             ev_revision = wrap64 (kv_revision s + 1)\<rparr>) (selectRange key rangeEnd s)
              else [])"
      "res = \<lparr>del_deleted = int (length (es @ map toKeyValueEntry (selectRange key rangeEnd s))),
              del_revision = wrap64 (kv_revision s + 1),
              del_entries = es @ map toKeyValueEntry (selectRange key rangeEnd s)\<rparr>"
  using assms by (auto simp: MemoryKvStore_Delete_def Let_def split: if_splits)


lemma kv_inv_put_entry:
  assumes inv: "kv_inv s" and r: "kv_revision s < i64_max"
    and e: "entry_ok (kv_revision s + 1) e" "ve_modRevision e = kv_revision s + 1"
  shows "kv_inv (s\<lparr>kv_data := om_put key e (kv_data s), kv_revision := kv_revision s + 1\<rparr>)"
proof -
  have old: "ve_modRevision e' \<noteq> ve_modRevision e" if "map_of (kv_data s) k = Some e'" for k e'
    using kv_invD(5) [OF inv that] e(2) by simp
  have ok: "entry_ok (kv_revision s + 1) e'" if "map_of (kv_data s) k = Some e'" for k e'
    using kv_invD(4) [OF inv that] by (rule entry_ok_mono) simp
  show ?thesis
  proof (rule kv_invI)
    fix k e1 k' e2
    assume "map_of (kv_data (s\<lparr>kv_data := om_put key e (kv_data s), kv_revision := kv_revision s + 1\<rparr>)) k = Some e1"
      "map_of (kv_data (s\<lparr>kv_data := om_put key e (kv_data s), kv_revision := kv_revision s + 1\<rparr>)) k' = Some e2"
      "ve_modRevision e1 = ve_modRevision e2"
    then show "k = k'"
      using old [of k e1] old [of k' e2] kv_inv_inj [OF inv, of k e1 k' e2]
      by (auto simp: store_simps split: if_splits)
  qed (use inv r e ok kv_inv_nonneg [OF inv] in
      \<open>auto simp: kv_invD om_ok_put store_simps split: if_splits\<close>)
qed

lemma kv_inv_remove:
  assumes inv: "kv_inv s" and r: "kv_revision s < i64_max"
    and data: "om_ok m" "\<And>k e. map_of m k = Some e \<Longrightarrow> map_of (kv_data s) k = Some e"
  shows "kv_inv (s\<lparr>kv_data := m, kv_revision := kv_revision s + 1\<rparr>)"
proof -
  have "entry_ok (kv_revision s + 1) e" if "map_of m k = Some e" for k e
    using kv_invD(4) [OF inv data(2) [OF that]] by (rule entry_ok_mono) simp
  moreover have "k = k'" if "map_of m k = Some e" "map_of m k' = Some e'"
      "ve_modRevision e = ve_modRevision e'" for k e k' e'
    using kv_inv_inj [OF inv data(2) [OF that(1)] data(2) [OF that(2)] that(3)] .
  ultimately show ?thesis
    using r data(1) kv_invD(2) [OF inv] by (intro kv_invI) auto
qed

lemma kv_inv_generation:
  assumes inv: "kv_inv s" and e: "map_of (kv_data s) key = Some e"
  shows "kv_inv (s\<lparr>kv_data := om_put key (e\<lparr>ve_ttlGeneration := g\<rparr>) (kv_data s)\<rparr>)"
proof -
  let ?s' = "s\<lparr>kv_data := om_put key (e\<lparr>ve_ttlGeneration := g\<rparr>) (kv_data s)\<rparr>"
  have old: "\<exists>e0. map_of (kv_data s) k = Some e0 \<and> ve_modRevision e0 = ve_modRevision e1
      \<and> entry_ok (kv_revision s) e1" if "map_of (kv_data ?s') k = Some e1" for k e1
    using that e kv_invD(4) [OF inv] by (auto simp: store_simps split: if_splits)
  show ?thesis
  proof (rule kv_invI)
    fix k e1 k' e2
    assume "map_of (kv_data ?s') k = Some e1" "map_of (kv_data ?s') k' = Some e2"
      "ve_modRevision e1 = ve_modRevision e2"
    then show "k = k'" using old kv_inv_inj [OF inv] by metis
  qed (use inv old in \<open>auto simp: kv_invD om_ok_put\<close>)
qed

lemma kv_inv_Put [inv_intros]:
  assumes "kv_inv s" "kv_revision s < i64_max"
    and "MemoryKvStore_Put key val ttl ev em eg s = Inr (s', res, evs)"
  shows "kv_inv s'"
proof -
  have next_r: "wrap64 (kv_revision s + 1) = kv_revision s + 1"
    using assms(1,2) by (simp add: wrap64_next kv_invD)
  from assms(3) show ?thesis
    by (rule Put_cases)
      (use assms(1,2) in \<open>auto simp: next_r kv_invD intro!: kv_inv_put_entry Put_stored_ok\<close>)
qed

lemma kv_inv_Delete [inv_intros]:
  assumes "kv_inv s" "kv_revision s < i64_max"
    and "MemoryKvStore_Delete key rangeEnd es em s = Inr (s', res, evs)"
  shows "kv_inv s'"
proof -
  have next_r: "wrap64 (kv_revision s + 1) = kv_revision s + 1"
    using assms(1,2) by (simp add: wrap64_next kv_invD)
  from assms(3) show ?thesis
    by (rule Delete_cases)
      (use assms(1,2) in \<open>auto simp: next_r kv_invD om.ok_fold_del om.get_fold_del
        intro!: kv_inv_remove split: if_splits\<close>)
qed

lemma kv_inv_Expire [inv_intros]:
  assumes "kv_inv s" "kv_revision s < i64_max"
  shows "kv_inv (fst (snd (MemoryKvStore_DeleteIfTtlExpired key rv gen s)))"
proof -
  have next_r: "wrap64 (kv_revision s + 1) = kv_revision s + 1"
    using assms by (simp add: wrap64_next kv_invD)
  show ?thesis
    by (rule Expire_cases [of key rv gen s])
      (use assms in \<open>auto simp: next_r kv_invD om_ok_del store_simps
        intro!: kv_inv_remove split: if_splits\<close>)
qed

lemma kv_inv_KeepAlive [inv_intros]:
  assumes "kv_inv s" "MemoryKvStore_KeepAlive key em s = Inr (s', res)"
  shows "kv_inv s'"
  using assms(2) by (rule KeepAlive_cases) (use assms(1) in \<open>auto intro: kv_inv_generation\<close>)

lemma kv_step_inv:
  "kv_inv s \<Longrightarrow> kv_revision s < i64_max \<Longrightarrow> kv_inv (fst (kv_step s op))"
  by (cases op) (auto split: sum.splits intro: inv_intros)

lemma kv_step_revision:
  assumes "kv_inv s" "kv_revision s < i64_max"
  shows "kv_revision s \<le> kv_revision (fst (kv_step s op))
       \<and> kv_revision (fst (kv_step s op)) \<le> kv_revision s + 1"
proof -
  have next_r: "wrap64 (kv_revision s + 1) = kv_revision s + 1"
    using assms by (simp add: wrap64_next kv_invD)
  show ?thesis
  proof (cases op)
    case (OpExpire key rv gen)
    then show ?thesis
      using next_r by (cases rule: Expire_cases [of key rv gen s]) auto
  qed (use next_r in \<open>auto split: sum.splits elim!: Put_cases Delete_cases KeepAlive_cases\<close>)
qed

lemma kv_run_inv:
  assumes "kv_inv s" "kv_revision s + int (length ops) \<le> i64_max"
  shows "kv_inv (fst (kv_run s ops)) \<and> kv_revision s \<le> kv_revision (fst (kv_run s ops))"
  using assms
proof (induction ops arbitrary: s)
  case (Cons op ops)
  from Cons.prems have lt: "kv_revision s < i64_max" by simp
  let ?s1 = "fst (kv_step s op)"
  have "kv_inv ?s1" by (rule kv_step_inv [OF Cons.prems(1) lt])
  moreover have rev: "kv_revision s \<le> kv_revision ?s1 \<and> kv_revision ?s1 \<le> kv_revision s + 1"
    by (rule kv_step_revision [OF Cons.prems(1) lt])
  moreover have "kv_revision ?s1 + int (length ops) \<le> i64_max"
    using Cons.prems(2) rev by simp
  ultimately have "kv_inv (fst (kv_run ?s1 ops)) \<and> kv_revision ?s1 \<le> kv_revision (fst (kv_run ?s1 ops))"
    by (intro Cons.IH)
  with rev show ?case by (auto simp: split_beta)
qed simp

lemma kv_run_revision:
  assumes "kv_inv s" "kv_revision s + int (length ops) \<le> i64_max"
  shows "kv_revision (fst (kv_run s ops)) \<le> kv_revision s + int (length ops)"
  using assms
proof (induction ops arbitrary: s)
  case (Cons op ops)
  from Cons.prems have lt: "kv_revision s < i64_max" by simp
  have "kv_inv (fst (kv_step s op))" and rev: "kv_revision (fst (kv_step s op)) \<le> kv_revision s + 1"
    using kv_step_inv [OF Cons.prems(1) lt] kv_step_revision [OF Cons.prems(1) lt] by auto
  with Cons.IH [of "fst (kv_step s op)"] Cons.prems(2) show ?case by (simp add: split_beta)
qed simp

text \<open>
  C1. Starting from an empty store, every sequence of puts, deletes, expiries and keep-alives
  keeps the store invariant, as long as the 64-bit revision counter is not exhausted: keys are
  stored once and in order, no entry is newer than the store, an entry's version never exceeds
  the number of revisions since its creation (so neither counter overflows), and no two live
  keys share a modification revision.
\<close>

theorem kv_inv_reachable:
  assumes "int (length ops) < i64_max"
  shows "kv_inv (fst (kv_run (MemoryKvStore_SetMutationCallback b MemoryKvStore_init) ops))"
proof -
  have "kv_inv (MemoryKvStore_SetMutationCallback b MemoryKvStore_init)"
    by (simp add: kv_inv_def MemoryKvStore_SetMutationCallback_def MemoryKvStore_init_def i64_max_def)
  moreover have "kv_revision (MemoryKvStore_SetMutationCallback b MemoryKvStore_init) = 1"
    by (simp add: MemoryKvStore_SetMutationCallback_def MemoryKvStore_init_def)
  ultimately show ?thesis using assms kv_run_inv by auto
qed

theorem kv_inv_reachable_witness:
  "kv_inv (fst (kv_run (MemoryKvStore_SetMutationCallback True MemoryKvStore_init)
     [OpPut ''a'' ''1'' 0 0 0 0, OpPut ''b'' ''2'' 5 (- 1) 0 0, OpDelete ''a'' ''c'' 0]))"
  by (rule kv_inv_reachable) (simp add: i64_max_def)

section \<open>Incarnations\<close>

definition same_incarnation :: "ValueEntry \<Rightarrow> ValueEntry \<Rightarrow> bool" where
  "same_incarnation e e' \<longleftrightarrow> ve_value e' = ve_value e \<and> ve_version e' = ve_version e
     \<and> ve_createRevision e' = ve_createRevision e \<and> ve_modRevision e' = ve_modRevision e
     \<and> ve_ttlMs e' = ve_ttlMs e"

lemma same_incarnation_refl [simp]: "same_incarnation e e"
  by (simp add: same_incarnation_def)

lemma same_incarnation_trans:
  "same_incarnation e1 e2 \<Longrightarrow> same_incarnation e2 e3 \<Longrightarrow> same_incarnation e1 e3"
  by (simp add: same_incarnation_def)

lemma kv_step_entry:
  assumes inv: "kv_inv s" and r: "kv_revision s < i64_max"
    and e': "map_of (kv_data (fst (kv_step s op))) key = Some e'"
  shows "(\<exists>e. map_of (kv_data s) key = Some e \<and> same_incarnation e e')
       \<or> kv_revision s < ve_modRevision e'"
proof -
  have next_r: "wrap64 (kv_revision s + 1) = kv_revision s + 1"
    using inv r by (simp add: wrap64_next kv_invD)
  show ?thesis
  proof (cases op)
    case (OpPut k v ttl ev em eg)
    with e' show ?thesis
      by (auto simp: next_r store_simps split: sum.splits if_splits elim!: Put_cases)
  next
    case (OpDelete k rangeEnd em)
    with e' show ?thesis
      by (auto simp: om.get_fold_del split: sum.splits if_splits elim!: Delete_cases)
  next
    case (OpExpire k rv gen)
    with e' show ?thesis
      by (cases rule: Expire_cases [of k rv gen s]) (auto simp: store_simps split: if_splits)
  next
    case (OpKeepAlive k em)
    with e' show ?thesis
      by (auto simp: store_simps same_incarnation_def split: sum.splits if_splits
          elim!: KeepAlive_cases)
  qed
qed

lemma kv_run_entry:
  assumes "kv_inv s" "kv_revision s + int (length ops) \<le> i64_max"
    and "map_of (kv_data (fst (kv_run s ops))) key = Some e'"
  shows "(\<exists>e. map_of (kv_data s) key = Some e \<and> same_incarnation e e')
       \<or> kv_revision s < ve_modRevision e'"
  using assms
proof (induction ops arbitrary: s)
  case (Cons op ops)
  from Cons.prems have lt: "kv_revision s < i64_max" by simp
  let ?s1 = "fst (kv_step s op)"
  note rev1 = kv_step_revision [OF Cons.prems(1) lt, of op]
  have "(\<exists>e. map_of (kv_data ?s1) key = Some e \<and> same_incarnation e e')
      \<or> kv_revision ?s1 < ve_modRevision e'"
    by (rule Cons.IH) (use Cons.prems rev1 kv_step_inv [OF Cons.prems(1) lt] in
        \<open>auto simp: split_beta\<close>)
  then show ?case
  proof
    assume "\<exists>e. map_of (kv_data ?s1) key = Some e \<and> same_incarnation e e'"
    then obtain e where e: "map_of (kv_data ?s1) key = Some e" "same_incarnation e e'" by blast
    from kv_step_entry [OF Cons.prems(1) lt e(1)] e(2) show ?thesis
      by (metis same_incarnation_def same_incarnation_trans)
  qed (use rev1 in auto)
qed auto

text \<open>
  C2. A modification revision identifies one incarnation of a key. If, after any sequence of
  operations, the key again carries the modification revision it had before, then it was not
  rewritten, deleted or re-created in between: value, version, creation revision and TTL are
  those of the first observation. Hence an operation fenced by \<^verbatim>\<open>expectedModRevision\<close>
  cannot hit a later incarnation (no ABA).
\<close>

theorem kv_no_aba:
  assumes "kv_inv s" and "kv_revision s + int (length ops) \<le> i64_max"
    and "map_of (kv_data s) key = Some e"
    and "map_of (kv_data (fst (kv_run s ops))) key = Some e'"
    and "ve_modRevision e' = ve_modRevision e"
  shows "same_incarnation e e'"
proof -
  have "ve_modRevision e \<le> kv_revision s" using kv_invD(5) [OF assms(1,3)] .
  with kv_run_entry [OF assms(1,2,4)] assms(3,5) show ?thesis by auto
qed

definition kv_ex1 :: MemoryKvStore where
  "kv_ex1 = \<lparr>kv_data = [(''a'', \<lparr>ve_value = ''1'', ve_version = 1, ve_createRevision = 2,
      ve_modRevision = 2, ve_ttlMs = 100, ve_ttlGeneration = 1\<rparr>)], kv_callback = True, kv_revision = 2\<rparr>"

theorem kv_no_aba_witness:
  "same_incarnation (the (map_of (kv_data kv_ex1) ''a''))
     (the (map_of (kv_data (fst (kv_run kv_ex1 [OpPut ''b'' ''2'' 0 (- 1) 0 0, OpKeepAlive ''a'' 2]))) ''a''))"
  by (rule kv_no_aba [of kv_ex1 "[OpPut ''b'' ''2'' 0 (- 1) 0 0, OpKeepAlive ''a'' 2]" "''a''"])
    (auto simp: kv_ex1_def kv_inv_def om_ok_def entry_ok_def i64_max_def kv_exec)


section \<open>The store as a source of events\<close>

definition kv_view :: "MemoryKvStore \<Rightarrow> string \<Rightarrow> (string \<times> int \<times> int) option" where
  "kv_view s k = map_option (\<lambda>e. (ve_value e, ve_version e, ve_modRevision e)) (map_of (kv_data s) k)"

fun apply_event ::
  "WatchEvent \<Rightarrow> (string \<Rightarrow> (string \<times> int \<times> int) option) \<Rightarrow> (string \<Rightarrow> (string \<times> int \<times> int) option)" where
  "apply_event ev m =
     (case ev_type ev of
        PUT \<Rightarrow> m(kve_key (ev_entry ev) \<mapsto>
                  (kve_value (ev_entry ev), kve_version (ev_entry ev), kve_modRevision (ev_entry ev)))
      | DELETE \<Rightarrow> m(kve_key (ev_entry ev) := None)
      | REWATCH \<Rightarrow> m)"

text \<open>
  The contract a watcher relies on: replaying the events of a step on the view before it gives
  the view after it. Whatever satisfies it for single steps satisfies it for whole runs.
\<close>

locale event_source =
  fixes step :: "'s \<Rightarrow> 'o \<Rightarrow> 's \<times> 'e list"
    and run :: "'s \<Rightarrow> 'o list \<Rightarrow> 's \<times> 'e list"
    and view :: "'s \<Rightarrow> 'v"
    and app :: "'e \<Rightarrow> 'v \<Rightarrow> 'v"
    and live :: "'s \<Rightarrow> bool"
  assumes run_Nil: "run s [] = (s, [])"
    and run_Cons: "run s (x # xs) =
      (fst (run (fst (step s x)) xs), snd (step s x) @ snd (run (fst (step s x)) xs))"
    and live_step: "live s \<Longrightarrow> live (fst (step s x))"
    and view_step: "live s \<Longrightarrow> view (fst (step s x)) = fold app (snd (step s x)) (view s)"
begin

lemma view_run: "live s \<Longrightarrow> view (fst (run s xs)) = fold app (snd (run s xs)) (view s)"
  by (induction xs arbitrary: s) (simp_all add: run_Nil run_Cons live_step view_step)

lemma run_append:
  "run s (xs @ ys) =
     (fst (run (fst (run s xs)) ys), snd (run s xs) @ snd (run (fst (run s xs)) ys))"
  by (induction xs arbitrary: s) (simp_all add: run_Nil run_Cons)

end

lemma fold_apply_deletes:
  "fold apply_event (map (\<lambda>p. \<lparr>ev_type = DELETE, ev_entry = toKeyValueEntry p, ev_revision = r\<rparr>) ps) m
     = (\<lambda>k. if k \<in> fst ` set ps then None else m k)"
  by (induction ps arbitrary: m) (auto simp: toKeyValueEntry_def fun_eq_iff)

lemma kv_step_view:
  assumes "kv_callback s"
  shows "kv_view (fst (kv_step s op)) = fold apply_event (snd (kv_step s op)) (kv_view s)"
proof (cases op)
  case (OpPut k v ttl ev em eg)
  with assms show ?thesis
    by (auto simp: kv_view_def store_simps toKeyValueEntry_def fun_eq_iff split: sum.splits
        elim!: Put_cases)
next
  case (OpDelete k rangeEnd em)
  with assms show ?thesis
    by (auto simp: kv_view_def om.get_fold_del fold_apply_deletes fun_eq_iff split: sum.splits
        elim!: Delete_cases)
next
  case (OpExpire k rv gen)
  with assms show ?thesis
    by (cases rule: Expire_cases [of k rv gen s])
      (auto simp: kv_view_def store_simps toKeyValueEntry_def fun_eq_iff)
next
  case (OpKeepAlive k em)
  with assms show ?thesis
    by (auto simp: kv_view_def store_simps fun_eq_iff split: sum.splits elim!: KeepAlive_cases)
qed

lemma kv_step_callback: "kv_callback (fst (kv_step s op)) = kv_callback s"
proof (cases op)
  case (OpExpire k rv gen)
  then show ?thesis by (cases rule: Expire_cases [of k rv gen s]) auto
qed (auto split: sum.splits elim!: Put_cases Delete_cases KeepAlive_cases)

lemma kv_run_callback: "kv_callback (fst (kv_run s ops)) = kv_callback s"
  by (induction ops arbitrary: s) (simp_all add: split_beta kv_step_callback)

interpretation kv: event_source kv_step kv_run kv_view apply_event kv_callback
  by unfold_locales (simp_all add: split_beta kv_step_callback kv_step_view)

text \<open>
  C3. The events a store emits are a complete log of it: with the mutation callback bound,
  replaying the events of any sequence of operations on the state before the sequence gives
  exactly the state after it (value, version and modification revision of every key). A
  watcher that starts from a snapshot and applies every later event has the store's contents.
\<close>

theorem kv_events_replay:
  assumes "kv_callback s"
  shows "kv_view (fst (kv_run s ops)) = fold apply_event (snd (kv_run s ops)) (kv_view s)"
  using assms by (rule kv.view_run)

theorem kv_events_replay_witness:
  "kv_view (fst (kv_run kv_ex1 [OpPut ''b'' ''2'' 0 0 0 0, OpDelete ''a'' [] 2]))
     = fold apply_event (snd (kv_run kv_ex1 [OpPut ''b'' ''2'' 0 0 0 0, OpDelete ''a'' [] 2])) (kv_view kv_ex1)"
  by (rule kv_events_replay) (simp add: kv_ex1_def)


lemma kv_step_event_revisions:
  assumes inv: "kv_inv s" and r: "kv_revision s < i64_max" and ev: "ev \<in> set (snd (kv_step s op))"
  shows "ev_revision ev = kv_revision s + 1 \<and> kv_revision (fst (kv_step s op)) = kv_revision s + 1"
proof -
  have next_r: "wrap64 (kv_revision s + 1) = kv_revision s + 1"
    using inv r by (simp add: wrap64_next kv_invD)
  show ?thesis
  proof (cases op)
    case (OpExpire k rv gen)
    with ev next_r show ?thesis
      by (cases rule: Expire_cases [of k rv gen s]) (auto split: if_splits)
  qed (use ev next_r in \<open>auto split: sum.splits if_splits
      elim!: Put_cases Delete_cases KeepAlive_cases\<close>)
qed

lemma sorted_const: "(\<And>x. x \<in> set xs \<Longrightarrow> f x = c) \<Longrightarrow> sorted (map f xs)" for c :: "'a::linorder"
  by (induction xs) auto

lemma kv_run_event_revisions:
  assumes "kv_inv s" and "kv_revision s + int (length ops) \<le> i64_max"
  shows "sorted (map ev_revision (snd (kv_run s ops)))
       \<and> (\<forall>ev \<in> set (snd (kv_run s ops)).
            kv_revision s < ev_revision ev \<and> ev_revision ev \<le> kv_revision (fst (kv_run s ops)))"
  using assms
proof (induction ops arbitrary: s)
  case (Cons op ops)
  from Cons.prems have lt: "kv_revision s < i64_max" by simp
  let ?s1 = "fst (kv_step s op)"
  note rev1 = kv_step_revision [OF Cons.prems(1) lt, of op]
  note step = kv_step_event_revisions [OF Cons.prems(1) lt]
  have inv1: "kv_inv ?s1" by (rule kv_step_inv [OF Cons.prems(1) lt])
  have len1: "kv_revision ?s1 + int (length ops) \<le> i64_max" using Cons.prems(2) rev1 by simp
  note run1 = kv_run_inv [OF inv1 len1]
  have "sorted (map ev_revision (snd (kv_step s op)))"
    by (rule sorted_const [where c = "kv_revision s + 1"]) (simp add: step)
  with Cons.IH [OF inv1 len1] show ?case
    using rev1 run1 step by (fastforce simp: split_beta sorted_append)
qed simp

text \<open>
  Event revisions are a faithful clock. In any run the emitted revisions never decrease,
  each is newer than the store before the run and not newer than the store after it. Dropping
  the events up to a snapshot's revision therefore drops exactly what the snapshot contains.
\<close>

lemma kv_event_revisions:
  assumes "kv_inv s" and "kv_revision s + int (length ops) \<le> i64_max"
  shows "sorted (map ev_revision (snd (kv_run s ops)))
       \<and> (\<forall>ev \<in> set (snd (kv_run s ops)).
            kv_revision s < ev_revision ev \<and> ev_revision ev \<le> kv_revision (fst (kv_run s ops)))"
  using assms by (rule kv_run_event_revisions)

lemma kv_event_revisions_witness:
  "sorted (map ev_revision (snd (kv_run kv_ex1 [OpPut ''b'' ''2'' 0 0 0 0, OpDelete ''a'' ''c'' 0])))
     \<and> list_all (\<lambda>ev. kv_revision kv_ex1 < ev_revision ev
          \<and> ev_revision ev \<le> kv_revision (fst (kv_run kv_ex1
              [OpPut ''b'' ''2'' 0 0 0 0, OpDelete ''a'' ''c'' 0])))
        (snd (kv_run kv_ex1 [OpPut ''b'' ''2'' 0 0 0 0, OpDelete ''a'' ''c'' 0]))"
  unfolding list_all_iff
  by (rule kv_event_revisions)
    (auto simp: kv_ex1_def kv_inv_def om_ok_def entry_ok_def i64_max_def)

section \<open>Range queries and compare-and-swap\<close>

lemma selectRange_set:
  assumes "kv_inv s"
  shows "set (selectRange key rangeEnd s) =
    {(k, e). map_of (kv_data s) k = Some e \<and> inScope key rangeEnd k}"
  using kv_invD(1) [OF assms]
  by (auto simp: inScope_def selectRange_def set_om_range om_set_iff split: option.splits)

lemma selectRange_sorted:
  assumes "kv_inv s"
  shows "sorted_wrt (<) (map fst (selectRange key rangeEnd s))"
  using kv_invD(1) [OF assms] om_ok_filter [of "kv_data s"]
  by (auto simp: selectRange_def om_range_filter om_ok_def split: option.splits)

text \<open>
  C10. A range query returns the current entry of exactly the keys in \<^verbatim>\<open>[key, rangeEnd)\<close> (or of
  the single key when \<^verbatim>\<open>rangeEnd\<close> is empty), each once and in ascending key order, together
  with the store's revision.
\<close>

theorem Range_exact:
  assumes "kv_inv s"
  shows "sorted_wrt (<) (map kve_key (fst (MemoryKvStore_Range key rangeEnd [] s)))
    \<and> set (fst (MemoryKvStore_Range key rangeEnd [] s)) =
        {toKeyValueEntry (k, e) | k e. map_of (kv_data s) k = Some e \<and> inScope key rangeEnd k}
    \<and> snd (MemoryKvStore_Range key rangeEnd [] s) = kv_revision s"
proof -
  have "map kve_key (map toKeyValueEntry ps) = map fst ps" for ps
    by (simp add: toKeyValueEntry_def)
  then show ?thesis
    using selectRange_sorted [OF assms] selectRange_set [OF assms]
    by (auto simp: MemoryKvStore_Range_def image_iff simp del: map_map)
qed

theorem Range_exact_witness:
  "sorted_wrt (<) (map kve_key (fst (MemoryKvStore_Range ''a'' ''b'' [] kv_ex1)))
    \<and> set (fst (MemoryKvStore_Range ''a'' ''b'' [] kv_ex1)) =
        {toKeyValueEntry (k, e) | k e. map_of (kv_data kv_ex1) k = Some e \<and> inScope ''a'' ''b'' k}
    \<and> snd (MemoryKvStore_Range ''a'' ''b'' [] kv_ex1) = kv_revision kv_ex1"
  by (rule Range_exact) (auto simp: kv_ex1_def kv_inv_def om_ok_def entry_ok_def i64_max_def)

fun keeps_keys :: "KvOp \<Rightarrow> bool" where
  "keeps_keys (OpPut _ _ _ _ _ _) = True"
| "keeps_keys (OpKeepAlive _ _) = True"
| "keeps_keys (OpDelete _ _ _) = False"
| "keeps_keys (OpExpire _ _ _) = False"

lemma Put_stored_version:
  "entry_ok r e \<Longrightarrow> r < i64_max \<Longrightarrow> ve_version (Put_stored (Some e) val ttl r') = ve_version e + 1"
  by (simp add: Put_stored_def wrap64_next entry_ok_def)

lemma kv_step_version:
  assumes inv: "kv_inv s" and r: "kv_revision s < i64_max" and k: "keeps_keys op"
    and e: "map_of (kv_data s) key = Some e"
  shows "\<exists>e'. map_of (kv_data (fst (kv_step s op))) key = Some e' \<and> ve_version e \<le> ve_version e'"
proof (cases op)
  case (OpPut k' v ttl ev em eg)
  have "ve_version e \<le> ve_version (Put_stored (Some e) v ttl r')" for r'
    by (simp add: Put_stored_version [OF kv_invD(4) [OF inv e] r])
  with OpPut e show ?thesis
    by (auto simp: store_simps split: sum.splits elim!: Put_cases)
next
  case (OpKeepAlive k' em)
  with e show ?thesis
    by (auto simp: store_simps split: sum.splits elim!: KeepAlive_cases)
qed (use k in simp_all)

lemma kv_run_version:
  assumes "kv_inv s" "kv_revision s + int (length ops) \<le> i64_max" "\<forall>op \<in> set ops. keeps_keys op"
    and "map_of (kv_data s) key = Some e"
  shows "\<exists>e'. map_of (kv_data (fst (kv_run s ops))) key = Some e' \<and> ve_version e \<le> ve_version e'"
  using assms
proof (induction ops arbitrary: s e)
  case (Cons op ops)
  from Cons.prems have lt: "kv_revision s < i64_max" by simp
  let ?s1 = "fst (kv_step s op)"
  obtain e1 where e1: "map_of (kv_data ?s1) key = Some e1" "ve_version e \<le> ve_version e1"
    using kv_step_version [OF Cons.prems(1) lt _ Cons.prems(4), of op] Cons.prems(3) by auto
  have "\<exists>e'. map_of (kv_data (fst (kv_run ?s1 ops))) key = Some e' \<and> ve_version e1 \<le> ve_version e'"
    by (rule Cons.IH) (use Cons.prems e1 kv_step_revision [OF Cons.prems(1) lt, of op]
        kv_step_inv [OF Cons.prems(1) lt] in auto)
  with e1 show ?case by (force simp: split_beta)
qed auto

text \<open>
  Compare-and-swap is exclusive. Once a \<^verbatim>\<open>Put\<close> with a version check
  (\<^verbatim>\<open>expectedVersion\<close> other than \<^verbatim>\<open>COORDINATOR_NO_VERSION_CHECK\<close>) has succeeded, any later \<^verbatim>\<open>Put\<close>
  of the key with the same expected version fails, whatever puts and keep-alives happen in
  between: of two writers that read the same version, at most one writes.
\<close>

lemma Put_cas_exclusive:
  assumes "kv_inv s" and "kv_revision s + 1 + int (length ops) \<le> i64_max"
    and "ev \<noteq> COORDINATOR_NO_VERSION_CHECK"
    and "MemoryKvStore_Put key val1 ttl1 ev em1 eg1 s = Inr (s1, res, evs)"
    and "\<forall>op \<in> set ops. keeps_keys op"
  shows "\<exists>code. MemoryKvStore_Put key val2 ttl2 ev em2 eg2 (fst (kv_run s1 ops)) = Inl code"
proof -
  from assms(2) have lt: "kv_revision s < i64_max" by simp
  have next_r: "wrap64 (kv_revision s + 1) = kv_revision s + 1"
    using assms(1) lt by (simp add: wrap64_next kv_invD)
  let ?it = "map_of (kv_data s) key"
  from assms(4) obtain stored where f: "Put_fences s ?it ev em1 eg1 = None"
    and st: "stored = Put_stored ?it val1 ttl1 (kv_revision s + 1)"
    and s1: "s1 = s\<lparr>kv_data := om_put key stored (kv_data s), kv_revision := kv_revision s + 1\<rparr>"
    by (rule Put_cases) (use next_r in auto)
  have gt: "ev < ve_version stored" if "ev \<noteq> 0"
  proof -
    from f assms(3) that obtain e where e: "?it = Some e" "ve_version e = ev"
      by (auto simp: Put_fences_def coordinator_consts split: option.splits if_splits)
    with st show ?thesis
      using Put_stored_version [OF kv_invD(4) [OF assms(1) e(1)] lt] by simp
  qed
  have "kv_inv s1" using kv_inv_Put [OF assms(1) lt assms(4)] .
  moreover have "kv_revision s1 + int (length ops) \<le> i64_max" using s1 assms(2) by simp
  moreover have "map_of (kv_data s1) key = Some stored" using s1 by (simp add: store_simps)
  ultimately obtain e' where e': "map_of (kv_data (fst (kv_run s1 ops))) key = Some e'"
    "ve_version stored \<le> ve_version e'"
    using kv_run_version assms(5) by blast
  have "Put_fences (fst (kv_run s1 ops)) (Some e') ev em2 eg2 \<noteq> None"
    using assms(3) gt e'(2) by (auto simp: Put_fences_def coordinator_consts)
  then show ?thesis
    using e'(1) by (auto simp: MemoryKvStore_Put_def Let_def)
qed

lemma Put_cas_exclusive_witness:
  "\<exists>code. MemoryKvStore_Put ''a'' ''x'' 0 1 0 0
     (fst (kv_run (fst (projr (MemoryKvStore_Put ''a'' ''y'' 0 1 0 0 kv_ex1))) [OpPut ''b'' ''2'' 0 0 0 0]))
   = Inl code"
  by (rule Put_cas_exclusive [of kv_ex1 _ 1 "''a''" "''y''" 0 0 0 _
        "fst (snd (projr (MemoryKvStore_Put ''a'' ''y'' 0 1 0 0 kv_ex1)))"
        "snd (snd (projr (MemoryKvStore_Put ''a'' ''y'' 0 1 0 0 kv_ex1)))"])
    (auto simp: kv_ex1_def kv_inv_def om_ok_def entry_ok_def i64_max_def kv_exec)

end
