(* ===== verification/Ttl_Manager.thy ===== *)
theory Ttl_Manager
  imports Prelude
begin

text \<open>
  The expiry schedule of the coordinator,
  \<^verbatim>\<open>src/datasystem/common/coordinator/ttl_manager.{h,cpp}\<close>.

  \<^verbatim>\<open>expiryMap_\<close> is a multimap from expiry times to schedule records and \<^verbatim>\<open>expiryIndex_\<close> maps a
  key to an iterator into it. An iterator is modelled by the identity of its node: every node
  of the multimap carries a number that is never reused, and the index holds node numbers.
  Dereferencing an iterator whose node is gone is undefined in C++; \<open>TtlManager_Schedule\<close>
  then has the value \<open>None\<close>, and the invariant excludes it. Times are counts of nanoseconds of the steady
  clock (signed 64-bit), TTLs are milliseconds.
\<close>

section \<open>Data\<close>

record TtlScheduleRecord =
  tr_key :: string
  tr_revision :: int
  tr_ttlGeneration :: "64 word"
  tr_expireTime :: int

type_synonym ExpiryMap = "(nat \<times> TtlScheduleRecord) list"

record TtlManager =
  expiryMap :: ExpiryMap
  expiryIndex :: "string \<Rightarrow> nat option"
  nextNode :: nat
  ttl_running :: bool

definition MAX_EXPIRED_KEYS_PER_CHECK :: nat where
  "MAX_EXPIRED_KEYS_PER_CHECK = 1024"

definition TtlManager_init :: TtlManager where
  "TtlManager_init = \<lparr>expiryMap = [], expiryIndex = Map.empty, nextNode = 0, ttl_running = False\<rparr>"

text \<open>\<^verbatim>\<open>std::multimap::emplace\<close>: after every node whose key is not greater.\<close>

abbreviation mm_emplace :: "nat \<times> TtlScheduleRecord \<Rightarrow> ExpiryMap \<Rightarrow> ExpiryMap" where
  "mm_emplace \<equiv> emplace_after (tr_expireTime \<circ> snd)"

section \<open>Operations\<close>

definition TtlManager_Start :: "TtlManager \<Rightarrow> TtlManager" where
  "TtlManager_Start m = (if ttl_running m then m else m\<lparr>ttl_running := True\<rparr>)"

definition TtlManager_Stop :: "TtlManager \<Rightarrow> TtlManager" where
  "TtlManager_Stop m = (if \<not> ttl_running m then m else m\<lparr>ttl_running := False\<rparr>)"

definition Schedule_expireTime :: "int \<Rightarrow> int \<Rightarrow> int" where
  "Schedule_expireTime now ttlMs = wrap64 (now + wrap64 (ttlMs * 1000000))"

text \<open>The common tail of \<^verbatim>\<open>Schedule\<close>: the new node, the index entry and the wake-up decision.\<close>

definition Schedule_insert :: "TtlScheduleRecord \<Rightarrow> TtlManager \<Rightarrow> TtlManager \<times> bool" where
  "Schedule_insert record m =
     (let needNotify = (case expiryMap m of [] \<Rightarrow> True
                        | p # _ \<Rightarrow> tr_expireTime record < tr_expireTime (snd p))
      in (m\<lparr>expiryMap := mm_emplace (nextNode m, record) (expiryMap m),
            expiryIndex := (expiryIndex m)(tr_key record \<mapsto> nextNode m),
            nextNode := Suc (nextNode m)\<rparr>, needNotify))"

definition TtlManager_Schedule ::
  "int \<Rightarrow> string \<Rightarrow> int \<Rightarrow> int \<Rightarrow> 64 word \<Rightarrow> TtlManager \<Rightarrow> (TtlManager \<times> bool) option" where
  "TtlManager_Schedule now key ttlMs revision ttlGeneration m =
     (if ttlMs \<le> 0 then Some (m, False)
      else
        let record = \<lparr>tr_key = key, tr_revision = revision, tr_ttlGeneration = ttlGeneration,
                      tr_expireTime = Schedule_expireTime now ttlMs\<rparr>
        in case expiryIndex m key of
             None \<Rightarrow> Some (Schedule_insert record m)
           | Some node \<Rightarrow>
               (case map_of (expiryMap m) node of
                  None \<Rightarrow> None
                | Some existing \<Rightarrow>
                    if revision < tr_revision existing
                       \<or> revision = tr_revision existing \<and> ttlGeneration < tr_ttlGeneration existing
                    then Some (m, False)
                    else Some (Schedule_insert record
                                 (m\<lparr>expiryMap := filter (\<lambda>p. fst p \<noteq> node) (expiryMap m)\<rparr>))))"

text \<open>
  The inner loop of \<^verbatim>\<open>CheckExpiration\<close> under the lock; the first argument is the number of
  records that may still be taken.
\<close>

fun collectExpired ::
  "nat \<Rightarrow> int \<Rightarrow> TtlManager \<Rightarrow> TtlManager \<times> (string \<times> int \<times> 64 word) list" where
  "collectExpired 0 now m = (m, [])"
| "collectExpired (Suc n) now m =
     (case expiryMap m of
        [] \<Rightarrow> (m, [])
      | (node, r) # rest \<Rightarrow>
          if tr_expireTime r \<le> now
          then (let m1 = m\<lparr>expiryMap := rest,
                           expiryIndex := (if expiryIndex m (tr_key r) = Some node
                                           then (expiryIndex m)(tr_key r := None)
                                           else expiryIndex m)\<rparr>;
                    (m2, expired) = collectExpired n now m1
                in (m2, (tr_key r, tr_revision r, tr_ttlGeneration r) # expired))
          else (m, []))"

text \<open>One pass of the expiration thread: the records handed to \<^verbatim>\<open>expireCallback_\<close>.\<close>

definition TtlManager_CheckExpiration ::
  "int \<Rightarrow> TtlManager \<Rightarrow> TtlManager \<times> (string \<times> int \<times> 64 word) list" where
  "TtlManager_CheckExpiration now m =
     (if \<not> ttl_running m then (m, []) else collectExpired MAX_EXPIRED_KEYS_PER_CHECK now m)"

section \<open>Invariant\<close>

definition ttl_inv :: "TtlManager \<Rightarrow> bool" where
  "ttl_inv m \<longleftrightarrow> sorted (map (tr_expireTime \<circ> snd) (expiryMap m))
     \<and> distinct (map fst (expiryMap m)) \<and> (\<forall>p \<in> set (expiryMap m). fst p < nextNode m)
     \<and> (\<forall>k n. expiryIndex m k = Some n \<longleftrightarrow> (\<exists>r. (n, r) \<in> set (expiryMap m) \<and> tr_key r = k))"

text \<open>The record scheduled for a key.\<close>

definition scheduled :: "TtlManager \<Rightarrow> string \<Rightarrow> TtlScheduleRecord option" where
  "scheduled m k = (case expiryIndex m k of None \<Rightarrow> None | Some n \<Rightarrow> map_of (expiryMap m) n)"

lemma ttl_invI:
  assumes "sorted (map (tr_expireTime \<circ> snd) (expiryMap m))" "distinct (map fst (expiryMap m))"
    and "\<And>p. p \<in> set (expiryMap m) \<Longrightarrow> fst p < nextNode m"
    and "\<And>k n. expiryIndex m k = Some n \<longleftrightarrow> (\<exists>r. (n, r) \<in> set (expiryMap m) \<and> tr_key r = k)"
  shows "ttl_inv m"
  unfolding ttl_inv_def using assms by blast

lemma ttl_invD:
  assumes "ttl_inv m"
  shows "sorted (map (tr_expireTime \<circ> snd) (expiryMap m))" "distinct (map fst (expiryMap m))"
    and "p \<in> set (expiryMap m) \<Longrightarrow> fst p < nextNode m"
    and "expiryIndex m k = Some n \<longleftrightarrow> (\<exists>r. (n, r) \<in> set (expiryMap m) \<and> tr_key r = k)"
  using assms unfolding ttl_inv_def by blast+

lemma ttl_inv_init: "ttl_inv TtlManager_init"
  by (simp add: ttl_inv_def TtlManager_init_def)

lemma scheduled_init [simp]: "scheduled TtlManager_init k = None"
  by (simp add: scheduled_def TtlManager_init_def)

lemma ttl_inv_running [simp]: "ttl_inv (m\<lparr>ttl_running := b\<rparr>) = ttl_inv m"
  by (simp add: ttl_inv_def)

lemma scheduled_iff:
  assumes "ttl_inv m"
  shows "scheduled m k = Some r \<longleftrightarrow> (\<exists>n. (n, r) \<in> set (expiryMap m) \<and> tr_key r = k)"
proof
  assume "scheduled m k = Some r"
  then obtain n where n: "expiryIndex m k = Some n" "map_of (expiryMap m) n = Some r"
    by (auto simp: scheduled_def split: option.splits)
  from n(2) have r: "(n, r) \<in> set (expiryMap m)" by (rule map_of_SomeD)
  from n(1) obtain r' where "(n, r') \<in> set (expiryMap m)" "tr_key r' = k"
    using ttl_invD(4) [OF assms] by blast
  with r ttl_invD(2) [OF assms] show "\<exists>n. (n, r) \<in> set (expiryMap m) \<and> tr_key r = k"
    by (metis eq_key_imp_eq_value)
next
  assume "\<exists>n. (n, r) \<in> set (expiryMap m) \<and> tr_key r = k"
  then obtain n where n: "(n, r) \<in> set (expiryMap m)" "tr_key r = k" by blast
  then have "expiryIndex m k = Some n" using ttl_invD(4) [OF assms] by blast
  with n(1) ttl_invD(2) [OF assms] show "scheduled m k = Some r"
    by (simp add: scheduled_def)
qed


lemma map_of_filter_other: "n' \<noteq> n \<Longrightarrow> map_of (filter (\<lambda>p. fst p \<noteq> n) m) n' = map_of m n'"
  by (induction m) auto

lemma ttl_inv_insert:
  assumes inv: "ttl_inv m" and free: "expiryIndex m (tr_key r) = None"
  shows "ttl_inv (fst (Schedule_insert r m))"
    and "scheduled (fst (Schedule_insert r m)) = (scheduled m)(tr_key r \<mapsto> r)"
proof -
  let ?m' = "fst (Schedule_insert r m)"
  have map: "expiryMap ?m' = mm_emplace (nextNode m, r) (expiryMap m)"
    and idx: "expiryIndex ?m' = (expiryIndex m)(tr_key r \<mapsto> nextNode m)"
    and nxt: "nextNode ?m' = Suc (nextNode m)"
    by (simp_all add: Schedule_insert_def Let_def)
  have fresh: "nextNode m \<notin> fst ` set (expiryMap m)"
    using ttl_invD(3) [OF inv] by (metis imageE less_irrefl)
  have nokey: "tr_key r' \<noteq> tr_key r" if "(n, r') \<in> set (expiryMap m)" for n r'
    using that free ttl_invD(4) [OF inv, of "tr_key r" n] by auto
  show inv': "ttl_inv ?m'"
  proof (rule ttl_invI)
    fix k n
    show "expiryIndex ?m' k = Some n \<longleftrightarrow> (\<exists>r'. (n, r') \<in> set (expiryMap ?m') \<and> tr_key r' = k)"
    proof (cases "k = tr_key r")
      case True
      with nokey show ?thesis by (auto simp: map idx)
    next
      case False
      with ttl_invD(4) [OF inv, of k n] show ?thesis by (auto simp: map idx)
    qed
  next
    fix p
    show "p \<in> set (expiryMap ?m') \<Longrightarrow> fst p < nextNode ?m'"
      using ttl_invD(3) [OF inv, of p] by (auto simp: map nxt)
  qed (use ttl_invD(1,2) [OF inv] fresh in \<open>simp_all add: map sorted_emplace_after distinct_emplace_after\<close>)
  show "scheduled ?m' = (scheduled m)(tr_key r \<mapsto> r)"
  proof (rule ext)
    fix k
    show "scheduled ?m' k = ((scheduled m)(tr_key r \<mapsto> r)) k"
      using fresh ttl_invD(4) [OF inv, of k "nextNode m"]
      by (auto simp: scheduled_def map idx map_of_emplace_after image_iff split: option.splits)
  qed
qed

abbreviation without_node :: "string \<Rightarrow> nat \<Rightarrow> TtlManager \<Rightarrow> TtlManager" where
  "without_node k n m \<equiv> m\<lparr>expiryMap := filter (\<lambda>p. fst p \<noteq> n) (expiryMap m),
                           expiryIndex := (expiryIndex m)(k := None)\<rparr>"

lemma ttl_inv_unschedule:
  assumes inv: "ttl_inv m" and n: "expiryIndex m k = Some n"
  shows "ttl_inv (without_node k n m)" and "scheduled (without_node k n m) = (scheduled m)(k := None)"
proof -
  let ?m' = "without_node k n m"
  have only: "k' = k" if "expiryIndex m k' = Some n" for k'
    using that n ttl_invD(2,4) [OF inv] by (metis eq_key_imp_eq_value)
  have sorted: "sorted (map (tr_expireTime \<circ> snd) (filter P (expiryMap m)))" for P
    using ttl_invD(1) [OF inv] by (rule sorted_filter)
  show "ttl_inv ?m'"
  proof (rule ttl_invI)
    fix k' n'
    show "expiryIndex ?m' k' = Some n' \<longleftrightarrow> (\<exists>r. (n', r) \<in> set (expiryMap ?m') \<and> tr_key r = k')"
    proof (cases "k' = k")
      case True
      have "n' = n" if "(n', r) \<in> set (expiryMap m)" "tr_key r = k" for r
        using that n ttl_invD(4) [OF inv, of k n'] by (metis option.inject)
      with True show ?thesis by auto
    next
      case False
      with only [of k'] have "n' \<noteq> n" if "expiryIndex m k' = Some n'"
        using that by blast
      with False ttl_invD(4) [OF inv, of k' n'] show ?thesis by auto
    qed
  next
    fix p
    show "p \<in> set (expiryMap ?m') \<Longrightarrow> fst p < nextNode ?m'"
      using ttl_invD(3) [OF inv, of p] by simp
  qed (use ttl_invD(2) [OF inv] sorted in \<open>simp_all add: distinct_map_filter\<close>)
  show "scheduled ?m' = (scheduled m)(k := None)"
  proof (rule ext)
    fix k'
    have "map_of (filter (\<lambda>p. fst p \<noteq> n) (expiryMap m)) n' = map_of (expiryMap m) n'" if "n' \<noteq> n" for n'
      using that by (rule map_of_filter_other)
    then show "scheduled ?m' k' = ((scheduled m)(k := None)) k'"
      using only [of k'] by (cases "expiryIndex m k'") (auto simp: scheduled_def)
  qed
qed

lemma Schedule_insert_stale:
  "Schedule_insert r (m\<lparr>expiryMap := X\<rparr>)
     = Schedule_insert r (m\<lparr>expiryMap := X, expiryIndex := (expiryIndex m)(tr_key r := None)\<rparr>)"
  by (simp add: Schedule_insert_def Let_def)

definition newer_scheduled :: "TtlManager \<Rightarrow> string \<Rightarrow> int \<Rightarrow> 64 word \<Rightarrow> bool" where
  "newer_scheduled m key revision ttlGeneration \<longleftrightarrow>
     (case scheduled m key of None \<Rightarrow> False
      | Some r \<Rightarrow> revision < tr_revision r \<or> revision = tr_revision r \<and> ttlGeneration < tr_ttlGeneration r)"

lemma Schedule_spec:
  assumes "ttl_inv m"
  shows "\<exists>m' needNotify. TtlManager_Schedule now key ttlMs revision gen m = Some (m', needNotify)
     \<and> ttl_inv m'
     \<and> scheduled m' =
         (if ttlMs \<le> 0 \<or> newer_scheduled m key revision gen then scheduled m
          else (scheduled m)(key \<mapsto> \<lparr>tr_key = key, tr_revision = revision, tr_ttlGeneration = gen,
                                   tr_expireTime = Schedule_expireTime now ttlMs\<rparr>))"
proof (cases "ttlMs \<le> 0")
  case True
  with assms show ?thesis by (intro exI [of _ m] exI [of _ False]) (simp add: TtlManager_Schedule_def)
next
  case False
  let ?r = "\<lparr>tr_key = key, tr_revision = revision, tr_ttlGeneration = gen,
             tr_expireTime = Schedule_expireTime now ttlMs\<rparr>"
  show ?thesis
  proof (cases "expiryIndex m key")
    case None
    then have "\<not> newer_scheduled m key revision gen"
      by (simp add: newer_scheduled_def scheduled_def)
    with None False ttl_inv_insert [OF assms, of ?r] show ?thesis
      by (cases "Schedule_insert ?r m") (auto simp: TtlManager_Schedule_def)
  next
    case (Some n)
    then obtain r where r: "map_of (expiryMap m) n = Some r"
      using ttl_invD(2,4) [OF assms] by (metis map_of_eq_Some_iff)
    with Some have sched: "scheduled m key = Some r" by (simp add: scheduled_def)
    let ?m0 = "without_node key n m"
    have "ttl_inv ?m0" "scheduled ?m0 = (scheduled m)(key := None)"
      using ttl_inv_unschedule [OF assms Some] by auto
    with ttl_inv_insert [of ?m0 ?r] have
      "ttl_inv (fst (Schedule_insert ?r ?m0))"
      "scheduled (fst (Schedule_insert ?r ?m0)) = (scheduled m)(key \<mapsto> ?r)"
      by simp_all
    with Some r sched False assms show ?thesis
      using Schedule_insert_stale [of ?r _ m]
      by (cases "Schedule_insert ?r ?m0") (auto simp: TtlManager_Schedule_def newer_scheduled_def)
  qed
qed


text \<open>A sequence of \<^verbatim>\<open>Schedule\<close> calls: the clock reading and the four arguments of each.\<close>

type_synonym ScheduleCall = "int \<times> string \<times> int \<times> int \<times> 64 word"

fun Schedule_all :: "ScheduleCall list \<Rightarrow> TtlManager \<Rightarrow> TtlManager option" where
  "Schedule_all [] m = Some m"
| "Schedule_all ((now, key, ttlMs, revision, gen) # cs) m =
     (case TtlManager_Schedule now key ttlMs revision gen m of
        None \<Rightarrow> None
      | Some (m', _) \<Rightarrow> Schedule_all cs m')"

definition lease_record :: "ScheduleCall \<Rightarrow> TtlScheduleRecord" where
  "lease_record c = (case c of (now, key, ttlMs, revision, gen) \<Rightarrow>
     \<lparr>tr_key = key, tr_revision = revision, tr_ttlGeneration = gen,
      tr_expireTime = Schedule_expireTime now ttlMs\<rparr>)"

definition record_le :: "TtlScheduleRecord \<Rightarrow> TtlScheduleRecord \<Rightarrow> bool" where
  "record_le a b \<longleftrightarrow> tr_revision a < tr_revision b
     \<or> tr_revision a = tr_revision b \<and> tr_ttlGeneration a \<le> tr_ttlGeneration b"

text \<open>The records the calls offer for a key.\<close>

definition offered :: "ScheduleCall list \<Rightarrow> string \<Rightarrow> TtlScheduleRecord set" where
  "offered cs k = lease_record ` set (filter (\<lambda>c. fst (snd c) = k \<and> 0 < fst (snd (snd c))) cs)"

definition newest_of :: "TtlScheduleRecord option \<Rightarrow> TtlScheduleRecord set \<Rightarrow> bool" where
  "newest_of res S = (case res of None \<Rightarrow> S = {} | Some r \<Rightarrow> r \<in> S \<and> (\<forall>x \<in> S. record_le x r))"

lemma offered_snoc:
  "offered (cs @ [c]) k = (if fst (snd c) = k \<and> 0 < fst (snd (snd c)) then insert (lease_record c) (offered cs k)
                           else offered cs k)"
  by (auto simp: offered_def)

lemma record_le_trans: "record_le a b \<Longrightarrow> record_le b c \<Longrightarrow> record_le a c"
  by (auto simp: record_le_def)

lemma record_le_total: "record_le a b \<or> record_le b a"
  by (auto simp: record_le_def)

lemma newer_scheduled_iff:
  "newer_scheduled m k rv g \<longleftrightarrow> (\<exists>r. scheduled m k = Some r \<and> \<not> record_le r (lease_record (now, k, ttl, rv, g)))"
  by (auto simp: newer_scheduled_def record_le_def lease_record_def not_less split: option.splits)

lemma newest_of_insert:
  assumes "newest_of old S"
  shows "newest_of (if \<exists>r. old = Some r \<and> \<not> record_le r x then old else Some x) (insert x S)"
proof (cases old)
  case None
  with assms show ?thesis using record_le_total [of x x] by (simp add: newest_of_def)
next
  case (Some r)
  with assms show ?thesis using record_le_total [of x r] record_le_total [of x x] record_le_trans [of _ r x]
    by (auto simp: newest_of_def)
qed

lemma Schedule_all_inv: "ttl_inv m \<Longrightarrow> \<exists>m'. Schedule_all cs m = Some m' \<and> ttl_inv m'"
proof (induction cs m rule: Schedule_all.induct)
  case (2 now key ttlMs revision gen cs m)
  then show ?case using Schedule_spec [of m now key ttlMs revision gen] by force
qed simp

lemma Schedule_all_append:
  "Schedule_all (cs @ ds) m = Option.bind (Schedule_all cs m) (Schedule_all ds)"
  by (induction cs m rule: Schedule_all.induct) (auto split: option.splits)

text \<open>
  C21. Scheduling never fails and the newest lease wins, whatever the order of the calls. Any
  sequence of \<^verbatim>\<open>Schedule\<close> calls runs without dereferencing a dangling iterator and leaves a
  well-formed schedule in which each key has one of the records the calls offered for it, and
  the one with the greatest (revision, generation); a key has no record only if no call with a
  positive TTL named it. Since the calls are made outside the lock of the store, they do arrive
  out of order.
\<close>

theorem Schedule_newest_wins:
  "\<exists>m. Schedule_all cs TtlManager_init = Some m \<and> ttl_inv m
     \<and> (\<forall>k. newest_of (scheduled m k) (offered cs k))"
proof (induction cs rule: rev_induct)
  case Nil
  then show ?case
    by (simp add: ttl_inv_init newest_of_def scheduled_init offered_def)
next
  case (snoc c cs)
  then obtain m where m: "Schedule_all cs TtlManager_init = Some m" "ttl_inv m"
    and newest: "\<And>k. newest_of (scheduled m k) (offered cs k)" by blast
  obtain now key ttlMs rv g where c: "c = (now, key, ttlMs, rv, g)" by (cases c)
  obtain m' b where m': "TtlManager_Schedule now key ttlMs rv g m = Some (m', b)" "ttl_inv m'"
    and sched: "scheduled m' = (if ttlMs \<le> 0 \<or> newer_scheduled m key rv g then scheduled m
                                else (scheduled m)(key \<mapsto> lease_record c))"
    using Schedule_spec [OF m(2), of now key ttlMs rv g] by (auto simp: lease_record_def c)
  have "newest_of (scheduled m' k) (offered (cs @ [c]) k)" for k
    using newest [of k] newest_of_insert [OF newest [of k], of "lease_record (now, key, ttlMs, rv, g)"]
    by (auto simp: offered_snoc sched c newer_scheduled_iff [of _ _ _ _ now ttlMs] split: if_splits)
  with m m' show ?case by (auto simp: Schedule_all_append c)
qed

section \<open>Expiration\<close>

abbreviation due :: "int \<Rightarrow> nat \<times> TtlScheduleRecord \<Rightarrow> bool" where
  "due now p \<equiv> tr_expireTime (snd p) \<le> now"

definition expired_entry :: "nat \<times> TtlScheduleRecord \<Rightarrow> string \<times> int \<times> 64 word" where
  "expired_entry p = (tr_key (snd p), tr_revision (snd p), tr_ttlGeneration (snd p))"

lemma ttl_inv_pop:
  assumes "ttl_inv m" "expiryMap m = (n, r) # rest"
  shows "expiryIndex m (tr_key r) = Some n"
    and "without_node (tr_key r) n m = m\<lparr>expiryMap := rest, expiryIndex := (expiryIndex m)(tr_key r := None)\<rparr>"
proof -
  show "expiryIndex m (tr_key r) = Some n"
    using ttl_invD(4) [OF assms(1), of "tr_key r" n] assms(2) by auto
  have "filter (\<lambda>p. fst p \<noteq> n) (expiryMap m) = rest"
    using ttl_invD(2) [OF assms(1)] assms(2) by (auto intro!: filter_True)
  then show "without_node (tr_key r) n m = m\<lparr>expiryMap := rest, expiryIndex := (expiryIndex m)(tr_key r := None)\<rparr>"
    by simp
qed

lemma collectExpired_take:
  assumes "ttl_inv m" "collectExpired n now m = (m', es)"
  shows "ttl_inv m' \<and> expiryMap m = take n (takeWhile (due now) (expiryMap m)) @ expiryMap m'
     \<and> es = map expired_entry (take n (takeWhile (due now) (expiryMap m)))"
  using assms
proof (induction n now m arbitrary: m' es rule: collectExpired.induct)
  case (2 n now m)
  show ?case
  proof (cases "expiryMap m")
    case (Cons p rest)
    then obtain i r where p: "expiryMap m = (i, r) # rest" by (cases p) auto
    show ?thesis
    proof (cases "tr_expireTime r \<le> now")
      case True
      let ?m1 = "m\<lparr>expiryMap := rest, expiryIndex := (expiryIndex m)(tr_key r := None)\<rparr>"
      have idx: "expiryIndex m (tr_key r) = Some i" and "ttl_inv ?m1"
        using ttl_inv_pop [OF "2.prems"(1) p] ttl_inv_unschedule(1) [OF "2.prems"(1)] by metis+
      moreover obtain m2 es2 where rest: "collectExpired n now ?m1 = (m2, es2)" by fastforce
      ultimately have "ttl_inv m2 \<and> rest = take n (takeWhile (due now) rest) @ expiryMap m2
          \<and> es2 = map expired_entry (take n (takeWhile (due now) rest))"
        using "2.IH" [OF p refl True] by simp
      with rest idx True "2.prems"(2) p show ?thesis by (auto simp: Let_def expired_entry_def)
    qed (use "2.prems" p in simp)
  qed (use "2.prems" in simp)
qed simp


lemma takeWhile_sorted_filter:
  "sorted (map f xs) \<Longrightarrow> takeWhile (\<lambda>x. f x \<le> (c :: int)) xs = filter (\<lambda>x. f x \<le> c) xs"
  by (induction xs) (auto intro!: filter_False [symmetric] dest: order.trans)

lemma due_prefix:
  "ttl_inv m \<Longrightarrow> takeWhile (due now) (expiryMap m) = filter (due now) (expiryMap m)"
  using takeWhile_sorted_filter [of "tr_expireTime \<circ> snd" "expiryMap m" now]
  by (simp add: ttl_invD)

lemma CheckExpiration_cases:
  assumes "ttl_inv m" "ttl_running m" "TtlManager_CheckExpiration now m = (m', es)"
  shows "ttl_inv m'"
    and "expiryMap m = take MAX_EXPIRED_KEYS_PER_CHECK (filter (due now) (expiryMap m)) @ expiryMap m'"
    and "es = map expired_entry (take MAX_EXPIRED_KEYS_PER_CHECK (filter (due now) (expiryMap m)))"
  using collectExpired_take [of m MAX_EXPIRED_KEYS_PER_CHECK now m' es] assms
  by (simp_all add: TtlManager_CheckExpiration_def due_prefix)

text \<open>
  One expiration pass hands over exactly the due records. From a well-formed schedule the
  pass of a running manager passes to the callback, in the order of their expiry times, the
  due records, at most 1024 of them; it removes exactly these, keeps the schedule well formed,
  and leaves no due record behind when fewer than 1024 were handed over.
\<close>

lemma CheckExpiration_exact:
  assumes "ttl_inv m" "ttl_running m" "TtlManager_CheckExpiration now m = (m', es)"
  shows "ttl_inv m' \<and> es = map expired_entry (take 1024 (filter (due now) (expiryMap m)))
     \<and> expiryMap m = take 1024 (filter (due now) (expiryMap m)) @ expiryMap m'
     \<and> (length es < 1024 \<longrightarrow> filter (due now) (expiryMap m') = [])"
proof -
  note c = CheckExpiration_cases [OF assms, unfolded MAX_EXPIRED_KEYS_PER_CHECK_def]
  have "filter (due now) (expiryMap m') = []" if "length es < 1024"
  proof -
    let ?d = "filter (due now) (expiryMap m)"
    have "take 1024 ?d = ?d" using that c(3) by simp
    with c(2) have "filter (due now) (?d @ expiryMap m') = ?d" by simp
    then show ?thesis by simp
  qed
  with c show ?thesis by blast
qed

lemma CheckExpiration_exact_witness:
  "let m = TtlManager_Start (the (Schedule_all [(0, ''a'', 5, 1, 1), (0, ''b'', 2, 2, 1)] TtlManager_init))
   in TtlManager_CheckExpiration 3000000 m = (fst (TtlManager_CheckExpiration 3000000 m), [(''b'', 2, 1)])
      \<and> ttl_inv (fst (TtlManager_CheckExpiration 3000000 m))"
proof -
  let ?m = "TtlManager_Start (the (Schedule_all [(0, ''a'', 5, 1, 1), (0, ''b'', 2, 2, 1)] TtlManager_init))"
  have m: "?m = \<lparr>expiryMap = [(1, \<lparr>tr_key = ''b'', tr_revision = 2, tr_ttlGeneration = 1, tr_expireTime = 2000000\<rparr>),
                             (0, \<lparr>tr_key = ''a'', tr_revision = 1, tr_ttlGeneration = 1, tr_expireTime = 5000000\<rparr>)],
                expiryIndex = [''a'' \<mapsto> 0, ''b'' \<mapsto> 1], nextNode = 2, ttl_running = True\<rparr>"
    by (simp add: TtlManager_Start_def TtlManager_Schedule_def Schedule_insert_def TtlManager_init_def Let_def
        Schedule_expireTime_def i64_max_def)
  have "ttl_inv ?m"
    using Schedule_all_inv [OF ttl_inv_init] by (metis TtlManager_Start_def option.sel ttl_inv_running)
  moreover have "ttl_running ?m" unfolding m by simp
  ultimately have "ttl_inv (fst (TtlManager_CheckExpiration 3000000 ?m))"
    and "snd (TtlManager_CheckExpiration 3000000 ?m) = map expired_entry (take 1024 (filter (due 3000000) (expiryMap ?m)))"
    using CheckExpiration_exact [OF _ _ prod.collapse [symmetric], of ?m 3000000] by simp_all
  then show ?thesis unfolding Let_def prod_eq_iff fst_conv snd_conv unfolding m by (simp add: expired_entry_def)
qed

end
