(* ===== verification/Watch_Registry.thy ===== *)
theory Watch_Registry
  imports Prelude
begin

text \<open>
  The watch registry, \<^verbatim>\<open>src/datasystem/common/coordinator/watch_registry.{h,cpp}\<close>: the watches
  of the coordinator's clients, with an index of the watches on a single key and one group per
  watched range.

  The hash maps are maps. A hash set of watch ids is a list without duplicates (its iteration
  order is unspecified in C++, and no statement below depends on it). The entries are shared
  with their readers in C++; here the registry holds their values.
\<close>

section \<open>Data\<close>

record WatcherEntry =
  we_watchId :: int
  we_watcherAddr :: string
  we_registrationId :: string
  we_active :: bool

record WatchRange =
  wr_key :: string
  wr_rangeEnd :: string
  wr_watchIds :: "int list"

record WatchRegistry =
  watchers :: "int \<Rightarrow> WatcherEntry option"
  watchIdsByRegistrationId :: "string \<Rightarrow> int option"
  watchScopesById :: "int \<Rightarrow> (string \<times> string) option"
  exactWatchIdsByKey :: "string \<Rightarrow> int list option"
  rangeWatches :: "WatchRange list"
  nextWatchId :: int

definition WatchRegistry_init :: WatchRegistry where
  "WatchRegistry_init = \<lparr>watchers = Map.empty, watchIdsByRegistrationId = Map.empty,
     watchScopesById = Map.empty, exactWatchIdsByKey = Map.empty, rangeWatches = [], nextWatchId = 1\<rparr>"

section \<open>Operations\<close>

definition IsSameRange :: "WatchRange \<Rightarrow> string \<Rightarrow> string \<Rightarrow> bool" where
  "IsSameRange watchRange key rangeEnd \<longleftrightarrow> wr_key watchRange = key \<and> wr_rangeEnd watchRange = rangeEnd"

definition IsKeyInRange :: "string \<Rightarrow> WatchRange \<Rightarrow> bool" where
  "IsKeyInRange key watchRange \<longleftrightarrow> wr_key watchRange \<le> key \<and> key < wr_rangeEnd watchRange"

definition IsInTableScope :: "string \<Rightarrow> string \<Rightarrow> bool" where
  "IsInTableScope key table \<longleftrightarrow> key = table
     \<or> (length table < length key \<and> take (length table) key = table \<and> key ! length table = CHR ''/'')"

text \<open>The search for the group of a range and the insertion into it, or the appended group.\<close>

fun groupInsert :: "string \<Rightarrow> string \<Rightarrow> int \<Rightarrow> WatchRange list \<Rightarrow> WatchRange list" where
  "groupInsert key rangeEnd w [] = [\<lparr>wr_key = key, wr_rangeEnd = rangeEnd, wr_watchIds = [w]\<rparr>]"
| "groupInsert key rangeEnd w (g # gs) =
     (if IsSameRange g key rangeEnd then g\<lparr>wr_watchIds := List.insert w (wr_watchIds g)\<rparr> # gs
      else g # groupInsert key rangeEnd w gs)"

text \<open>The part of \<^verbatim>\<open>Register\<close> that creates an entry.\<close>

definition Register_create ::
  "string \<Rightarrow> string \<Rightarrow> string \<Rightarrow> string \<Rightarrow> WatchRegistry \<Rightarrow> WatchRegistry \<times> int \<times> bool" where
  "Register_create key rangeEnd watcherAddr registrationId r =
     (let watchId = nextWatchId r;
          entry = \<lparr>we_watchId = watchId, we_watcherAddr = watcherAddr,
                   we_registrationId = registrationId, we_active = True\<rparr>;
          r1 = r\<lparr>nextWatchId := wrap64 (watchId + 1),
                 watchers := (watchers r)(watchId \<mapsto> entry),
                 watchIdsByRegistrationId := (if registrationId \<noteq> []
                     then (watchIdsByRegistrationId r)(registrationId \<mapsto> watchId)
                     else watchIdsByRegistrationId r),
                 watchScopesById := (watchScopesById r)(watchId \<mapsto> (key, rangeEnd))\<rparr>
      in if rangeEnd = []
         then (r1\<lparr>exactWatchIdsByKey := (exactWatchIdsByKey r)(key \<mapsto>
                  List.insert watchId (case exactWatchIdsByKey r key of None \<Rightarrow> [] | Some ids \<Rightarrow> ids))\<rparr>,
               watchId, True)
         else (r1\<lparr>rangeWatches := groupInsert key rangeEnd watchId (rangeWatches r)\<rparr>, watchId, True))"

definition WatchRegistry_Register ::
  "string \<Rightarrow> string \<Rightarrow> string \<Rightarrow> string \<Rightarrow> WatchRegistry \<Rightarrow> (WatchRegistry \<times> int \<times> bool) result" where
  "WatchRegistry_Register key rangeEnd watcherAddr registrationId r =
     (case (if registrationId \<noteq> [] then watchIdsByRegistrationId r registrationId else None) of
        None \<Rightarrow> Inr (Register_create key rangeEnd watcherAddr registrationId r)
      | Some registered \<Rightarrow>
          (case watchers r registered of
             None \<Rightarrow> Inl K_INVALID
           | Some watcher \<Rightarrow>
               if we_watcherAddr watcher \<noteq> watcherAddr then Inl K_INVALID
               else if watchScopesById r registered \<noteq> Some (key, rangeEnd) then Inl K_INVALID
               else Inr (r, registered, False)))"

text \<open>The loop of \<^verbatim>\<open>Cancel\<close> over the groups: the id leaves every group, empty groups are erased.\<close>

fun groupErase :: "int \<Rightarrow> WatchRange list \<Rightarrow> WatchRange list" where
  "groupErase w [] = []"
| "groupErase w (g # gs) =
     (let ids = remove1 w (wr_watchIds g)
      in if ids = [] then groupErase w gs else g\<lparr>wr_watchIds := ids\<rparr> # groupErase w gs)"

definition WatchRegistry_Cancel :: "int \<Rightarrow> string \<Rightarrow> WatchRegistry \<Rightarrow> WatchRegistry result" where
  "WatchRegistry_Cancel watchId watcherAddr r =
     (case watchers r watchId of
        None \<Rightarrow> Inl K_NOT_FOUND
      | Some entry \<Rightarrow>
          if watcherAddr \<noteq> [] \<and> we_watcherAddr entry \<noteq> watcherAddr then Inl K_INVALID
          else
            let regIds = (if we_registrationId entry \<noteq> []
                  then (watchIdsByRegistrationId r)(we_registrationId entry := None)
                  else watchIdsByRegistrationId r);
                r1 = (case watchScopesById r watchId of
                        Some (key, []) \<Rightarrow>
                          (case exactWatchIdsByKey r key of
                             None \<Rightarrow> r
                           | Some ids \<Rightarrow>
                               let ids' = remove1 watchId ids
                               in r\<lparr>exactWatchIdsByKey :=
                                     (exactWatchIdsByKey r)(key := (if ids' = [] then None else Some ids'))\<rparr>)
                      | _ \<Rightarrow> r\<lparr>rangeWatches := groupErase watchId (rangeWatches r)\<rparr>)
            in Inr (r1\<lparr>watchIdsByRegistrationId := regIds,
                       watchScopesById := (watchScopesById r)(watchId := None),
                       watchers := (watchers r)(watchId := None)\<rparr>))"

text \<open>The active entries among some ids, as both loops of \<^verbatim>\<open>MatchWatchers\<close> push them.\<close>

definition activeEntries :: "WatchRegistry \<Rightarrow> int list \<Rightarrow> WatcherEntry list" where
  "activeEntries r ids = filter we_active (List.map_filter (watchers r) ids)"

definition WatchRegistry_MatchWatchers :: "string \<Rightarrow> WatchRegistry \<Rightarrow> WatcherEntry list" where
  "WatchRegistry_MatchWatchers key r =
     (case exactWatchIdsByKey r key of None \<Rightarrow> [] | Some ids \<Rightarrow> activeEntries r ids)
     @ concat (map (\<lambda>g. activeEntries r (wr_watchIds g)) (filter (IsKeyInRange key) (rangeWatches r)))"

definition WatchRegistry_IsWatchInScopes :: "int \<Rightarrow> string list \<Rightarrow> WatchRegistry \<Rightarrow> bool" where
  "WatchRegistry_IsWatchInScopes watchId tableScopes r =
     (case watchScopesById r watchId of
        None \<Rightarrow> False
      | Some scope \<Rightarrow> list_ex (IsInTableScope (fst scope)) tableScopes)"

datatype RegistryOp = OpRegister string string string string | OpCancel int string

fun registry_step :: "WatchRegistry \<Rightarrow> RegistryOp \<Rightarrow> WatchRegistry" where
  "registry_step r (OpRegister key rangeEnd addr rid) =
     (case WatchRegistry_Register key rangeEnd addr rid r of Inl _ \<Rightarrow> r | Inr (r', _, _) \<Rightarrow> r')"
| "registry_step r (OpCancel w addr) =
     (case WatchRegistry_Cancel w addr r of Inl _ \<Rightarrow> r | Inr r' \<Rightarrow> r')"

abbreviation registry_run :: "WatchRegistry \<Rightarrow> RegistryOp list \<Rightarrow> WatchRegistry" where
  "registry_run r ops \<equiv> foldl registry_step r ops"

section \<open>The registry invariant\<close>

definition exactIds :: "WatchRegistry \<Rightarrow> string \<Rightarrow> int list" where
  "exactIds r k = (case exactWatchIdsByKey r k of None \<Rightarrow> [] | Some ids \<Rightarrow> ids)"

text \<open>The ids whose scope is exactly \<open>(k, e)\<close>.\<close>

definition scopeIds :: "WatchRegistry \<Rightarrow> string \<times> string \<Rightarrow> int set" where
  "scopeIds r sc = {w. watchScopesById r w = Some sc}"

definition ids_ok :: "WatchRegistry \<Rightarrow> bool" where
  "ids_ok r \<longleftrightarrow> 1 \<le> nextWatchId r \<and> dom (watchScopesById r) = dom (watchers r)
     \<and> (\<forall>w e. watchers r w = Some e \<longrightarrow> we_watchId e = w \<and> we_active e \<and> w < nextWatchId r)
     \<and> (\<forall>rid w. watchIdsByRegistrationId r rid = Some w \<longleftrightarrow>
          rid \<noteq> [] \<and> (\<exists>e. watchers r w = Some e \<and> we_registrationId e = rid))"

definition exact_ok :: "WatchRegistry \<Rightarrow> bool" where
  "exact_ok r \<longleftrightarrow> (\<forall>k. exactWatchIdsByKey r k \<noteq> Some [] \<and> distinct (exactIds r k)
     \<and> set (exactIds r k) = scopeIds r (k, []))"

definition scope_of :: "WatchRange \<Rightarrow> string \<times> string" where
  "scope_of g = (wr_key g, wr_rangeEnd g)"

definition groups_ok :: "WatchRegistry \<Rightarrow> bool" where
  "groups_ok r \<longleftrightarrow> distinct (map scope_of (rangeWatches r))
     \<and> (\<forall>g \<in> set (rangeWatches r). wr_rangeEnd g \<noteq> [] \<and> wr_watchIds g \<noteq> [] \<and> distinct (wr_watchIds g)
          \<and> set (wr_watchIds g) = scopeIds r (scope_of g))
     \<and> (\<forall>sc. snd sc \<noteq> [] \<longrightarrow> scopeIds r sc \<noteq> {} \<longrightarrow> sc \<in> scope_of ` set (rangeWatches r))"

definition registry_inv :: "WatchRegistry \<Rightarrow> bool" where
  "registry_inv r \<longleftrightarrow> ids_ok r \<and> exact_ok r \<and> groups_ok r"

lemma registry_inv_init: "registry_inv WatchRegistry_init"
  by (simp add: registry_inv_def ids_ok_def exact_ok_def groups_ok_def exactIds_def scopeIds_def
      WatchRegistry_init_def)


lemma insert_not_Nil [simp]: "List.insert w xs \<noteq> []"
  by (cases xs) (auto simp: List.insert_def)

lemma scope_of_update [simp]: "scope_of (g\<lparr>wr_watchIds := ids\<rparr>) = scope_of g"
  by (simp add: scope_of_def)

lemma IsSameRange_iff: "IsSameRange g key rangeEnd \<longleftrightarrow> scope_of g = (key, rangeEnd)"
  by (auto simp: IsSameRange_def scope_of_def)

lemma scopes_groupInsert:
  "map scope_of (groupInsert k e w gs) =
     (if (k, e) \<in> scope_of ` set gs then map scope_of gs else map scope_of gs @ [(k, e)])"
  by (induction gs) (auto simp: IsSameRange_iff scope_of_def)

lemma groupInsert_mem:
  assumes "distinct (map scope_of gs)" "g \<in> set (groupInsert k e w gs)"
  shows "if scope_of g = (k, e)
         then (k, e) \<notin> scope_of ` set gs \<and> wr_watchIds g = [w]
              \<or> (\<exists>g0 \<in> set gs. scope_of g0 = (k, e) \<and> wr_watchIds g = List.insert w (wr_watchIds g0))
         else g \<in> set gs"
  using assms
proof (induction gs)
  case (Cons a gs)
  then show ?case by (cases "scope_of a = (k, e)") (force simp: IsSameRange_iff)+
qed (simp add: scope_of_def)

lemma groupErase_eq:
  "groupErase w gs = map (\<lambda>g. g\<lparr>wr_watchIds := remove1 w (wr_watchIds g)\<rparr>)
                       (filter (\<lambda>g. remove1 w (wr_watchIds g) \<noteq> []) gs)"
  by (induction gs) (auto simp: Let_def)

lemma ids_fresh:
  assumes "ids_ok r"
  shows "watchers r (nextWatchId r) = None" "watchScopesById r (nextWatchId r) = None"
proof -
  show "watchers r (nextWatchId r) = None"
    using assms unfolding ids_ok_def by (metis less_irrefl option.exhaust)
  then show "watchScopesById r (nextWatchId r) = None"
    using assms unfolding ids_ok_def by (metis domIff)
qed

lemma create_simps:
  "watchers (fst (Register_create k e a rid r)) = (watchers r)(nextWatchId r \<mapsto>
     \<lparr>we_watchId = nextWatchId r, we_watcherAddr = a, we_registrationId = rid, we_active = True\<rparr>)"
  "watchScopesById (fst (Register_create k e a rid r)) = (watchScopesById r)(nextWatchId r \<mapsto> (k, e))"
  "fst (snd (Register_create k e a rid r)) = nextWatchId r"
  by (simp_all add: Register_create_def Let_def)

lemma scopeIds_create:
  assumes "ids_ok r"
  shows "scopeIds (fst (Register_create k e a rid r)) sc =
    (if sc = (k, e) then insert (nextWatchId r) (scopeIds r sc) else scopeIds r sc)"
  using ids_fresh [OF assms] by (auto simp: scopeIds_def Register_create_def Let_def)

lemma ids_ok_create:
  assumes "ids_ok r" "nextWatchId r < i64_max" "rid \<noteq> [] \<Longrightarrow> watchIdsByRegistrationId r rid = None"
  shows "ids_ok (fst (Register_create k e a rid r))"
proof -
  let ?r' = "fst (Register_create k e a rid r)"
  let ?w = "nextWatchId r"
  have nxt: "nextWatchId ?r' = ?w + 1"
    using assms(1,2) by (simp add: Register_create_def Let_def ids_ok_def)
  note w' = create_simps(1) [of k e a rid r] and s' = create_simps(2) [of k e a rid r]
  have g': "watchIdsByRegistrationId ?r' = (if rid \<noteq> [] then (watchIdsByRegistrationId r)(rid \<mapsto> ?w)
                                             else watchIdsByRegistrationId r)"
    by (simp add: Register_create_def Let_def)
  have "watchIdsByRegistrationId ?r' x = Some w \<longleftrightarrow>
          x \<noteq> [] \<and> (\<exists>e. watchers ?r' w = Some e \<and> we_registrationId e = x)" for x w
  proof (cases "w = ?w")
    case True
    have "watchIdsByRegistrationId r x \<noteq> Some ?w"
      using assms(1) ids_fresh(1) [OF assms(1)] by (auto simp: ids_ok_def)
    with True show ?thesis by (auto simp: w' g')
  next
    case False
    have "watchIdsByRegistrationId r x = Some w \<longleftrightarrow> x \<noteq> [] \<and> (\<exists>e. watchers r w = Some e \<and> we_registrationId e = x)"
      using assms(1) by (simp add: ids_ok_def)
    with False assms(3) show ?thesis by (auto simp: w' g')
  qed
  moreover have "dom (watchScopesById ?r') = dom (watchers ?r')"
    using assms(1) by (simp add: w' s' ids_ok_def)
  moreover have "we_watchId x = w \<and> we_active x \<and> w < nextWatchId ?r'" if "watchers ?r' w = Some x" for w x
  proof (cases "w = ?w")
    case False
    with that have "watchers r w = Some x" by (simp add: w')
    with assms(1) nxt show ?thesis unfolding ids_ok_def by fastforce
  qed (use that nxt in \<open>auto simp: w'\<close>)
  moreover have "1 \<le> nextWatchId ?r'" using assms(1) nxt by (simp add: ids_ok_def)
  ultimately show ?thesis unfolding ids_ok_def by blast
qed

lemma exact_ok_create:
  assumes "ids_ok r" "exact_ok r"
  shows "exact_ok (fst (Register_create k e a rid r))"
proof -
  let ?r' = "fst (Register_create k e a rid r)"
  let ?w = "nextWatchId r"
  have x': "exactIds ?r' x = (if e = [] \<and> x = k then List.insert ?w (exactIds r x) else exactIds r x)"
    and "exactWatchIdsByKey ?r' x \<noteq> Some []" for x
    using assms(2)
    by (auto simp: Register_create_def Let_def exactIds_def exact_ok_def)
  moreover have "distinct (exactIds r x)" "set (exactIds r x) = scopeIds r (x, [])" for x
    using assms(2) by (auto simp: exact_ok_def)
  ultimately show ?thesis
    unfolding exact_ok_def by (auto simp: scopeIds_create [OF assms(1)])
qed

lemma groups_ok_create:
  assumes "ids_ok r" "groups_ok r"
  shows "groups_ok (fst (Register_create k e a rid r))"
proof (cases "e = []")
  case True
  then have "rangeWatches (fst (Register_create k e a rid r)) = rangeWatches r"
    by (simp add: Register_create_def Let_def)
  with True assms(2) show ?thesis
    unfolding groups_ok_def scopeIds_create [OF assms(1)] by (auto simp: scope_of_def)
next
  case False
  let ?r' = "fst (Register_create k e a rid r)"
  let ?w = "nextWatchId r"
  let ?gs = "rangeWatches r"
  have gs': "rangeWatches ?r' = groupInsert k e ?w ?gs"
    using False by (simp add: Register_create_def Let_def)
  have dist: "distinct (map scope_of ?gs)"
    and old: "\<And>g. g \<in> set ?gs \<Longrightarrow> wr_rangeEnd g \<noteq> [] \<and> wr_watchIds g \<noteq> [] \<and> distinct (wr_watchIds g)
          \<and> set (wr_watchIds g) = scopeIds r (scope_of g)"
    and all: "\<And>sc. snd sc \<noteq> [] \<Longrightarrow> scopeIds r sc \<noteq> {} \<Longrightarrow> sc \<in> scope_of ` set ?gs"
    using assms(2) unfolding groups_ok_def by blast+
  have "distinct (map scope_of (rangeWatches ?r'))"
    using dist by (simp add: gs' scopes_groupInsert)
  moreover have "wr_rangeEnd g \<noteq> [] \<and> wr_watchIds g \<noteq> [] \<and> distinct (wr_watchIds g)
          \<and> set (wr_watchIds g) = scopeIds ?r' (scope_of g)" if "g \<in> set (rangeWatches ?r')" for g
  proof (cases "scope_of g = (k, e)")
    case True
    then have en: "wr_rangeEnd g = e" by (simp add: scope_of_def)
    from groupInsert_mem [OF dist that [unfolded gs']] True
    consider "(k, e) \<notin> scope_of ` set ?gs" "wr_watchIds g = [?w]"
      | g0 where "g0 \<in> set ?gs" "scope_of g0 = (k, e)" "wr_watchIds g = List.insert ?w (wr_watchIds g0)" by auto
    then show ?thesis
    proof cases
      case 1
      with all [of "(k, e)"] False have "scopeIds r (k, e) = {}" by auto
      with 1 True en False show ?thesis by (simp add: scopeIds_create [OF assms(1)])
    next
      case 2
      with old [OF 2(1)] True en False show ?thesis by (auto simp: scopeIds_create [OF assms(1)])
    qed
  next
    case False
    with groupInsert_mem [OF dist that [unfolded gs']] have "g \<in> set ?gs" by simp
    with old [of g] False show ?thesis by (simp add: scopeIds_create [OF assms(1)])
  qed
  moreover have "sc \<in> scope_of ` set (rangeWatches ?r')" if "snd sc \<noteq> []" "scopeIds ?r' sc \<noteq> {}" for sc
  proof -
    have "set (map scope_of (rangeWatches ?r')) = insert (k, e) (scope_of ` set ?gs)"
      unfolding gs' scopes_groupInsert by auto
    with that all [of sc] show ?thesis by (cases "sc = (k, e)") (auto simp: scopeIds_create [OF assms(1)])
  qed
  ultimately show ?thesis unfolding groups_ok_def by blast
qed


lemma Register_cases:
  assumes "WatchRegistry_Register k e a rid r = Inr (r', w, created)"
  shows "(if created then (r', w, True) = Register_create k e a rid r
                          \<and> (rid \<noteq> [] \<longrightarrow> watchIdsByRegistrationId r rid = None)
          else r' = r \<and> rid \<noteq> [] \<and> watchIdsByRegistrationId r rid = Some w \<and> watchScopesById r w = Some (k, e)
               \<and> (\<exists>x. watchers r w = Some x \<and> we_watcherAddr x = a))"
proof -
  have "Register_create k e a rid r = (r'', w'', c) \<Longrightarrow> c" for r'' w'' c
    by (auto simp: Register_create_def Let_def split: if_splits)
  with assms show ?thesis
    by (auto simp: WatchRegistry_Register_def split: option.splits if_splits)
qed

lemma registry_inv_Register:
  assumes "registry_inv r" "nextWatchId r < i64_max" "WatchRegistry_Register k e a rid r = Inr (r', w, created)"
  shows "registry_inv r'"
proof (cases created)
  case True
  with Register_cases [OF assms(3)] have "r' = fst (Register_create k e a rid r)"
    and "rid \<noteq> [] \<Longrightarrow> watchIdsByRegistrationId r rid = None"
    by (metis fst_conv)+
  with assms(1,2) show ?thesis
    by (simp add: registry_inv_def ids_ok_create exact_ok_create groups_ok_create)
next
  case False
  with Register_cases [OF assms(3)] assms(1) show ?thesis by simp
qed

text \<open>What a successful \<^verbatim>\<open>Cancel\<close> leaves of the registry.\<close>

lemma Cancel_cases:
  assumes "registry_inv r" "WatchRegistry_Cancel w a r = Inr r'"
  obtains x sc where "watchers r w = Some x" "watchScopesById r w = Some sc"
    "watchers r' = (watchers r)(w := None)" "watchScopesById r' = (watchScopesById r)(w := None)"
    "watchIdsByRegistrationId r' = (if we_registrationId x \<noteq> []
        then (watchIdsByRegistrationId r)(we_registrationId x := None) else watchIdsByRegistrationId r)"
    "nextWatchId r' = nextWatchId r"
    "if snd sc = [] then rangeWatches r' = rangeWatches r
         \<and> exactWatchIdsByKey r' = (exactWatchIdsByKey r)(fst sc :=
             (let ids = remove1 w (exactIds r (fst sc)) in if ids = [] then None else Some ids))
     else exactWatchIdsByKey r' = exactWatchIdsByKey r \<and> rangeWatches r' = groupErase w (rangeWatches r)"
proof -
  from assms(2) obtain x where x: "watchers r w = Some x"
    by (auto simp: WatchRegistry_Cancel_def split: option.splits)
  moreover have "dom (watchScopesById r) = dom (watchers r)"
    using assms(1) by (simp add: registry_inv_def ids_ok_def)
  ultimately obtain sc where sc: "watchScopesById r w = Some sc" by blast
  have "w \<in> set (exactIds r (fst sc))" if "snd sc = []"
    using assms(1) sc that by (cases sc) (auto simp: registry_inv_def exact_ok_def scopeIds_def)
  then have "exactWatchIdsByKey r (fst sc) = Some (exactIds r (fst sc))" if "snd sc = []"
    using that by (cases "exactWatchIdsByKey r (fst sc)") (auto simp: exactIds_def)
  then show thesis using assms(2) x sc
    by (intro that [of x sc]; cases sc; cases "snd sc")
      (auto simp: WatchRegistry_Cancel_def Let_def split: if_splits)
qed

lemma scopeIds_remove:
  "watchScopesById r' = (watchScopesById r)(w := None) \<Longrightarrow> scopeIds r' sc = scopeIds r sc - {w}"
  by (auto simp: scopeIds_def)


lemma groups_ok_same:
  assumes "groups_ok r" "watchScopesById r w = Some sc" "watchScopesById r' = (watchScopesById r)(w := None)"
    and "snd sc = []" "rangeWatches r' = rangeWatches r"
  shows "groups_ok r'"
proof -
  have "scopeIds r' sc' = scopeIds r sc'" if "snd sc' \<noteq> []" for sc'
    using that assms(2-4) by (auto simp: scopeIds_def)
  moreover have "snd (scope_of g) \<noteq> []" if "g \<in> set (rangeWatches r)" for g
    using that assms(1) by (simp add: groups_ok_def scope_of_def)
  ultimately show ?thesis using assms(1,5) by (simp add: groups_ok_def)
qed

lemma groups_ok_erase:
  assumes "groups_ok r" "watchScopesById r w = Some sc" "watchScopesById r' = (watchScopesById r)(w := None)"
    and "rangeWatches r' = groupErase w (rangeWatches r)"
  shows "groups_ok r'"
proof -
  note scope' = scopeIds_remove [OF assms(3)]
  let ?gs = "rangeWatches r"
  let ?keep = "filter (\<lambda>g. remove1 w (wr_watchIds g) \<noteq> []) ?gs"
  have dist: "distinct (map scope_of ?gs)"
    and old: "\<And>g. g \<in> set ?gs \<Longrightarrow> wr_rangeEnd g \<noteq> [] \<and> wr_watchIds g \<noteq> [] \<and> distinct (wr_watchIds g)
          \<and> set (wr_watchIds g) = scopeIds r (scope_of g)"
    and all: "\<And>sc. snd sc \<noteq> [] \<Longrightarrow> scopeIds r sc \<noteq> {} \<Longrightarrow> sc \<in> scope_of ` set ?gs"
    using assms(1) unfolding groups_ok_def by blast+
  have scopes: "map scope_of (rangeWatches r') = map scope_of ?keep"
    by (simp add: assms(4) groupErase_eq comp_def)
  have "distinct (map scope_of (rangeWatches r'))"
    unfolding scopes using dist by (simp add: distinct_map_filter)
  moreover have "wr_rangeEnd g \<noteq> [] \<and> wr_watchIds g \<noteq> [] \<and> distinct (wr_watchIds g)
          \<and> set (wr_watchIds g) = scopeIds r' (scope_of g)" if g: "g \<in> set (rangeWatches r')" for g
    using g old by (auto simp: assms(4) groupErase_eq scope')
  moreover have "sc' \<in> scope_of ` set (rangeWatches r')" if "snd sc' \<noteq> []" "scopeIds r' sc' \<noteq> {}" for sc'
  proof -
    from that all [of sc'] obtain g where g: "g \<in> set ?gs" "scope_of g = sc'" by (auto simp: scope')
    with that(2) old [of g] have "set (remove1 w (wr_watchIds g)) \<noteq> {}" by (simp add: scope')
    with g have "sc' \<in> set (map scope_of ?keep)" by auto
    then show ?thesis by (metis scopes set_map)
  qed
  ultimately show ?thesis unfolding groups_ok_def by blast
qed

lemma registry_inv_Cancel:
  assumes "registry_inv r" "WatchRegistry_Cancel w a r = Inr r'"
  shows "registry_inv r'"
proof -
  obtain x sc where x: "watchers r w = Some x" and sc: "watchScopesById r w = Some sc"
    and w': "watchers r' = (watchers r)(w := None)"
    and s': "watchScopesById r' = (watchScopesById r)(w := None)"
    and g': "watchIdsByRegistrationId r' = (if we_registrationId x \<noteq> []
        then (watchIdsByRegistrationId r)(we_registrationId x := None) else watchIdsByRegistrationId r)"
    and n': "nextWatchId r' = nextWatchId r"
    and idx: "if snd sc = [] then rangeWatches r' = rangeWatches r
         \<and> exactWatchIdsByKey r' = (exactWatchIdsByKey r)(fst sc :=
             (let ids = remove1 w (exactIds r (fst sc)) in if ids = [] then None else Some ids))
     else exactWatchIdsByKey r' = exactWatchIdsByKey r \<and> rangeWatches r' = groupErase w (rangeWatches r)"
    using Cancel_cases [OF assms] by metis
  note scope' = scopeIds_remove [OF s']
  have other: "w \<notin> scopeIds r sc'" if "sc' \<noteq> sc" for sc'
    using sc that by (auto simp: scopeIds_def)
  have reg: "watchIdsByRegistrationId r rid = Some v \<longleftrightarrow>
          rid \<noteq> [] \<and> (\<exists>e. watchers r v = Some e \<and> we_registrationId e = rid)" for rid v
    using assms(1) by (simp add: registry_inv_def ids_ok_def)
  have "watchIdsByRegistrationId r' rid = Some v \<longleftrightarrow>
          rid \<noteq> [] \<and> (\<exists>e. watchers r' v = Some e \<and> we_registrationId e = rid)" for rid v
    using reg [of rid v] reg [of rid w] x by (cases "v = w") (auto simp: w' g')
  then have "ids_ok r'"
    using assms(1) unfolding registry_inv_def ids_ok_def by (simp add: w' s' n')
  moreover have "exact_ok r'"
    unfolding exact_ok_def
  proof (rule allI)
    fix k
    have "exactIds r' k = (if snd sc = [] \<and> k = fst sc then remove1 w (exactIds r k) else exactIds r k)"
      and "exactWatchIdsByKey r' k \<noteq> Some []"
      using idx assms(1)
      by (auto simp: exactIds_def registry_inv_def exact_ok_def Let_def split: if_splits)
    moreover have "distinct (exactIds r k)" "set (exactIds r k) = scopeIds r (k, [])"
      using assms(1) by (auto simp: registry_inv_def exact_ok_def)
    ultimately show "exactWatchIdsByKey r' k \<noteq> Some [] \<and> distinct (exactIds r' k)
       \<and> set (exactIds r' k) = scopeIds r' (k, [])"
      using other [of "(k, [])"] by (cases sc) (auto simp: scope')
  qed
  moreover have "groups_ok r'"
    using groups_ok_erase [OF _ sc s'] groups_ok_same [OF _ sc s'] idx assms(1)
    by (auto simp: registry_inv_def split: if_splits)
  ultimately show ?thesis by (simp add: registry_inv_def)
qed


lemma nextWatchId_step:
  assumes "registry_inv r" "nextWatchId r < i64_max"
  shows "nextWatchId (registry_step r op) \<le> nextWatchId r + 1" and "registry_inv (registry_step r op)"
proof -
  have *: "nextWatchId r' \<le> nextWatchId r + 1" if "WatchRegistry_Register k e a rid r = Inr (r', w, c)" for k e a rid r' w c
  proof (cases c)
    case True
    with Register_cases [OF that] have "r' = fst (Register_create k e a rid r)" by (metis fst_conv)
    then show ?thesis using assms by (simp add: Register_create_def Let_def registry_inv_def ids_ok_def)
  qed (use Register_cases [OF that] in simp)
  have **: "nextWatchId r' = nextWatchId r" if "WatchRegistry_Cancel w a r = Inr r'" for w a r'
    using Cancel_cases [OF assms(1) that] by metis
  show "nextWatchId (registry_step r op) \<le> nextWatchId r + 1"
    by (cases op) (auto simp: * ** split: sum.splits)
  show "registry_inv (registry_step r op)"
    using assms by (cases op) (auto intro: registry_inv_Register registry_inv_Cancel split: sum.splits)
qed

lemma registry_run_inv:
  assumes "registry_inv r" "nextWatchId r + int (length ops) \<le> i64_max"
  shows "registry_inv (registry_run r ops)" "nextWatchId (registry_run r ops) \<le> nextWatchId r + int (length ops)"
  using assms
proof (induction ops arbitrary: r)
  case (Cons op ops)
  { case 1
    then have "registry_inv (registry_step r op)" "nextWatchId (registry_step r op) + int (length ops) \<le> i64_max"
      using nextWatchId_step [of r op] by auto
    then show ?case using Cons.IH(1) by simp
  next
    case 2
    then have "registry_inv (registry_step r op)" "nextWatchId (registry_step r op) \<le> nextWatchId r + 1"
      using nextWatchId_step [of r op] by auto
    with 2 show ?case using Cons.IH(2) [of "registry_step r op"] by simp }
qed simp_all

section \<open>The registry as a set of watches\<close>

type_synonym WatchView = "int \<Rightarrow> (string \<times> string \<times> string \<times> string) option"

text \<open>What a client knows of a watch: its key, range end, callback address and registration id.\<close>

definition watch_view :: "WatchRegistry \<Rightarrow> WatchView" where
  "watch_view r w =
     (case (watchers r w, watchScopesById r w) of
        (Some x, Some (key, rangeEnd)) \<Rightarrow> Some (key, rangeEnd, we_watcherAddr x, we_registrationId x)
      | _ \<Rightarrow> None)"

lemma watch_view_Some:
  "watch_view r w = Some (k, e, a, rid) \<longleftrightarrow>
     watchScopesById r w = Some (k, e) \<and> (\<exists>x. watchers r w = Some x \<and> we_watcherAddr x = a \<and> we_registrationId x = rid)"
  by (auto simp: watch_view_def split: option.splits)

lemma registered_view:
  assumes "registry_inv r" "rid \<noteq> []"
  shows "watchIdsByRegistrationId r rid = Some w \<longleftrightarrow> (\<exists>k e a. watch_view r w = Some (k, e, a, rid))"
proof -
  have "dom (watchScopesById r) = dom (watchers r)"
    using assms(1) by (simp add: registry_inv_def ids_ok_def)
  then have "watchers r w = Some x \<Longrightarrow> \<exists>k e. watchScopesById r w = Some (k, e)" for x
    by (metis domD domI surj_pair)
  with assms show ?thesis by (auto simp: watch_view_Some registry_inv_def ids_ok_def)
qed

lemma watch_view_create:
  "watch_view (fst (Register_create k e a rid r)) = (watch_view r)(nextWatchId r \<mapsto> (k, e, a, rid))"
  by (rule ext) (simp add: watch_view_def create_simps)

text \<open>The specification of the two mutating operations over the set of watches.\<close>

inductive registers ::
  "WatchView \<Rightarrow> string \<times> string \<times> string \<times> string \<Rightarrow> WatchView \<Rightarrow> (int \<times> bool) result \<Rightarrow> bool" where
  registers_new:
    "V w = None \<Longrightarrow> (rid = [] \<or> (\<forall>v k' e' a'. V v \<noteq> Some (k', e', a', rid)))
      \<Longrightarrow> registers V (k, e, a, rid) (V(w \<mapsto> (k, e, a, rid))) (Inr (w, True))"
| registers_again:
    "rid \<noteq> [] \<Longrightarrow> V w = Some (k, e, a, rid) \<Longrightarrow> registers V (k, e, a, rid) V (Inr (w, False))"
| registers_conflict:
    "rid \<noteq> [] \<Longrightarrow> V w = Some (k', e', a', rid) \<Longrightarrow> (k', e', a') \<noteq> (k, e, a)
      \<Longrightarrow> registers V (k, e, a, rid) V (Inl K_INVALID)"

inductive cancels :: "WatchView \<Rightarrow> int \<times> string \<Rightarrow> WatchView \<Rightarrow> unit result \<Rightarrow> bool" where
  cancels_missing: "V w = None \<Longrightarrow> cancels V (w, addr) V (Inl K_NOT_FOUND)"
| cancels_foreign:
    "V w = Some (k, e, a, rid) \<Longrightarrow> addr \<noteq> [] \<Longrightarrow> addr \<noteq> a \<Longrightarrow> cancels V (w, addr) V (Inl K_INVALID)"
| cancels_done:
    "V w = Some (k, e, a, rid) \<Longrightarrow> addr = [] \<or> addr = a \<Longrightarrow> cancels V (w, addr) (V(w := None)) (Inr ())"

lemma Register_refines:
  assumes "registry_inv r"
  shows "case WatchRegistry_Register k e a rid r of
           Inl c \<Rightarrow> registers (watch_view r) (k, e, a, rid) (watch_view r) (Inl c)
         | Inr (r', w, created) \<Rightarrow> registers (watch_view r) (k, e, a, rid) (watch_view r') (Inr (w, created))"
proof (cases "WatchRegistry_Register k e a rid r")
  case (Inl c)
  then obtain w where c: "c = K_INVALID" and rid: "rid \<noteq> []" and w: "watchIdsByRegistrationId r rid = Some w"
    and bad: "\<not> (watchScopesById r w = Some (k, e) \<and> (\<exists>x. watchers r w = Some x \<and> we_watcherAddr x = a))"
    by (auto simp: WatchRegistry_Register_def split: option.splits if_splits)
  then obtain k' e' a' where "watch_view r w = Some (k', e', a', rid)"
    using registered_view [OF assms] by blast
  moreover from this bad have "(k', e', a') \<noteq> (k, e, a)" by (auto simp: watch_view_Some)
  ultimately show ?thesis using Inl c rid by (auto intro: registers_conflict)
next
  case (Inr q)
  then obtain r' w created where q: "q = (r', w, created)" by (cases q)
  note cs = Register_cases [OF Inr [unfolded q]]
  show ?thesis
  proof (cases created)
    case True
    with cs have rw: "(r', w, True) = Register_create k e a rid r"
      and free: "rid \<noteq> [] \<Longrightarrow> watchIdsByRegistrationId r rid = None" by auto
    have "w = nextWatchId r" using create_simps(3) [of k e a rid r] unfolding rw [symmetric] by simp
    moreover have "watch_view r' = (watch_view r)(nextWatchId r \<mapsto> (k, e, a, rid))"
      using watch_view_create [of k e a rid r] unfolding rw [symmetric] by simp
    moreover have "watch_view r w = None"
      using ids_fresh [of r] assms \<open>w = nextWatchId r\<close> by (simp add: watch_view_def registry_inv_def)
    moreover have "rid = [] \<or> (\<forall>v k' e' a'. watch_view r v \<noteq> Some (k', e', a', rid))"
      using free registered_view [OF assms, of rid] by fastforce
    ultimately show ?thesis using Inr q True by (auto intro: registers_new)
  next
    case False
    with cs have "r' = r" "rid \<noteq> []" "watchScopesById r w = Some (k, e)" "\<exists>x. watchers r w = Some x \<and> we_watcherAddr x = a"
      "watchIdsByRegistrationId r rid = Some w" by auto
    then have "watch_view r w = Some (k, e, a, rid)"
      using registered_view [OF assms, of rid w] by (auto simp: watch_view_Some)
    with Inr q False \<open>r' = r\<close> \<open>rid \<noteq> []\<close> show ?thesis by (auto intro: registers_again)
  qed
qed

lemma Cancel_refines:
  assumes "registry_inv r"
  shows "case WatchRegistry_Cancel w addr r of
           Inl c \<Rightarrow> cancels (watch_view r) (w, addr) (watch_view r) (Inl c)
         | Inr r' \<Rightarrow> cancels (watch_view r) (w, addr) (watch_view r') (Inr ())"
proof (cases "watchers r w")
  case None
  then show ?thesis by (auto simp: WatchRegistry_Cancel_def watch_view_def intro: cancels_missing)
next
  case (Some x)
  have "dom (watchScopesById r) = dom (watchers r)"
    using assms(1) by (simp add: registry_inv_def ids_ok_def)
  then obtain k e where "watchScopesById r w = Some (k, e)" using Some by (metis domD domI surj_pair)
  with Some have view: "watch_view r w = Some (k, e, we_watcherAddr x, we_registrationId x)"
    by (simp add: watch_view_def)
  show ?thesis
  proof (cases "WatchRegistry_Cancel w addr r")
    case (Inl c)
    with Some have "c = K_INVALID" "addr \<noteq> []" "addr \<noteq> we_watcherAddr x"
      by (auto simp: WatchRegistry_Cancel_def Let_def split: if_splits)
    with Inl view show ?thesis by (auto intro: cancels_foreign)
  next
    case (Inr r')
    then have "addr = [] \<or> addr = we_watcherAddr x"
      using Some by (auto simp: WatchRegistry_Cancel_def split: if_splits)
    moreover have "watch_view r' = (watch_view r)(w := None)"
      by (rule Cancel_cases [OF assms Inr]) (simp add: watch_view_def fun_eq_iff)
    ultimately show ?thesis using Inr view by (auto intro: cancels_done)
  qed
qed


text \<open>
  C20. The registry implements a set of watches. After any sequence of registrations and
  cancellations, a further \<^verbatim>\<open>Register\<close> or \<^verbatim>\<open>Cancel\<close> acts on the set of live watches as its
  specification says, on every branch: a new registration gets an id no live watch has, a
  registration id that is live gives back its watch, or \<^verbatim>\<open>K_INVALID\<close> when key, range or address
  differ; a cancellation removes exactly its watch, and fails with \<^verbatim>\<open>K_NOT_FOUND\<close> for an unknown id
  and \<^verbatim>\<open>K_INVALID\<close> for a foreign address.
\<close>

theorem registry_refines_spec:
  assumes "int (length ops) < i64_max" and "r = registry_run WatchRegistry_init ops"
  shows "(case WatchRegistry_Register k e a rid r of
            Inl c \<Rightarrow> registers (watch_view r) (k, e, a, rid) (watch_view r) (Inl c)
          | Inr (r', w, created) \<Rightarrow> registers (watch_view r) (k, e, a, rid) (watch_view r') (Inr (w, created)))
     \<and> (case WatchRegistry_Cancel w addr r of
           Inl c \<Rightarrow> cancels (watch_view r) (w, addr) (watch_view r) (Inl c)
         | Inr r' \<Rightarrow> cancels (watch_view r) (w, addr) (watch_view r') (Inr ()))"
proof -
  have "registry_inv r"
    using assms registry_run_inv(1) [OF registry_inv_init, of ops] by (simp add: WatchRegistry_init_def)
  then show ?thesis using Register_refines Cancel_refines by blast
qed

lemmas registry_exec =
  WatchRegistry_init_def WatchRegistry_Register_def Register_create_def WatchRegistry_Cancel_def
  WatchRegistry_MatchWatchers_def activeEntries_def IsKeyInRange_def IsSameRange_def List.map_filter_def
  List.insert_def Let_def i64_max_def

theorem registry_refines_spec_witness:
  "let r = registry_run WatchRegistry_init [OpRegister ''a'' ''c'' ''h1'' ''x''] in
   registers (watch_view r) (''a'', ''c'', ''h1'', ''x'') (watch_view r) (Inr (1, False))
   \<and> cancels (watch_view r) (1, ''h2'') (watch_view r) (Inl K_INVALID)"
  using registry_refines_spec [of "[OpRegister ''a'' ''c'' ''h1'' ''x'']" _ "''a''" "''c''" "''h1''" "''x''" 1 "''h2''"]
  by (simp add: registry_exec watch_view_def)

section \<open>Matching\<close>

lemma active_entries:
  assumes "registry_inv r" "\<And>w. w \<in> set ids \<Longrightarrow> \<exists>x. watchers r w = Some x"
  shows "map we_watchId (activeEntries r ids) = ids"
  using assms(2)
proof (induction ids)
  case (Cons w ids)
  from Cons.prems [of w] obtain x where "watchers r w = Some x" by auto
  moreover have "we_watchId x = w" "we_active x"
    using assms(1) calculation by (auto simp: registry_inv_def ids_ok_def)
  ultimately show ?case using Cons by (simp add: activeEntries_def List.map_filter_def)
qed (simp add: activeEntries_def List.map_filter_def)

lemma scoped_ids_live:
  assumes "registry_inv r" "w \<in> scopeIds r sc"
  shows "\<exists>x. watchers r w = Some x"
  using assms unfolding registry_inv_def ids_ok_def scopeIds_def by (metis (mono_tags) domIff mem_Collect_eq not_None_eq)

lemma MatchWatchers_ids:
  assumes "registry_inv r"
  shows "map we_watchId (WatchRegistry_MatchWatchers key r) =
    exactIds r key @ concat (map wr_watchIds (filter (IsKeyInRange key) (rangeWatches r)))"
proof -
  have "map we_watchId (activeEntries r (exactIds r key)) = exactIds r key"
    using assms scoped_ids_live [OF assms]
    by (intro active_entries) (auto simp: registry_inv_def exact_ok_def)
  moreover have "map we_watchId (activeEntries r (wr_watchIds g)) = wr_watchIds g" if "g \<in> set (rangeWatches r)" for g
    using assms that scoped_ids_live [OF assms]
    by (intro active_entries) (auto simp: registry_inv_def groups_ok_def)
  then have "map (map we_watchId) (map (\<lambda>g. activeEntries r (wr_watchIds g)) (filter (IsKeyInRange key) (rangeWatches r)))
    = map wr_watchIds (filter (IsKeyInRange key) (rangeWatches r))" by simp
  moreover have "WatchRegistry_MatchWatchers key r = activeEntries r (exactIds r key)
    @ concat (map (\<lambda>g. activeEntries r (wr_watchIds g)) (filter (IsKeyInRange key) (rangeWatches r)))"
    by (simp add: WatchRegistry_MatchWatchers_def exactIds_def activeEntries_def List.map_filter_def
        split: option.split)
  ultimately show ?thesis by (simp only: map_append map_concat)
qed

lemma watch_view_scope:
  assumes "registry_inv r"
  shows "(\<exists>a rid. watch_view r w = Some (k, e, a, rid)) \<longleftrightarrow> w \<in> scopeIds r (k, e)"
  using scoped_ids_live [OF assms, of w "(k, e)"] by (auto simp: watch_view_Some scopeIds_def)

lemma group_of_scope:
  assumes "registry_inv r" "w \<in> scopeIds r (k, e)" "e \<noteq> []"
  shows "\<exists>g \<in> set (rangeWatches r). scope_of g = (k, e) \<and> w \<in> set (wr_watchIds g)"
proof -
  from assms obtain g where "g \<in> set (rangeWatches r)" "scope_of g = (k, e)"
    unfolding registry_inv_def groups_ok_def by (metis empty_iff imageE snd_conv)
  with assms show ?thesis unfolding registry_inv_def groups_ok_def by metis
qed

lemma MatchWatchers_set:
  assumes "registry_inv r"
  shows "set (map we_watchId (WatchRegistry_MatchWatchers key r)) =
    {w. \<exists>k e a rid. watch_view r w = Some (k, e, a, rid) \<and> inScope k e key}"
proof -
  have exact: "set (exactIds r key) = scopeIds r (key, [])"
    using assms by (simp add: registry_inv_def exact_ok_def)
  have group: "wr_rangeEnd g \<noteq> [] \<and> set (wr_watchIds g) = scopeIds r (scope_of g)" if "g \<in> set (rangeWatches r)" for g
    using assms that by (simp add: registry_inv_def groups_ok_def)
  have "(w \<in> scopeIds r (key, []) \<or> (\<exists>g \<in> set (rangeWatches r). IsKeyInRange key g \<and> w \<in> set (wr_watchIds g)))
    \<longleftrightarrow> (\<exists>k e. w \<in> scopeIds r (k, e) \<and> inScope k e key)" for w
  proof safe
    fix g assume "g \<in> set (rangeWatches r)" "IsKeyInRange key g" "w \<in> set (wr_watchIds g)"
    with group [of g] show "\<exists>k e. w \<in> scopeIds r (k, e) \<and> inScope k e key"
      by (auto simp: IsKeyInRange_def scope_of_def inScope_def)
  next
    fix k e assume w: "w \<in> scopeIds r (k, e)" "inScope k e key"
      "\<not> (\<exists>g \<in> set (rangeWatches r). IsKeyInRange key g \<and> w \<in> set (wr_watchIds g))"
    with group_of_scope [OF assms w(1)] show "w \<in> scopeIds r (key, [])"
      by (cases "e = []") (auto simp: inScope_def IsKeyInRange_def scope_of_def)
  qed (auto simp: inScope_def)
  moreover have "(\<exists>k e a rid. watch_view r w = Some (k, e, a, rid) \<and> inScope k e key)
    \<longleftrightarrow> (\<exists>k e. w \<in> scopeIds r (k, e) \<and> inScope k e key)" for w
    using watch_view_scope [OF assms, of w] by blast
  ultimately show ?thesis
    unfolding MatchWatchers_ids [OF assms] by (simp add: exact set_eq_iff) (metis (no_types))
qed

lemma MatchWatchers_distinct:
  assumes "registry_inv r"
  shows "distinct (map we_watchId (WatchRegistry_MatchWatchers key r))"
proof -
  have disj: "scopeIds r sc \<inter> scopeIds r sc' = {}" if "sc \<noteq> sc'" for sc sc'
    using that by (auto simp: scopeIds_def)
  have group: "wr_rangeEnd g \<noteq> [] \<and> distinct (wr_watchIds g) \<and> set (wr_watchIds g) = scopeIds r (scope_of g)"
    if "g \<in> set (rangeWatches r)" for g
    using assms that by (simp add: registry_inv_def groups_ok_def)
  have "distinct (concat (map wr_watchIds gs))"
    if "distinct (map scope_of gs)" "set gs \<subseteq> set (rangeWatches r)" for gs
    using that
  proof (induction gs)
    case (Cons g gs)
    have "set (wr_watchIds g) \<inter> set (wr_watchIds g') = {}" if "g' \<in> set gs" for g'
      using that Cons.prems group [of g] group [of g'] disj [of "scope_of g" "scope_of g'"] by auto
    with Cons group [of g] show ?case by auto
  qed simp
  moreover have "distinct (map scope_of (filter (IsKeyInRange key) (rangeWatches r)))"
    using assms by (simp add: registry_inv_def groups_ok_def distinct_map_filter)
  moreover have "distinct (exactIds r key)" "set (exactIds r key) = scopeIds r (key, [])"
    using assms by (auto simp: registry_inv_def exact_ok_def)
  moreover have "set (exactIds r key) \<inter> set (wr_watchIds g) = {}" if "g \<in> set (rangeWatches r)" for g
    using group [OF that] calculation(4) disj [of "(key, [])" "scope_of g"] by (auto simp: scope_of_def)
  ultimately show ?thesis unfolding MatchWatchers_ids [OF assms] by auto
qed

text \<open>
  C19. Matching by the indexes is exact. After any sequence of registrations and cancellations,
  the watchers found for a mutated key through the exact-key index and the range groups are
  precisely the live watches whose scope contains the key, each once: no watcher misses an
  event of its scope, gets one outside it, or gets one twice.
\<close>

theorem MatchWatchers_exact:
  assumes "int (length ops) < i64_max" and "r = registry_run WatchRegistry_init ops"
  shows "distinct (map we_watchId (WatchRegistry_MatchWatchers key r))
    \<and> set (map we_watchId (WatchRegistry_MatchWatchers key r)) =
        {w. \<exists>k e a rid. watch_view r w = Some (k, e, a, rid) \<and> inScope k e key}"
proof -
  have "registry_inv r"
    using assms registry_run_inv(1) [OF registry_inv_init, of ops] by (simp add: WatchRegistry_init_def)
  then show ?thesis using MatchWatchers_distinct MatchWatchers_set by blast
qed

definition registry_ex :: "RegistryOp list" where
  "registry_ex = [OpRegister ''a'' ''c'' ''h1'' ''x'', OpRegister ''b'' [] ''h1'' [],
     OpRegister ''c'' ''d'' ''h2'' [], OpRegister ''a'' ''c'' ''h3'' []]"

theorem MatchWatchers_exact_witness:
  "{w. \<exists>k e a rid. watch_view (registry_run WatchRegistry_init registry_ex) w = Some (k, e, a, rid)
      \<and> inScope k e ''b''} = {2, 4, 1}"
proof -
  have "int (length registry_ex) < i64_max" by (simp add: registry_ex_def i64_max_def)
  from conjunct2 [OF MatchWatchers_exact [OF this refl, of "''b''"]]
  show ?thesis unfolding registry_ex_def by (simp add: registry_exec)
qed


section \<open>Retried registrations\<close>

inductive_cases registersE: "registers V x V' res"
inductive_cases cancelsE: "cancels V x V' res"

lemma watch_view_step:
  assumes "registry_inv r" "watch_view r w = Some x" "\<And>addr. op \<noteq> OpCancel w addr"
  shows "watch_view (registry_step r op) w = Some x"
proof (cases op)
  case (OpRegister k e a rid)
  then show ?thesis using Register_refines [OF assms(1), of k e a rid] assms(2)
    by (auto split: sum.splits elim!: registersE)
next
  case (OpCancel v addr)
  then show ?thesis using Cancel_refines [OF assms(1), of v addr] assms(2) assms(3) [of addr]
    by (auto split: sum.splits elim!: cancelsE)
qed

lemma watch_view_run:
  assumes "registry_inv r" "nextWatchId r + int (length ops) \<le> i64_max" "watch_view r w = Some x"
    and "\<And>addr. OpCancel w addr \<notin> set ops"
  shows "watch_view (registry_run r ops) w = Some x"
  using assms
proof (induction ops arbitrary: r)
  case (Cons op ops)
  then have "watch_view (registry_step r op) w = Some x" by (intro watch_view_step) auto
  moreover have "registry_inv (registry_step r op)" "nextWatchId (registry_step r op) \<le> nextWatchId r + 1"
    using Cons.prems nextWatchId_step [of r op] by auto
  ultimately show ?case using Cons by simp
qed simp

lemma Register_live:
  assumes "registry_inv r" "rid \<noteq> []" "watch_view r w = Some (k, e, a, rid)"
  shows "WatchRegistry_Register k e a rid r = Inr (r, w, False)"
proof -
  have "watchIdsByRegistrationId r rid = Some w" using registered_view assms by blast
  then show ?thesis using assms(2,3) by (auto simp: WatchRegistry_Register_def watch_view_Some)
qed

fun cancels_watch :: "int \<Rightarrow> RegistryOp \<Rightarrow> bool" where
  "cancels_watch w (OpCancel v _) \<longleftrightarrow> v = w"
| "cancels_watch w _ \<longleftrightarrow> False"

text \<open>
  A registration can be retried. Once a registration with a non-empty registration id has
  succeeded, repeating it after any further operations that do not cancel this watch returns
  the same watch id, creates nothing and leaves the registry as it is, so an ambiguous RPC
  result never produces a second watch.
\<close>

lemma Register_retry:
  assumes "r = registry_run WatchRegistry_init ops1"
    and "rid \<noteq> []" and "WatchRegistry_Register k e a rid r = Inr (r1, w, created)"
    and "\<not> list_ex (cancels_watch w) ops2"
    and "int (length ops1) + int (length ops2) + 2 \<le> i64_max"
  shows "WatchRegistry_Register k e a rid (registry_run r1 ops2) = Inr (registry_run r1 ops2, w, False)"
proof -
  have r: "registry_inv r" "nextWatchId r \<le> 1 + int (length ops1)"
    using registry_run_inv [OF registry_inv_init, of ops1] assms(1,5) by (simp_all add: WatchRegistry_init_def)
  have r1: "r1 = registry_step r (OpRegister k e a rid)" using assms(3) by simp
  with r assms(5) have inv1: "registry_inv r1" "nextWatchId r1 + int (length ops2) \<le> i64_max"
    using nextWatchId_step [of r "OpRegister k e a rid"] by auto
  have "watch_view r1 w = Some (k, e, a, rid)"
    using Register_refines [OF r(1), of k e a rid] assms(3) by (auto elim!: registersE)
  moreover have "OpCancel w addr \<notin> set ops2" for addr
    using assms(4) by (force simp: list_ex_iff)
  ultimately have "watch_view (registry_run r1 ops2) w = Some (k, e, a, rid)"
    using watch_view_run inv1 by blast
  then show ?thesis using Register_live registry_run_inv inv1 assms(2) by blast
qed

lemma Register_retry_witness:
  "let r1 = registry_run WatchRegistry_init [OpRegister ''k'' [] ''h0'' [], OpRegister ''a'' ''c'' ''h1'' ''x''];
       r2 = registry_run r1 [OpRegister ''q'' [] ''h2'' ''y'', OpCancel 1 []]
   in WatchRegistry_Register ''a'' ''c'' ''h1'' ''x'' r2 = Inr (r2, 2, False)"
proof -
  let ?r = "registry_run WatchRegistry_init [OpRegister ''k'' [] ''h0'' []]"
  let ?r1 = "registry_run WatchRegistry_init [OpRegister ''k'' [] ''h0'' [], OpRegister ''a'' ''c'' ''h1'' ''x'']"
  have "WatchRegistry_Register ''a'' ''c'' ''h1'' ''x'' ?r = Inr (?r1, 2, True)"
    by (simp add: registry_exec)
  from Register_retry [OF refl _ this, of "[OpRegister ''q'' [] ''h2'' ''y'', OpCancel 1 []]"]
  show ?thesis unfolding Let_def by (simp add: i64_max_def del: foldl.simps)
qed

end
