(* ===== verification/Watch_Dispatcher.thy ===== *)
theory Watch_Dispatcher
  imports Kv_Store Watch_Registry
begin

text \<open>
  The watch dispatcher, \<^verbatim>\<open>src/datasystem/common/coordinator/watch_dispatcher.{h,cpp}\<close>: events
  enter one pending queue, the fan-out thread copies each to the channels of the watchers it
  matches, and a pool of workers takes ready channels from their groups, notifies the watcher
  and commits or retries.

  A \<^verbatim>\<open>shared_ptr<WatcherChannel>\<close> is an address into a heap of channels: a channel that was
  cancelled or replaced is still reachable from the ready and retry queues and from the worker that
  handles it. The body of each critical section is one function on the state. The threads are
  the step relation \<open>dispatch_step\<close>, which interleaves these functions; the sequential
  compositions (\<open>FanOutLoop_pass\<close>, \<open>HandleChannelEvents\<close>, \<open>DispatchLoop_pass\<close>) are
  there as well. The notification \<^verbatim>\<open>DoNotify\<close> is virtual: its status is a parameter, with \<open>None\<close> for OK.
  Times are nanoseconds of the steady clock.
\<close>

section \<open>Data\<close>

record WatcherChannel =
  ch_watchId :: int
  ch_watcherAddr :: string
  ch_queue :: "WatchEvent list"
  ch_backpressureLimit :: nat
  ch_snapshotRevision :: int
  ch_needReWatch :: bool
  ch_dispatchQueued :: bool
  ch_retryDelayMs :: int
  ch_cancelled :: bool

record DispatchChannelGroup =
  readyChannels :: "nat list"
  retryChannels :: "(int \<times> nat) list"

datatype HandleResult = HR_NONE | HR_READY_AGAIN | HR_RETRY_LATER

record WatchDispatcher =
  d_pendingQueue :: "WatchEvent list"
  d_droppedPendingEvents :: "64 word"
  d_cancelFailures :: "64 word"
  d_notifyFailures :: "64 word"
  d_pendingOverflow :: bool
  d_heap :: "nat \<Rightarrow> WatcherChannel"
  d_nextAddr :: nat
  d_channels :: "(int, nat) omap"
  d_watchIdsByWatcher :: "string \<Rightarrow> int list option"
  d_groups :: "DispatchChannelGroup list"
  d_dispatchThreadCount :: nat
  d_running :: bool

definition MAX_PENDING_EVENTS :: nat where "MAX_PENDING_EVENTS = 10000"
definition INITIAL_RETRY_DELAY_MS :: int where "INITIAL_RETRY_DELAY_MS = 100"
definition MAX_RETRY_DELAY_MS :: int where "MAX_RETRY_DELAY_MS = 5000"
definition RETRY_DELAY_MULTIPLIER :: int where "RETRY_DELAY_MULTIPLIER = 2"
definition RETRY_JITTER_PERCENT :: int where "RETRY_JITTER_PERCENT = 20"
definition PERCENT_SCALE :: int where "PERCENT_SCALE = 100"
definition MAX_READY_CHANNEL_GROUPS :: nat where "MAX_READY_CHANNEL_GROUPS = 8"
definition MAX_WATCH_EVENTS_PER_FAN_OUT :: nat where "MAX_WATCH_EVENTS_PER_FAN_OUT = 4096"
definition MAX_WATCH_EVENTS_PER_BATCH :: nat where "MAX_WATCH_EVENTS_PER_BATCH = 32"
definition WATCH_EVENT_BATCH_MERGE_THRESHOLD_BYTES :: nat where
  "WATCH_EVENT_BATCH_MERGE_THRESHOLD_BYTES = 256 * 1024"
definition WATCH_EVENT_WIRE_OVERHEAD_BYTES :: nat where "WATCH_EVENT_WIRE_OVERHEAD_BYTES = 128"

definition newChannel :: "int \<Rightarrow> string \<Rightarrow> WatcherChannel" where
  "newChannel watchId watcherAddr =
     \<lparr>ch_watchId = watchId, ch_watcherAddr = watcherAddr, ch_queue = [], ch_backpressureLimit = 1024,
      ch_snapshotRevision = 0, ch_needReWatch = False, ch_dispatchQueued = False,
      ch_retryDelayMs = 0, ch_cancelled = False\<rparr>"

definition WatchDispatcher_init :: "nat \<Rightarrow> WatchDispatcher" where
  "WatchDispatcher_init dispatchThreadCount =
     \<lparr>d_pendingQueue = [], d_droppedPendingEvents = 0, d_cancelFailures = 0, d_notifyFailures = 0,
      d_pendingOverflow = False, d_heap = (\<lambda>_. newChannel 0 []), d_nextAddr = 0, d_channels = [],
      d_watchIdsByWatcher = Map.empty, d_groups = [], d_dispatchThreadCount = dispatchThreadCount,
      d_running = False\<rparr>"

definition MakeRewatchEvent :: "WatchEvent option \<Rightarrow> WatchEvent" where
  "MakeRewatchEvent overflowEvent =
     \<lparr>ev_type = REWATCH,
      ev_entry = \<lparr>kve_key = [], kve_value = [], kve_version = 0, kve_modRevision = 0\<rparr>,
      ev_revision = (case overflowEvent of None \<Rightarrow> 0 | Some e \<Rightarrow> ev_revision e)\<rparr>"

text \<open>An update of one channel object, and of one group.\<close>

definition on_channel :: "nat \<Rightarrow> (WatcherChannel \<Rightarrow> WatcherChannel) \<Rightarrow> WatchDispatcher \<Rightarrow> WatchDispatcher" where
  "on_channel a f d = d\<lparr>d_heap := (d_heap d)(a := f (d_heap d a))\<rparr>"

definition on_group ::
  "nat \<Rightarrow> (DispatchChannelGroup \<Rightarrow> DispatchChannelGroup) \<Rightarrow> WatchDispatcher \<Rightarrow> WatchDispatcher" where
  "on_group i f d = d\<lparr>d_groups := (d_groups d)[i := f (d_groups d ! i)]\<rparr>"

section \<open>Channels\<close>

definition Enqueue :: "WatchEvent \<Rightarrow> WatchDispatcher \<Rightarrow> WatchDispatcher" where
  "Enqueue event d =
     (if MAX_PENDING_EVENTS \<le> length (d_pendingQueue d)
      then d\<lparr>d_droppedPendingEvents := d_droppedPendingEvents d + 1, d_pendingOverflow := True\<rparr>
      else d\<lparr>d_pendingQueue := d_pendingQueue d @ [event]\<rparr>)"

definition GetPendingEventCount :: "WatchDispatcher \<Rightarrow> nat" where
  "GetPendingEventCount d = length (d_pendingQueue d)"

definition CancelChannel :: "nat \<Rightarrow> WatchDispatcher \<Rightarrow> WatchDispatcher" where
  "CancelChannel a = on_channel a (\<lambda>c. c\<lparr>ch_cancelled := True, ch_queue := [],
                                           ch_dispatchQueued := False, ch_retryDelayMs := 0\<rparr>)"

definition RemoveReverseIndexLocked :: "nat \<Rightarrow> WatchDispatcher \<Rightarrow> WatchDispatcher" where
  "RemoveReverseIndexLocked a d =
     (let c = d_heap d a in
      case d_watchIdsByWatcher d (ch_watcherAddr c) of
        None \<Rightarrow> d
      | Some ids \<Rightarrow>
          let ids' = remove1 (ch_watchId c) ids
          in d\<lparr>d_watchIdsByWatcher := (d_watchIdsByWatcher d)(ch_watcherAddr c :=
                 (if ids' = [] then None else Some ids'))\<rparr>)"

definition AddChannel :: "int \<Rightarrow> string \<Rightarrow> WatchDispatcher \<Rightarrow> WatchDispatcher" where
  "AddChannel watchId watcherAddr d =
     (let a = d_nextAddr d;
          d1 = d\<lparr>d_heap := (d_heap d)(a := newChannel watchId watcherAddr), d_nextAddr := Suc a\<rparr>;
          d2 = (case map_of (d_channels d1) watchId of
                  None \<Rightarrow> d1
                | Some oldChannel \<Rightarrow> RemoveReverseIndexLocked oldChannel (CancelChannel oldChannel d1));
          ids = (case d_watchIdsByWatcher d2 watcherAddr of None \<Rightarrow> [] | Some ids \<Rightarrow> ids)
      in d2\<lparr>d_channels := om_put watchId a (d_channels d2),
            d_watchIdsByWatcher := (d_watchIdsByWatcher d2)(watcherAddr \<mapsto> List.insert watchId ids)\<rparr>)"

definition RemoveChannel :: "int \<Rightarrow> WatchDispatcher \<Rightarrow> WatchDispatcher" where
  "RemoveChannel watchId d =
     (case map_of (d_channels d) watchId of
        None \<Rightarrow> d
      | Some a \<Rightarrow>
          let d1 = RemoveReverseIndexLocked a (CancelChannel a d)
          in d1\<lparr>d_channels := om_del watchId (d_channels d1)\<rparr>)"

text \<open>The registry part of the removals: the new registry, and whether the failure is counted.\<close>

definition registryCancel :: "int \<Rightarrow> string \<Rightarrow> WatchRegistry \<Rightarrow> WatchRegistry \<times> bool" where
  "registryCancel watchId watcherAddr r =
     (case WatchRegistry_Cancel watchId watcherAddr r of
        Inl c \<Rightarrow> (r, c \<noteq> K_NOT_FOUND)
      | Inr r' \<Rightarrow> (r', False))"

definition RemoveChannelsByWatcher ::
  "string \<Rightarrow> WatchRegistry \<times> WatchDispatcher \<Rightarrow> WatchRegistry \<times> WatchDispatcher" where
  "RemoveChannelsByWatcher watcherAddr s =
     (case d_watchIdsByWatcher (snd s) watcherAddr of
        None \<Rightarrow> s
      | Some watchIds \<Rightarrow>
          let (r, d) = fold (\<lambda>watchId (r, d).
                let (r', failed) = registryCancel watchId watcherAddr r
                in (r', if failed then d\<lparr>d_cancelFailures := d_cancelFailures d + 1\<rparr> else d)) watchIds s
          in (r, fold RemoveChannel watchIds d))"

definition RemoveChannelsByWatcherInScopes ::
  "string \<Rightarrow> string list \<Rightarrow> WatchRegistry \<times> WatchDispatcher \<Rightarrow> WatchRegistry \<times> WatchDispatcher" where
  "RemoveChannelsByWatcherInScopes watcherAddr tableScopes s =
     (case d_watchIdsByWatcher (snd s) watcherAddr of
        None \<Rightarrow> s
      | Some ids \<Rightarrow>
          let watchIds = filter (\<lambda>w. WatchRegistry_IsWatchInScopes w tableScopes (fst s)) ids
          in fold (\<lambda>watchId (r, d).
                (fst (registryCancel watchId watcherAddr r), RemoveChannel watchId d)) watchIds s)"

section \<open>Scheduling\<close>

text \<open>\<^verbatim>\<open>std::hash<int64_t>\<close> is the identity into \<^verbatim>\<open>size_t\<close>.\<close>

definition GetReadyGroupIndex :: "nat \<Rightarrow> WatchDispatcher \<Rightarrow> nat" where
  "GetReadyGroupIndex a d = unat (word_of_int (ch_watchId (d_heap d a)) :: 64 word) mod length (d_groups d)"

definition ScheduleChannelLocked :: "nat \<Rightarrow> WatchDispatcher \<Rightarrow> WatchDispatcher" where
  "ScheduleChannelLocked a d =
     (if ch_cancelled (d_heap d a) \<or> ch_dispatchQueued (d_heap d a) \<or> d_groups d = [] then d
      else
        let d1 = on_channel a (\<lambda>c. c\<lparr>ch_dispatchQueued := True\<rparr>) d
        in on_group (GetReadyGroupIndex a d1) (\<lambda>g. g\<lparr>readyChannels := readyChannels g @ [a]\<rparr>) d1)"

definition SetSnapshotRevision :: "int \<Rightarrow> int \<Rightarrow> WatchDispatcher \<Rightarrow> WatchDispatcher" where
  "SetSnapshotRevision watchId revision d =
     (case map_of (d_channels d) watchId of
        None \<Rightarrow> d
      | Some a \<Rightarrow>
          let d1 = on_channel a (\<lambda>c. c\<lparr>ch_snapshotRevision := revision\<rparr>) d
          in if ch_queue (d_heap d1 a) \<noteq> [] then ScheduleChannelLocked a d1 else d1)"

text \<open>\<open>executorStatus\<close> is what starting the notification executor returns.\<close>

definition Dispatcher_Start :: "StatusCode option \<Rightarrow> WatchDispatcher \<Rightarrow> WatchDispatcher \<times> StatusCode option" where
  "Dispatcher_Start executorStatus d =
     (if d_running d then (d, None)
      else
        let groupCount = min (d_dispatchThreadCount d) MAX_READY_CHANNEL_GROUPS;
            d1 = d\<lparr>d_running := True,
                   d_groups := d_groups d @ replicate groupCount \<lparr>readyChannels = [], retryChannels = []\<rparr>\<rparr>
        in case executorStatus of
             None \<Rightarrow> (d1, None)
           | Some rc \<Rightarrow> (d1\<lparr>d_running := False, d_groups := []\<rparr>, Some rc))"

definition Dispatcher_Stop :: "WatchDispatcher \<Rightarrow> WatchDispatcher" where
  "Dispatcher_Stop d = (if \<not> d_running d then d else d\<lparr>d_running := False, d_groups := []\<rparr>)"

section \<open>Fan-out\<close>

definition FanOut_take :: "WatchDispatcher \<Rightarrow> WatchEvent list \<times> WatchDispatcher" where
  "FanOut_take d =
     (let count = min MAX_WATCH_EVENTS_PER_FAN_OUT (length (d_pendingQueue d))
      in (take count (d_pendingQueue d), d\<lparr>d_pendingQueue := drop count (d_pendingQueue d)\<rparr>))"

definition rewatchChannel :: "nat \<Rightarrow> WatchDispatcher \<Rightarrow> WatchDispatcher" where
  "rewatchChannel a d =
     (if ch_cancelled (d_heap d a) \<or> ch_needReWatch (d_heap d a) then d
      else ScheduleChannelLocked a
             (on_channel a (\<lambda>c. c\<lparr>ch_queue := [MakeRewatchEvent None], ch_needReWatch := True\<rparr>) d))"

definition ScheduleAllChannelsForRewatch :: "WatchDispatcher \<Rightarrow> WatchDispatcher" where
  "ScheduleAllChannelsForRewatch d = fold (\<lambda>p. rewatchChannel (snd p)) (d_channels d) d"

definition FanOut_overflow :: "WatchDispatcher \<Rightarrow> WatchDispatcher" where
  "FanOut_overflow d =
     (let d1 = d\<lparr>d_pendingOverflow := False\<rparr>
      in if d_pendingOverflow d then ScheduleAllChannelsForRewatch d1 else d1)"

text \<open>The loop body for one matched watcher.\<close>

definition FanOut_deliver :: "WatchEvent \<Rightarrow> int \<Rightarrow> WatchDispatcher \<Rightarrow> WatchDispatcher" where
  "FanOut_deliver event watchId d =
     (case map_of (d_channels d) watchId of
        None \<Rightarrow> d
      | Some a \<Rightarrow>
          if ch_cancelled (d_heap d a) \<or> ch_needReWatch (d_heap d a) then d
          else ScheduleChannelLocked a
                 (on_channel a (\<lambda>c.
                    if length (ch_queue c) < ch_backpressureLimit c
                    then c\<lparr>ch_queue := ch_queue c @ [event]\<rparr>
                    else c\<lparr>ch_queue := [MakeRewatchEvent (Some event)], ch_needReWatch := True\<rparr>) d))"

definition FanOut_event :: "WatchRegistry \<Rightarrow> WatchEvent \<Rightarrow> WatchDispatcher \<Rightarrow> WatchDispatcher" where
  "FanOut_event r event =
     fold (FanOut_deliver event) (map we_watchId (WatchRegistry_MatchWatchers (kve_key (ev_entry event)) r))"

definition FanOutLoop_pass :: "WatchRegistry \<Rightarrow> WatchDispatcher \<Rightarrow> WatchDispatcher" where
  "FanOutLoop_pass r d =
     (let (batch, d1) = FanOut_take d
      in fold (FanOut_event r) batch (FanOut_overflow d1))"

section \<open>Dispatch\<close>

text \<open>
  \<^verbatim>\<open>WaitForReadyChannel\<close>: the retries that are due move to the ready queue, then the first ready
  channel that is not cancelled is taken; with none the worker waits.
\<close>

fun promoteRetries :: "(nat \<Rightarrow> WatcherChannel) \<Rightarrow> int \<Rightarrow> DispatchChannelGroup \<Rightarrow> (int \<times> nat) list \<Rightarrow> DispatchChannelGroup" where
  "promoteRetries h now g [] = g\<lparr>retryChannels := []\<rparr>"
| "promoteRetries h now g ((readyTime, a) # rest) =
     (if readyTime \<le> now
      then promoteRetries h now
             (if ch_cancelled (h a) then g else g\<lparr>readyChannels := readyChannels g @ [a]\<rparr>) rest
      else g\<lparr>retryChannels := (readyTime, a) # rest\<rparr>)"

fun popReady :: "(nat \<Rightarrow> WatcherChannel) \<Rightarrow> nat list \<Rightarrow> nat list \<times> nat option" where
  "popReady h [] = ([], None)"
| "popReady h (a # as) = (if ch_cancelled (h a) then popReady h as else (as, Some a))"

definition WaitForReadyChannel_poll :: "int \<Rightarrow> nat \<Rightarrow> WatchDispatcher \<Rightarrow> WatchDispatcher \<times> nat option" where
  "WaitForReadyChannel_poll now groupIndex d =
     (let g = d_groups d ! groupIndex;
          g1 = promoteRetries (d_heap d) now g (retryChannels g);
          (ready, found) = popReady (d_heap d) (readyChannels g1)
      in (on_group groupIndex (\<lambda>_. g1\<lparr>readyChannels := ready\<rparr>) d, found))"

definition PrepareRetry :: "nat \<Rightarrow> WatchDispatcher \<Rightarrow> WatchDispatcher \<times> int option" where
  "PrepareRetry a d =
     (let c = d_heap d a in
      if \<not> d_running d \<or> ch_cancelled c then (d, None)
      else
        let retryDelayMs = (if ch_retryDelayMs c = 0 then INITIAL_RETRY_DELAY_MS
                            else min (ch_retryDelayMs c * RETRY_DELAY_MULTIPLIER) MAX_RETRY_DELAY_MS);
            jitterRange = retryDelayMs * RETRY_JITTER_PERCENT div PERCENT_SCALE;
            jitterWidth = (word_of_int (jitterRange * RETRY_DELAY_MULTIPLIER + 1) :: 64 word);
            seed = xor (word_of_int (ch_watchId c) :: 64 word) (word_of_int retryDelayMs);
            offset = sint (seed mod jitterWidth) - jitterRange
        in (on_channel a (\<lambda>c. c\<lparr>ch_retryDelayMs := retryDelayMs\<rparr>) d,
            Some (min (max (retryDelayMs + offset) INITIAL_RETRY_DELAY_MS) MAX_RETRY_DELAY_MS)))"

definition InsertRetryLocked :: "nat \<Rightarrow> int \<times> nat \<Rightarrow> WatchDispatcher \<Rightarrow> WatchDispatcher" where
  "InsertRetryLocked i retry = on_group i (\<lambda>g. g\<lparr>retryChannels := emplace_after fst retry (retryChannels g)\<rparr>)"

definition eventBytes :: "WatchEvent \<Rightarrow> nat" where
  "eventBytes e = WATCH_EVENT_WIRE_OVERHEAD_BYTES
     + (if ev_type e = REWATCH then 0 else length (kve_key (ev_entry e)) + length (kve_value (ev_entry e)))"

fun collectBatch :: "nat \<Rightarrow> int \<Rightarrow> WatchEvent list \<Rightarrow> WatchEvent list \<times> int" where
  "collectBatch batchBytes maxEventRevision [] = ([], maxEventRevision)"
| "collectBatch batchBytes maxEventRevision (e # es) =
     (let batchBytes' = batchBytes + eventBytes e;
          maxEventRevision' = max maxEventRevision (ev_revision e)
      in if WATCH_EVENT_BATCH_MERGE_THRESHOLD_BYTES < batchBytes' then ([e], maxEventRevision')
         else let (events, m) = collectBatch batchBytes' maxEventRevision' es in (e # events, m))"

text \<open>
  \<^verbatim>\<open>PrepareChannelEvents\<close>: \<open>None\<close> is its return value true (nothing to notify), otherwise the three
  out-parameters.
\<close>

definition PrepareChannelEvents ::
  "nat \<Rightarrow> WatchDispatcher \<Rightarrow> WatchDispatcher \<times> (bool \<times> int \<times> WatchEvent list) option" where
  "PrepareChannelEvents a d =
     (let c = d_heap d a; idle = (\<lambda>c. c\<lparr>ch_dispatchQueued := False\<rparr>) in
      if \<not> d_running d \<or> ch_cancelled c then (d, None)
      else if ch_queue c = [] then (on_channel a idle d, None)
      else if ch_needReWatch c then (d, Some (True, 0, [hd (ch_queue c)]))
      else if ch_snapshotRevision c \<le> 0 then (on_channel a idle d, None)
      else
        let queue = dropWhile (\<lambda>e. ev_revision e \<le> ch_snapshotRevision c) (ch_queue c);
            d1 = on_channel a (\<lambda>c. c\<lparr>ch_queue := queue\<rparr>) d
        in if queue = [] then (on_channel a idle d1, None)
           else let (events, maxEventRevision) = collectBatch 0 0 (take MAX_WATCH_EVENTS_PER_BATCH queue)
                in (d1, Some (False, maxEventRevision, events)))"

definition RemoveRewatchRequiredWatcher ::
  "int \<Rightarrow> string \<Rightarrow> WatchRegistry \<times> WatchDispatcher \<Rightarrow> WatchRegistry \<times> WatchDispatcher" where
  "RemoveRewatchRequiredWatcher watchId watcherAddr s =
     (fst (registryCancel watchId watcherAddr (fst s)), RemoveChannel watchId (snd s))"

text \<open>
  The part of \<^verbatim>\<open>HandleChannelEvents\<close> after \<^verbatim>\<open>DoNotify\<close>: first the decision on the returned status,
  then the removal of a watcher that must rebuild its stream, or the commit.
\<close>

datatype NotifyOutcome = OutGone | OutRemove | OutRetry | OutCommit

definition notifyOutcome ::
  "StatusCode option \<Rightarrow> bool \<Rightarrow> nat \<Rightarrow> WatchDispatcher \<Rightarrow> NotifyOutcome" where
  "notifyOutcome status needReWatch a d =
     (if \<not> d_running d \<or> ch_cancelled (d_heap d a) then OutGone
      else if status = Some K_NOT_FOUND then OutRemove
      else if status \<noteq> None then OutRetry
      else if needReWatch then OutRemove
      else OutCommit)"

definition commitChannel :: "int \<Rightarrow> nat \<Rightarrow> WatchDispatcher \<Rightarrow> WatchDispatcher \<times> HandleResult" where
  "commitChannel maxEventRevision a d =
     (if ch_cancelled (d_heap d a) then (d, HR_NONE)
      else
        let queue = dropWhile (\<lambda>e. ev_revision e \<le> maxEventRevision) (ch_queue (d_heap d a));
            d1 = on_channel a (\<lambda>c. c\<lparr>ch_retryDelayMs := 0, ch_queue := queue\<rparr>) d
        in if queue = [] then (on_channel a (\<lambda>c. c\<lparr>ch_dispatchQueued := False\<rparr>) d1, HR_NONE)
           else (d1, HR_READY_AGAIN))"

definition HandleChannelEvents_finish ::
  "StatusCode option \<Rightarrow> bool \<times> int \<times> WatchEvent list \<Rightarrow> nat \<Rightarrow> WatchRegistry \<times> WatchDispatcher
   \<Rightarrow> (WatchRegistry \<times> WatchDispatcher) \<times> HandleResult" where
  "HandleChannelEvents_finish status batch a s =
     (let c = d_heap (snd s) a in
      case notifyOutcome status (fst batch) a (snd s) of
        OutGone \<Rightarrow> (s, HR_NONE)
      | OutRemove \<Rightarrow> (RemoveRewatchRequiredWatcher (ch_watchId c) (ch_watcherAddr c) s, HR_NONE)
      | OutRetry \<Rightarrow> ((fst s, (snd s)\<lparr>d_notifyFailures := d_notifyFailures (snd s) + 1\<rparr>), HR_RETRY_LATER)
      | OutCommit \<Rightarrow> (let (d, result) = commitChannel (fst (snd batch)) a (snd s) in ((fst s, d), result)))"

definition HandleChannelEvents ::
  "(int \<Rightarrow> string \<Rightarrow> WatchEvent list \<Rightarrow> StatusCode option) \<Rightarrow> nat \<Rightarrow> WatchRegistry \<times> WatchDispatcher
   \<Rightarrow> (WatchRegistry \<times> WatchDispatcher) \<times> HandleResult" where
  "HandleChannelEvents DoNotify a s =
     (case PrepareChannelEvents a (snd s) of
        (d, None) \<Rightarrow> ((fst s, d), HR_NONE)
      | (d, Some batch) \<Rightarrow>
          let c = d_heap d a
          in HandleChannelEvents_finish (DoNotify (ch_watchId c) (ch_watcherAddr c) (snd (snd batch)))
               batch a (fst s, d))"

text \<open>The rest of the loop body of \<^verbatim>\<open>DispatchLoop\<close>: what happens to a handled channel.\<close>

definition DispatchLoop_requeue ::
  "int \<Rightarrow> nat \<Rightarrow> nat \<Rightarrow> HandleResult \<Rightarrow> WatchDispatcher \<Rightarrow> WatchDispatcher" where
  "DispatchLoop_requeue now groupIndex a result d =
     (if \<not> d_running d \<or> ch_cancelled (d_heap d a) then d
      else case result of
             HR_NONE \<Rightarrow> d
           | HR_READY_AGAIN \<Rightarrow> on_group groupIndex (\<lambda>g. g\<lparr>readyChannels := readyChannels g @ [a]\<rparr>) d
           | HR_RETRY_LATER \<Rightarrow>
               (case PrepareRetry a d of
                  (d1, None) \<Rightarrow> d1
                | (d1, Some delay) \<Rightarrow>
                    InsertRetryLocked (GetReadyGroupIndex a d1) (now + delay * 1000000, a) d1))"

definition DispatchLoop_pass ::
  "(int \<Rightarrow> string \<Rightarrow> WatchEvent list \<Rightarrow> StatusCode option) \<Rightarrow> int \<Rightarrow> nat
   \<Rightarrow> WatchRegistry \<times> WatchDispatcher \<Rightarrow> WatchRegistry \<times> WatchDispatcher" where
  "DispatchLoop_pass DoNotify now workerIndex s =
     (let groupIndex = workerIndex mod length (d_groups (snd s)) in
      case WaitForReadyChannel_poll now groupIndex (snd s) of
        (d, None) \<Rightarrow> (fst s, d)
      | (d, Some a) \<Rightarrow>
          let ((r, d1), result) = HandleChannelEvents DoNotify a (fst s, d)
          in (r, DispatchLoop_requeue now groupIndex a result d1))"


section \<open>The threads\<close>

datatype FanPhase =
    F_Wait
  | F_Taken "WatchEvent list"
  | F_Events "WatchEvent list"
  | F_Matched WatchEvent "int list" "WatchEvent list"

datatype WorkerPhase =
    W_Wait
  | W_Holding nat
  | W_Notifying nat "bool \<times> int \<times> WatchEvent list"
  | W_Removing nat
  | W_Committing nat int
  | W_Done nat HandleResult

record DispatchState =
  ds_registry :: WatchRegistry
  ds_disp :: WatchDispatcher
  ds_fan :: FanPhase
  ds_workers :: "WorkerPhase list"

text \<open>Where a worker continues after each of its critical sections.\<close>

fun afterPoll :: "nat option \<Rightarrow> WorkerPhase" where
  "afterPoll None = W_Wait"
| "afterPoll (Some a) = W_Holding a"

fun afterPrepare :: "nat \<Rightarrow> (bool \<times> int \<times> WatchEvent list) option \<Rightarrow> WorkerPhase" where
  "afterPrepare a None = W_Done a HR_NONE"
| "afterPrepare a (Some batch) = W_Notifying a batch"

fun afterNotify :: "nat \<Rightarrow> int \<Rightarrow> NotifyOutcome \<Rightarrow> WorkerPhase" where
  "afterNotify a m OutGone = W_Done a HR_NONE"
| "afterNotify a m OutRemove = W_Removing a"
| "afterNotify a m OutRetry = W_Done a HR_RETRY_LATER"
| "afterNotify a m OutCommit = W_Committing a m"

abbreviation worker_group :: "nat \<Rightarrow> WatchDispatcher \<Rightarrow> nat" where
  "worker_group i d \<equiv> i mod length (d_groups d)"

text \<open>
  One atomic step: a client call, a critical section of the fan-out thread, or one of worker
  \<open>i\<close>. A client's call may come at any time, the clock may read anything, and a notification may
  return any status.
\<close>

inductive dispatch_step :: "DispatchState \<Rightarrow> DispatchState \<Rightarrow> bool" where
  step_enqueue: "dispatch_step s (s\<lparr>ds_disp := Enqueue event (ds_disp s)\<rparr>)"
| step_registry: "dispatch_step s (s\<lparr>ds_registry := registry_step (ds_registry s) op\<rparr>)"
| step_add: "dispatch_step s (s\<lparr>ds_disp := AddChannel w addr (ds_disp s)\<rparr>)"
| step_remove: "dispatch_step s (s\<lparr>ds_disp := RemoveChannel w (ds_disp s)\<rparr>)"
| step_snapshot: "dispatch_step s (s\<lparr>ds_disp := SetSnapshotRevision w rv (ds_disp s)\<rparr>)"
| fan_take:
    "ds_fan s = F_Wait \<Longrightarrow> FanOut_take (ds_disp s) = (batch, d)
      \<Longrightarrow> dispatch_step s (s\<lparr>ds_disp := d, ds_fan := F_Taken batch\<rparr>)"
| fan_overflow:
    "ds_fan s = F_Taken batch
      \<Longrightarrow> dispatch_step s (s\<lparr>ds_disp := FanOut_overflow (ds_disp s), ds_fan := F_Events batch\<rparr>)"
| fan_match:
    "ds_fan s = F_Events (event # batch)
      \<Longrightarrow> ids = map we_watchId (WatchRegistry_MatchWatchers (kve_key (ev_entry event)) (ds_registry s))
      \<Longrightarrow> dispatch_step s (s\<lparr>ds_fan := F_Matched event ids batch\<rparr>)"
| fan_deliver:
    "ds_fan s = F_Matched event (w # ids) batch
      \<Longrightarrow> dispatch_step s (s\<lparr>ds_disp := FanOut_deliver event w (ds_disp s), ds_fan := F_Matched event ids batch\<rparr>)"
| fan_next: "ds_fan s = F_Matched event [] batch \<Longrightarrow> dispatch_step s (s\<lparr>ds_fan := F_Events batch\<rparr>)"
| fan_done: "ds_fan s = F_Events [] \<Longrightarrow> dispatch_step s (s\<lparr>ds_fan := F_Wait\<rparr>)"
| worker_poll:
    "i < length (ds_workers s) \<Longrightarrow> ds_workers s ! i = W_Wait
      \<Longrightarrow> WaitForReadyChannel_poll now (worker_group i (ds_disp s)) (ds_disp s) = (d, found)
      \<Longrightarrow> dispatch_step s (s\<lparr>ds_disp := d, ds_workers := (ds_workers s)[i := afterPoll found]\<rparr>)"
| worker_prepare:
    "i < length (ds_workers s) \<Longrightarrow> ds_workers s ! i = W_Holding a
      \<Longrightarrow> PrepareChannelEvents a (ds_disp s) = (d, prepared)
      \<Longrightarrow> dispatch_step s (s\<lparr>ds_disp := d, ds_workers := (ds_workers s)[i := afterPrepare a prepared]\<rparr>)"
| worker_notified:
    "i < length (ds_workers s) \<Longrightarrow> ds_workers s ! i = W_Notifying a (needReWatch, m, events)
      \<Longrightarrow> out = notifyOutcome status needReWatch a (ds_disp s)
      \<Longrightarrow> d = (if out = OutRetry then (ds_disp s)\<lparr>d_notifyFailures := d_notifyFailures (ds_disp s) + 1\<rparr> else ds_disp s)
      \<Longrightarrow> dispatch_step s (s\<lparr>ds_disp := d, ds_workers := (ds_workers s)[i := afterNotify a m out]\<rparr>)"
| worker_remove:
    "i < length (ds_workers s) \<Longrightarrow> ds_workers s ! i = W_Removing a
      \<Longrightarrow> c = d_heap (ds_disp s) a
      \<Longrightarrow> RemoveRewatchRequiredWatcher (ch_watchId c) (ch_watcherAddr c) (ds_registry s, ds_disp s) = (r, d)
      \<Longrightarrow> dispatch_step s (s\<lparr>ds_registry := r, ds_disp := d, ds_workers := (ds_workers s)[i := W_Done a HR_NONE]\<rparr>)"
| worker_commit:
    "i < length (ds_workers s) \<Longrightarrow> ds_workers s ! i = W_Committing a m
      \<Longrightarrow> commitChannel m a (ds_disp s) = (d, result)
      \<Longrightarrow> dispatch_step s (s\<lparr>ds_disp := d, ds_workers := (ds_workers s)[i := W_Done a result]\<rparr>)"
| worker_requeue:
    "i < length (ds_workers s) \<Longrightarrow> ds_workers s ! i = W_Done a result
      \<Longrightarrow> dispatch_step s (s\<lparr>ds_disp := DispatchLoop_requeue now (worker_group i (ds_disp s)) a result (ds_disp s),
                            ds_workers := (ds_workers s)[i := W_Wait]\<rparr>)"

inductive dispatch_reachable :: "nat \<Rightarrow> nat \<Rightarrow> DispatchState \<Rightarrow> bool" for threads workers where
  reach_init:
    "dispatch_reachable threads workers
       \<lparr>ds_registry = WatchRegistry_init, ds_disp = fst (Dispatcher_Start None (WatchDispatcher_init threads)),
        ds_fan = F_Wait, ds_workers = replicate workers W_Wait\<rparr>"
| reach_step: "dispatch_reachable threads workers s \<Longrightarrow> dispatch_step s s' \<Longrightarrow> dispatch_reachable threads workers s'"

section \<open>Tokens: where a scheduled channel is\<close>

fun holder :: "WorkerPhase \<Rightarrow> nat list" where
  "holder W_Wait = []"
| "holder (W_Holding a) = [a]"
| "holder (W_Notifying a _) = [a]"
| "holder (W_Removing a) = [a]"
| "holder (W_Committing a _) = [a]"
| "holder (W_Done a result) = (if result = HR_NONE then [] else [a])"

definition group_tokens :: "DispatchChannelGroup \<Rightarrow> nat list" where
  "group_tokens g = readyChannels g @ map snd (retryChannels g)"

definition gtok :: "WatchDispatcher \<Rightarrow> nat \<Rightarrow> nat" where
  "gtok d a = count_list (concat (map group_tokens (d_groups d))) a"

definition wtok :: "WorkerPhase list \<Rightarrow> nat \<Rightarrow> nat" where
  "wtok ws a = count_list (concat (map holder ws)) a"

lemma count_list_concat_update:
  "i < length xs \<Longrightarrow> count_list (concat (map f (xs[i := y]))) a + count_list (f (xs ! i)) a
     = count_list (concat (map f xs)) a + count_list (f y) a"
proof (induction xs arbitrary: i)
  case (Cons x xs)
  then show ?case by (cases i) auto
qed simp

lemma gtok_on_group:
  "i < length (d_groups d) \<Longrightarrow>
     gtok (on_group i f d) a + count_list (group_tokens (d_groups d ! i)) a
       = gtok d a + count_list (group_tokens (f (d_groups d ! i))) a"
  unfolding gtok_def on_group_def using count_list_concat_update by simp

lemma wtok_update:
  "i < length ws \<Longrightarrow> wtok (ws[i := w]) a + count_list (holder (ws ! i)) a = wtok ws a + count_list (holder w) a"
  unfolding wtok_def by (rule count_list_concat_update)

text \<open>One channel against the number of places that hold it.\<close>

definition deliverable :: "WatcherChannel \<Rightarrow> bool" where
  "deliverable c \<longleftrightarrow> ch_queue c \<noteq> [] \<and> (0 < ch_snapshotRevision c \<or> ch_needReWatch c)"

definition chan_ok :: "nat \<Rightarrow> WatcherChannel \<Rightarrow> bool" where
  "chan_ok n c \<longleftrightarrow> ch_cancelled c
     \<or> n = (if ch_dispatchQueued c then 1 else 0) \<and> (deliverable c \<longrightarrow> ch_dispatchQueued c)"

definition disp_inv :: "WatchDispatcher \<Rightarrow> WorkerPhase list \<Rightarrow> bool" where
  "disp_inv d ws \<longleftrightarrow> d_running d \<and> d_groups d \<noteq> [] \<and> om_ok (d_channels d)
     \<and> (\<forall>a. d_nextAddr d \<le> a \<longrightarrow> gtok d a + wtok ws a = 0)
     \<and> (\<forall>a < d_nextAddr d. chan_ok (gtok d a + wtok ws a) (d_heap d a))
     \<and> (\<forall>w a. map_of (d_channels d) w = Some a \<longleftrightarrow>
          a < d_nextAddr d \<and> \<not> ch_cancelled (d_heap d a) \<and> ch_watchId (d_heap d a) = w)"

text \<open>
  A change confined to one channel: every other channel and its tokens are as before, and the
  structure of the dispatcher stays.
\<close>

definition confined :: "nat \<Rightarrow> WatchDispatcher \<Rightarrow> WatchDispatcher \<Rightarrow> bool" where
  "confined b d d' \<longleftrightarrow> d_running d' = d_running d \<and> length (d_groups d') = length (d_groups d)
     \<and> d_channels d' = d_channels d \<and> d_nextAddr d' = d_nextAddr d
     \<and> ch_watchId (d_heap d' b) = ch_watchId (d_heap d b)
     \<and> ch_cancelled (d_heap d' b) = ch_cancelled (d_heap d b)
     \<and> (\<forall>a. a \<noteq> b \<longrightarrow> d_heap d' a = d_heap d a \<and> gtok d' a = gtok d a)"

lemma disp_inv_confined:
  assumes "disp_inv d ws" "confined b d d'" "\<And>a. a \<noteq> b \<Longrightarrow> wtok ws' a = wtok ws a"
    and "if b < d_nextAddr d then chan_ok (gtok d' b + wtok ws' b) (d_heap d' b)
         else gtok d' b + wtok ws' b = 0"
  shows "disp_inv d' ws'"
proof -
  have "gtok d' a + wtok ws' a = 0" if "d_nextAddr d' \<le> a" for a
    using that assms by (cases "a = b") (auto simp: disp_inv_def confined_def)
  moreover have "chan_ok (gtok d' a + wtok ws' a) (d_heap d' a)" if "a < d_nextAddr d'" for a
    using that assms by (cases "a = b") (auto simp: disp_inv_def confined_def)
  moreover have "a < d_nextAddr d' \<and> \<not> ch_cancelled (d_heap d' a) \<and> ch_watchId (d_heap d' a) = w \<longleftrightarrow>
      a < d_nextAddr d \<and> \<not> ch_cancelled (d_heap d a) \<and> ch_watchId (d_heap d a) = w" for a w
    using assms(2) by (cases "a = b") (auto simp: confined_def)
  moreover have "d_running d'" "d_groups d' \<noteq> []" "om_ok (d_channels d')"
    using assms(1,2) by (auto simp: disp_inv_def confined_def)
  moreover have "map_of (d_channels d') w = Some a \<longleftrightarrow>
      a < d_nextAddr d \<and> \<not> ch_cancelled (d_heap d a) \<and> ch_watchId (d_heap d a) = w" for a w
    using assms(1,2) by (simp add: disp_inv_def confined_def)
  ultimately show ?thesis unfolding disp_inv_def by simp
qed


lemma disp_inv_chan: "disp_inv d ws \<Longrightarrow> a < d_nextAddr d \<Longrightarrow> chan_ok (gtok d a + wtok ws a) (d_heap d a)"
  by (simp add: disp_inv_def)

lemma disp_inv_free: "disp_inv d ws \<Longrightarrow> \<not> a < d_nextAddr d \<Longrightarrow> gtok d a = 0 \<and> wtok ws a = 0"
  by (simp add: disp_inv_def)

lemma confined_refl [simp]: "confined b d d"
  by (simp add: confined_def)

lemma confined_trans: "confined b d d' \<Longrightarrow> confined b d' d'' \<Longrightarrow> confined b d d''"
  by (simp add: confined_def)

lemma on_channel_simps [simp]:
  "d_heap (on_channel b f d) = (d_heap d)(b := f (d_heap d b))" "gtok (on_channel b f d) a = gtok d a"
  "d_groups (on_channel b f d) = d_groups d" "d_channels (on_channel b f d) = d_channels d"
  "d_nextAddr (on_channel b f d) = d_nextAddr d" "d_running (on_channel b f d) = d_running d"
  by (simp_all add: on_channel_def gtok_def)

lemma on_group_simps [simp]:
  "d_heap (on_group i f d) = d_heap d" "length (d_groups (on_group i f d)) = length (d_groups d)"
  "d_channels (on_group i f d) = d_channels d"
  "d_nextAddr (on_group i f d) = d_nextAddr d" "d_running (on_group i f d) = d_running d"
  by (simp_all add: on_group_def)

lemma confined_on_channel:
  "ch_watchId (f (d_heap d b)) = ch_watchId (d_heap d b) \<Longrightarrow> ch_cancelled (f (d_heap d b)) = ch_cancelled (d_heap d b)
    \<Longrightarrow> confined b d (on_channel b f d)"
  by (simp add: confined_def)

lemma gtok_push_ready:
  "i < length (d_groups d) \<Longrightarrow>
     gtok (on_group i (\<lambda>g. g\<lparr>readyChannels := readyChannels g @ [b]\<rparr>) d) a = gtok d a + (if a = b then 1 else 0)"
  using gtok_on_group [of i d "\<lambda>g. g\<lparr>readyChannels := readyChannels g @ [b]\<rparr>" a]
  by (simp add: group_tokens_def split: if_splits)

lemma gtok_InsertRetry:
  "i < length (d_groups d) \<Longrightarrow>
     gtok (InsertRetryLocked i (readyTime, b) d) a = gtok d a + (if a = b then 1 else 0)"
proof -
  have "count_list (map snd (emplace_after fst (t, b) q)) a = count_list (map snd q) a + (if a = b then 1 else 0)"
    for t :: int and q by (induction q) auto
  moreover assume "i < length (d_groups d)"
  ultimately show ?thesis
    using gtok_on_group [of i d "\<lambda>g. g\<lparr>retryChannels := emplace_after fst (readyTime, b) (retryChannels g)\<rparr>" a]
    by (simp add: group_tokens_def InsertRetryLocked_def split: if_splits)
qed

lemma GetReadyGroupIndex_bound: "d_groups d \<noteq> [] \<Longrightarrow> GetReadyGroupIndex a d < length (d_groups d)"
  by (simp add: GetReadyGroupIndex_def)

lemma Schedule_effect:
  assumes "d_groups d \<noteq> []"
  shows "confined b d (ScheduleChannelLocked b d)"
    and "gtok (ScheduleChannelLocked b d) b =
           gtok d b + (if ch_cancelled (d_heap d b) \<or> ch_dispatchQueued (d_heap d b) then 0 else 1)"
    and "d_heap (ScheduleChannelLocked b d) b =
           (if ch_cancelled (d_heap d b) then d_heap d b else (d_heap d b)\<lparr>ch_dispatchQueued := True\<rparr>)"
  using assms GetReadyGroupIndex_bound [of "on_channel b (\<lambda>c. c\<lparr>ch_dispatchQueued := True\<rparr>) d" b]
  by (auto simp: ScheduleChannelLocked_def Let_def confined_def gtok_push_ready)

lemma disp_inv_schedule:
  assumes "disp_inv d ws" "b < d_nextAddr d"
    and "ch_watchId (f (d_heap d b)) = ch_watchId (d_heap d b)"
    and "ch_cancelled (f (d_heap d b)) = ch_cancelled (d_heap d b)"
    and "ch_dispatchQueued (f (d_heap d b)) = ch_dispatchQueued (d_heap d b)"
  shows "disp_inv (ScheduleChannelLocked b (on_channel b f d)) ws"
proof -
  let ?d = "on_channel b f d"
  have g: "d_groups ?d \<noteq> []" using assms(1) by (simp add: disp_inv_def)
  have "confined b d ?d" using assms(3,4) by (rule confined_on_channel)
  then have "confined b d (ScheduleChannelLocked b ?d)"
    using Schedule_effect(1) [OF g] confined_trans by blast
  moreover have "chan_ok (gtok d b + wtok ws b) (d_heap d b)"
    using assms(1,2) by (simp add: disp_inv_def)
  then have "chan_ok (gtok (ScheduleChannelLocked b ?d) b + wtok ws b) (d_heap (ScheduleChannelLocked b ?d) b)"
    using assms(4,5) by (auto simp: Schedule_effect [OF g] chan_ok_def split: if_splits)
  ultimately show ?thesis using assms(2) by (intro disp_inv_confined [OF assms(1), of b]) simp_all
qed

text \<open>A change of one channel that keeps its tokens and its flag, and does not make it deliverable.\<close>

lemma disp_inv_on_channel:
  assumes "disp_inv d ws"
    and "ch_watchId (f (d_heap d b)) = ch_watchId (d_heap d b)"
    and "ch_cancelled (f (d_heap d b)) = ch_cancelled (d_heap d b)"
    and "ch_dispatchQueued (f (d_heap d b)) = ch_dispatchQueued (d_heap d b)"
    and "deliverable (f (d_heap d b)) \<Longrightarrow> deliverable (d_heap d b)"
  shows "disp_inv (on_channel b f d) ws"
proof -
  have "chan_ok n (d_heap d b) \<Longrightarrow> chan_ok n (f (d_heap d b))" for n
    using assms(3-5) by (auto simp: chan_ok_def)
  with assms(2,3) show ?thesis
    by (intro disp_inv_confined [OF assms(1), of b] confined_on_channel)
      (simp_all add: disp_inv_chan [OF assms(1)] disp_inv_free [OF assms(1)])
qed

lemma channel_allocated:
  "disp_inv d ws \<Longrightarrow> map_of (d_channels d) w = Some a \<Longrightarrow> a < d_nextAddr d"
  by (simp add: disp_inv_def)

lemma disp_inv_SetSnapshotRevision: "disp_inv d ws \<Longrightarrow> disp_inv (SetSnapshotRevision w rv d) ws"
  unfolding SetSnapshotRevision_def Let_def
  by (split option.split, intro conjI impI allI)
    (auto simp: channel_allocated deliverable_def intro!: disp_inv_schedule disp_inv_on_channel)

lemma disp_inv_FanOut_deliver: "disp_inv d ws \<Longrightarrow> disp_inv (FanOut_deliver event w d) ws"
  unfolding FanOut_deliver_def
  by (split option.split, intro conjI impI allI)
    (simp_all add: channel_allocated disp_inv_schedule)

lemma disp_inv_rewatchChannel: "disp_inv d ws \<Longrightarrow> a < d_nextAddr d \<Longrightarrow> disp_inv (rewatchChannel a d) ws"
  by (simp add: rewatchChannel_def disp_inv_schedule)

lemma rewatchChannel_nextAddr [simp]: "d_nextAddr (rewatchChannel a d) = d_nextAddr d"
  by (simp add: rewatchChannel_def ScheduleChannelLocked_def Let_def)

lemma disp_inv_rewatch_fold:
  "disp_inv d ws \<Longrightarrow> list_all (\<lambda>p. snd p < d_nextAddr d) ps
    \<Longrightarrow> disp_inv (fold (\<lambda>p. rewatchChannel (snd p)) ps d) ws"
  by (induction ps arbitrary: d) (simp_all add: disp_inv_rewatchChannel)

lemma disp_inv_FanOut_overflow:
  assumes "disp_inv d ws"
  shows "disp_inv (FanOut_overflow d) ws"
proof -
  have 1: "disp_inv (d\<lparr>d_pendingOverflow := False\<rparr>) ws"
    using assms by (simp add: disp_inv_def gtok_def)
  moreover have "list_all (\<lambda>p. snd p < d_nextAddr d) (d_channels d)"
    using assms om_set_iff [of "d_channels d"] by (auto simp: disp_inv_def list_all_iff)
  ultimately show ?thesis
    using disp_inv_rewatch_fold [OF 1, of "d_channels d"] by (simp add: FanOut_overflow_def ScheduleAllChannelsForRewatch_def Let_def)
qed


lemma disp_inv_notifyFailures [simp]: "disp_inv (d\<lparr>d_notifyFailures := n\<rparr>) ws = disp_inv d ws"
  by (simp add: disp_inv_def gtok_def)

lemma disp_inv_Enqueue: "disp_inv d ws \<Longrightarrow> disp_inv (Enqueue event d) ws"
  by (simp add: disp_inv_def gtok_def Enqueue_def)

lemma disp_inv_FanOut_take: "disp_inv d ws \<Longrightarrow> FanOut_take d = (batch, d') \<Longrightarrow> disp_inv d' ws"
  by (auto simp: disp_inv_def gtok_def FanOut_take_def Let_def)

lemma RemoveReverseIndex_simps [simp]:
  "d_heap (RemoveReverseIndexLocked b d) = d_heap d" "d_groups (RemoveReverseIndexLocked b d) = d_groups d"
  "d_channels (RemoveReverseIndexLocked b d) = d_channels d"
  "d_nextAddr (RemoveReverseIndexLocked b d) = d_nextAddr d" "d_running (RemoveReverseIndexLocked b d) = d_running d"
  by (simp_all add: RemoveReverseIndexLocked_def Let_def split: option.split)

abbreviation cancel_chan :: "WatcherChannel \<Rightarrow> WatcherChannel" where
  "cancel_chan c \<equiv> c\<lparr>ch_cancelled := True, ch_queue := [], ch_dispatchQueued := False, ch_retryDelayMs := 0\<rparr>"

lemma RemoveChannel_effect:
  "d_heap (RemoveChannel w d) = (case map_of (d_channels d) w of None \<Rightarrow> d_heap d
      | Some b \<Rightarrow> (d_heap d)(b := cancel_chan (d_heap d b)))"
  "map_of (d_channels (RemoveChannel w d)) = (map_of (d_channels d))(w := None)"
  "om_ok (d_channels d) \<Longrightarrow> om_ok (d_channels (RemoveChannel w d))"
  "d_groups (RemoveChannel w d) = d_groups d" "d_nextAddr (RemoveChannel w d) = d_nextAddr d"
  "d_running (RemoveChannel w d) = d_running d" "gtok (RemoveChannel w d) a = gtok d a"
  by (auto simp: RemoveChannel_def CancelChannel_def Let_def gtok_def om_ok_del store_simps
      split: option.split)

lemma disp_inv_RemoveChannel:
  assumes "disp_inv d ws"
  shows "disp_inv (RemoveChannel w d) ws"
proof (cases "map_of (d_channels d) w")
  case None
  then show ?thesis using assms by (simp add: RemoveChannel_def)
next
  case (Some b)
  have ch: "map_of (d_channels d) w' = Some a \<longleftrightarrow>
      a < d_nextAddr d \<and> \<not> ch_cancelled (d_heap d a) \<and> ch_watchId (d_heap d a) = w'" for w' a
    using assms by (simp add: disp_inv_def)
  have "map_of (d_channels (RemoveChannel w d)) w' = Some a \<longleftrightarrow> a < d_nextAddr d
      \<and> \<not> ch_cancelled (d_heap (RemoveChannel w d) a) \<and> ch_watchId (d_heap (RemoveChannel w d) a) = w'" for w' a
    using ch [of w' a] ch [of w b] Some by (auto simp: RemoveChannel_effect)
  moreover have "chan_ok n (d_heap d a) \<Longrightarrow> chan_ok n (d_heap (RemoveChannel w d) a)" for n a
    using Some by (auto simp: RemoveChannel_effect chan_ok_def)
  ultimately show ?thesis using assms by (simp add: disp_inv_def RemoveChannel_effect)
qed

lemma AddChannel_effect:
  "d_heap (AddChannel w addr d) = (d_heap (RemoveChannel w (d\<lparr>d_heap := (d_heap d)(d_nextAddr d := newChannel w addr)\<rparr>)))"
  "map_of (d_channels (AddChannel w addr d)) = (map_of (d_channels d))(w \<mapsto> d_nextAddr d)"
  "om_ok (d_channels d) \<Longrightarrow> om_ok (d_channels (AddChannel w addr d))"
  "d_groups (AddChannel w addr d) = d_groups d" "d_nextAddr (AddChannel w addr d) = Suc (d_nextAddr d)"
  "d_running (AddChannel w addr d) = d_running d" "gtok (AddChannel w addr d) a = gtok d a"
  by (auto simp: AddChannel_def RemoveChannel_def CancelChannel_def Let_def gtok_def om_ok_put store_simps
      split: option.split)

lemma disp_inv_AddChannel:
  assumes "disp_inv d ws"
  shows "disp_inv (AddChannel w addr d) ws"
proof -
  let ?n = "d_nextAddr d"
  have ch: "map_of (d_channels d) w' = Some a \<longleftrightarrow>
      a < ?n \<and> \<not> ch_cancelled (d_heap d a) \<and> ch_watchId (d_heap d a) = w'" for w' a
    using assms by (simp add: disp_inv_def)
  have heap: "d_heap (AddChannel w addr d) a = (if a = ?n then newChannel w addr else d_heap (RemoveChannel w d) a)" for a
    using ch [of w ?n] by (auto simp: AddChannel_effect RemoveChannel_effect split: option.splits)
  have inv: "disp_inv (RemoveChannel w d) ws" using assms by (rule disp_inv_RemoveChannel)
  have "map_of (d_channels (AddChannel w addr d)) w' = Some a \<longleftrightarrow> a < Suc ?n
      \<and> \<not> ch_cancelled (d_heap (AddChannel w addr d) a) \<and> ch_watchId (d_heap (AddChannel w addr d) a) = w'" for w' a
    using ch [of w' a] ch [of w a] inv
    by (auto simp: AddChannel_effect(2) heap newChannel_def disp_inv_def RemoveChannel_effect less_Suc_eq split: option.splits)
  moreover have "chan_ok (gtok d a + wtok ws a) (d_heap (AddChannel w addr d) a)" if "a < Suc ?n" for a
  proof (cases "a = ?n")
    case True
    then show ?thesis using disp_inv_free [OF assms, of a] by (simp add: heap chan_ok_def newChannel_def deliverable_def)
  next
    case False
    then show ?thesis using that disp_inv_chan [OF inv, of a] by (simp add: heap RemoveChannel_effect)
  qed
  ultimately show ?thesis
    using assms unfolding disp_inv_def by (simp add: AddChannel_effect(3-))
qed

text \<open>A change of the tokens only, which may lose tokens of cancelled channels.\<close>

lemma disp_inv_tokens:
  assumes "disp_inv d ws"
    and "d_heap d' = d_heap d" "d_channels d' = d_channels d" "d_nextAddr d' = d_nextAddr d"
    and "d_running d' = d_running d" "length (d_groups d') = length (d_groups d)"
    and "\<And>a. gtok d' a + wtok ws' a \<le> gtok d a + wtok ws a"
    and "\<And>a. \<not> ch_cancelled (d_heap d a) \<Longrightarrow> gtok d' a + wtok ws' a = gtok d a + wtok ws a"
  shows "disp_inv d' ws'"
proof -
  have "gtok d' a + wtok ws' a = 0" if "d_nextAddr d \<le> a" for a
    using assms(7) [of a] disp_inv_free [OF assms(1), of a] that by simp
  moreover have "chan_ok (gtok d' a + wtok ws' a) (d_heap d a)" if "a < d_nextAddr d" for a
    using disp_inv_chan [OF assms(1) that] assms(8) [of a] by (cases "ch_cancelled (d_heap d a)") (simp_all add: chan_ok_def)
  moreover have "d_groups d' \<noteq> []" using assms(1,6) by (auto simp: disp_inv_def)
  ultimately show ?thesis using assms(1-5) unfolding disp_inv_def by simp
qed


lemma count_promoteRetries:
  "count_list (group_tokens (promoteRetries h now g q)) a \<le> count_list (readyChannels g) a + count_list (map snd q) a"
  "\<not> ch_cancelled (h a) \<Longrightarrow>
     count_list (group_tokens (promoteRetries h now g q)) a = count_list (readyChannels g) a + count_list (map snd q) a"
  by (induction h now g q rule: promoteRetries.induct) (auto simp: group_tokens_def)

lemma count_popReady:
  assumes "popReady h as = (as', found)"
  shows "count_list as' a + (if found = Some a then 1 else 0) \<le> count_list as a"
    and "\<not> ch_cancelled (h a) \<Longrightarrow> count_list as' a + (if found = Some a then 1 else 0) = count_list as a"
  using assms by (induction h as rule: popReady.induct) (auto split: if_splits)

lemma poll_effect:
  assumes "i < length (d_groups d)" "WaitForReadyChannel_poll now i d = (d', found)"
  shows "d_heap d' = d_heap d" "d_channels d' = d_channels d" "d_nextAddr d' = d_nextAddr d"
    and "d_running d' = d_running d" "length (d_groups d') = length (d_groups d)"
    and "gtok d' a + (if found = Some a then 1 else 0) \<le> gtok d a"
    and "\<not> ch_cancelled (d_heap d a) \<Longrightarrow> gtok d' a + (if found = Some a then 1 else 0) = gtok d a"
proof -
  let ?g = "d_groups d ! i"
  let ?g1 = "promoteRetries (d_heap d) now ?g (retryChannels ?g)"
  obtain as' where pop: "popReady (d_heap d) (readyChannels ?g1) = (as', found)"
    and d': "d' = on_group i (\<lambda>_. ?g1\<lparr>readyChannels := as'\<rparr>) d"
    using assms(2) by (auto simp: WaitForReadyChannel_poll_def Let_def split: prod.splits)
  show "d_heap d' = d_heap d" "d_channels d' = d_channels d" "d_nextAddr d' = d_nextAddr d"
    "d_running d' = d_running d" "length (d_groups d') = length (d_groups d)"
    by (simp_all add: d')
  have eq: "gtok d' a + (count_list (readyChannels ?g) a + count_list (map snd (retryChannels ?g)) a)
     = gtok d a + (count_list as' a + count_list (map snd (retryChannels ?g1)) a)"
    using gtok_on_group [OF assms(1), of "\<lambda>_. ?g1\<lparr>readyChannels := as'\<rparr>" a] by (simp add: d' group_tokens_def)
  note c = count_promoteRetries [where h = "d_heap d" and now = now and g = ?g and q = "retryChannels ?g" and a = a, unfolded group_tokens_def, simplified]
    and q = count_popReady [OF pop, of a]
  show "gtok d' a + (if found = Some a then 1 else 0) \<le> gtok d a" using eq c(1) q(1) by linarith
  show "gtok d' a + (if found = Some a then 1 else 0) = gtok d a" if "\<not> ch_cancelled (d_heap d a)"
    using eq c(2) [OF that] q(2) [OF that] by linarith
qed

lemma disp_inv_poll:
  assumes "disp_inv d ws" "i < length ws" "ws ! i = W_Wait"
    and "WaitForReadyChannel_poll now (worker_group i d) d = (d', found)"
  shows "disp_inv d' (ws[i := afterPoll found])"
proof -
  have g: "worker_group i d < length (d_groups d)" using assms(1) by (simp add: disp_inv_def)
  have w: "wtok (ws[i := afterPoll found]) a = wtok ws a + (if found = Some a then 1 else 0)" for a
    using wtok_update [OF assms(2), of "afterPoll found" a] assms(3) by (cases found) auto
  show ?thesis
  proof (rule disp_inv_tokens [OF assms(1) poll_effect(1-5) [OF g assms(4)]])
    fix a
    show "gtok d' a + wtok (ws[i := afterPoll found]) a \<le> gtok d a + wtok ws a"
      using poll_effect(6) [OF g assms(4), of a] w [of a] by linarith
    assume "\<not> ch_cancelled (d_heap d a)"
    then show "gtok d' a + wtok (ws[i := afterPoll found]) a = gtok d a + wtok ws a"
      using poll_effect(7) [OF g assms(4), of a] w [of a] by linarith
  qed
qed

text \<open>A worker that has a channel in hand and puts it down, or keeps it.\<close>

lemma wtok_hand:
  assumes "i < length ws" "holder (ws ! i) = [b]"
  shows "holder w = [b] \<Longrightarrow> wtok (ws[i := w]) a = wtok ws a"
    and "holder w = [] \<Longrightarrow> wtok ws a = wtok (ws[i := w]) a + (if a = b then 1 else 0)"
  using wtok_update [OF assms(1), of w a] assms(2) by auto

lemma held_channel:
  assumes "disp_inv d ws" "i < length ws" "holder (ws ! i) = [b]"
  shows "b < d_nextAddr d"
    and "\<not> ch_cancelled (d_heap d b) \<Longrightarrow> ch_dispatchQueued (d_heap d b) \<and> gtok d b = 0 \<and> wtok ws b = 1"
proof -
  have pos: "0 < wtok ws b" using wtok_hand(2) [OF assms(2,3), of W_Wait b] by simp
  then show "b < d_nextAddr d" using disp_inv_free [OF assms(1), of b] by auto
  from disp_inv_chan [OF assms(1) this] pos
  show "\<not> ch_cancelled (d_heap d b) \<Longrightarrow> ch_dispatchQueued (d_heap d b) \<and> gtok d b = 0 \<and> wtok ws b = 1"
    by (auto simp: chan_ok_def split: if_splits)
qed

lemma disp_inv_drop:
  assumes "disp_inv d ws" "i < length ws" "holder (ws ! i) = [b]" "ch_cancelled (d_heap d b)" "holder w = []"
  shows "disp_inv d (ws[i := w])"
proof (rule disp_inv_tokens [OF assms(1)])
  fix a
  show "gtok d a + wtok (ws[i := w]) a \<le> gtok d a + wtok ws a"
    using wtok_hand(2) [OF assms(2,3,5), of a] by simp
  show "\<not> ch_cancelled (d_heap d a) \<Longrightarrow> gtok d a + wtok (ws[i := w]) a = gtok d a + wtok ws a"
    using wtok_hand(2) [OF assms(2,3,5), of a] assms(4) by auto
qed simp_all

lemma disp_inv_keep:
  assumes "disp_inv d ws" "i < length ws" "holder (ws ! i) = holder w"
  shows "disp_inv d (ws[i := w])"
proof (rule disp_inv_tokens [OF assms(1)])
  fix a
  show "gtok d a + wtok (ws[i := w]) a \<le> gtok d a + wtok ws a"
    and "gtok d a + wtok (ws[i := w]) a = gtok d a + wtok ws a"
    using wtok_update [OF assms(2), of w a] assms(3) by simp_all
qed simp_all

text \<open>A worker that finds nothing to deliver clears the flag of its channel and puts it down.\<close>

lemma disp_inv_idle:
  assumes "disp_inv d ws" "i < length ws" "holder (ws ! i) = [b]" "holder w = []"
    and "ch_watchId (f (d_heap d b)) = ch_watchId (d_heap d b)"
    and "ch_cancelled (f (d_heap d b)) = ch_cancelled (d_heap d b)"
    and "\<not> ch_dispatchQueued (f (d_heap d b))" "\<not> deliverable (f (d_heap d b))"
  shows "disp_inv (on_channel b f d) (ws[i := w])"
proof (rule disp_inv_confined [OF assms(1), of b])
  show "confined b d (on_channel b f d)" using assms(5,6) by (rule confined_on_channel)
  show "wtok (ws[i := w]) a = wtok ws a" if "a \<noteq> b" for a
    using that wtok_hand(2) [OF assms(2,3,4), of a] by simp
  have "chan_ok (gtok d b + wtok (ws[i := w]) b) (f (d_heap d b))"
    using held_channel(2) [OF assms(1-3)] assms(6-8) wtok_hand(2) [OF assms(2,3,4), of b]
    by (auto simp: chan_ok_def)
  then show "if b < d_nextAddr d
     then chan_ok (gtok (on_channel b f d) b + wtok (ws[i := w]) b) (d_heap (on_channel b f d) b)
     else gtok (on_channel b f d) b + wtok (ws[i := w]) b = 0"
    using held_channel(1) [OF assms(1-3)] by simp
qed


lemma on_channel_on_channel: "on_channel b g (on_channel b f d) = on_channel b (g \<circ> f) d"
  by (simp add: on_channel_def)

text \<open>The effect of \<^verbatim>\<open>PrepareChannelEvents\<close> on its channel, by what it returns.\<close>

lemma Prepare_cases:
  assumes "PrepareChannelEvents b d = (d', prepared)" "d_running d"
  obtains (gone) "prepared = None" "d' = d" "ch_cancelled (d_heap d b)"
  | (idle) f where "prepared = None" "d' = on_channel b f d"
      "ch_watchId (f (d_heap d b)) = ch_watchId (d_heap d b)" "ch_cancelled (f (d_heap d b)) = ch_cancelled (d_heap d b)"
      "\<not> ch_dispatchQueued (f (d_heap d b))" "\<not> deliverable (f (d_heap d b))"
  | (rewatch) "prepared = Some (True, 0, [hd (ch_queue (d_heap d b))])" "d' = d" "\<not> ch_cancelled (d_heap d b)"
      "ch_needReWatch (d_heap d b)" "ch_queue (d_heap d b) \<noteq> []"
  | (batch) queue events m where "prepared = Some (False, m, events)" "\<not> ch_cancelled (d_heap d b)"
      "\<not> ch_needReWatch (d_heap d b)" "0 < ch_snapshotRevision (d_heap d b)"
      "queue = dropWhile (\<lambda>e. ev_revision e \<le> ch_snapshotRevision (d_heap d b)) (ch_queue (d_heap d b))"
      "queue \<noteq> []" "collectBatch 0 0 (take MAX_WATCH_EVENTS_PER_BATCH queue) = (events, m)"
      "d' = on_channel b (\<lambda>c. c\<lparr>ch_queue := queue\<rparr>) d"
proof -
  let ?c = "d_heap d b"
  let ?q = "dropWhile (\<lambda>e. ev_revision e \<le> ch_snapshotRevision ?c) (ch_queue ?c)"
  let ?idle = "\<lambda>c. c\<lparr>ch_dispatchQueued := False\<rparr>"
  consider (1) "ch_cancelled ?c" | (2) "\<not> ch_cancelled ?c" "ch_queue ?c = []"
    | (3) "\<not> ch_cancelled ?c" "ch_queue ?c \<noteq> []" "ch_needReWatch ?c"
    | (4) "\<not> ch_cancelled ?c" "ch_queue ?c \<noteq> []" "\<not> ch_needReWatch ?c" "\<not> 0 < ch_snapshotRevision ?c"
    | (5) "\<not> ch_cancelled ?c" "ch_queue ?c \<noteq> []" "\<not> ch_needReWatch ?c" "0 < ch_snapshotRevision ?c" "?q = []"
    | (6) "\<not> ch_cancelled ?c" "ch_queue ?c \<noteq> []" "\<not> ch_needReWatch ?c" "0 < ch_snapshotRevision ?c" "?q \<noteq> []"
    by blast
  then show thesis
  proof cases
    case 1
    then have "PrepareChannelEvents b d = (d, None)" by (simp add: PrepareChannelEvents_def Let_def)
    with 1 assms(1) show ?thesis by (intro gone) simp_all
  next
    case 2
    then have "PrepareChannelEvents b d = (on_channel b ?idle d, None)"
      using assms(2) by (simp add: PrepareChannelEvents_def Let_def)
    with 2 assms(1) show ?thesis by (intro idle [of ?idle]) (simp_all add: deliverable_def)
  next
    case 3
    then have "PrepareChannelEvents b d = (d, Some (True, 0, [hd (ch_queue ?c)]))"
      using assms(2) by (simp add: PrepareChannelEvents_def Let_def)
    with 3 assms(1) show ?thesis by (intro rewatch) auto
  next
    case 4
    then have "PrepareChannelEvents b d = (on_channel b ?idle d, None)"
      using assms(2) by (simp add: PrepareChannelEvents_def Let_def)
    with 4 assms(1) show ?thesis by (intro idle [of ?idle]) (simp_all add: deliverable_def)
  next
    case 5
    then have "PrepareChannelEvents b d = (on_channel b (?idle \<circ> (\<lambda>c. c\<lparr>ch_queue := []\<rparr>)) d, None)"
      using assms(2) by (simp add: PrepareChannelEvents_def Let_def on_channel_on_channel del: dropWhile_eq_Nil_conv)
    with assms(1) show ?thesis by (intro idle [of "?idle \<circ> (\<lambda>c. c\<lparr>ch_queue := []\<rparr>)"]) (simp_all add: deliverable_def)
  next
    case 6
    obtain events m where c: "collectBatch 0 0 (take MAX_WATCH_EVENTS_PER_BATCH ?q) = (events, m)" by fastforce
    with 6 have "PrepareChannelEvents b d = (on_channel b (\<lambda>c. c\<lparr>ch_queue := ?q\<rparr>) d, Some (False, m, events))"
      using assms(2) by (simp add: PrepareChannelEvents_def Let_def del: dropWhile_eq_Nil_conv)
    with 6 c assms(1) show ?thesis
      by (intro batch [of m events ?q]) (simp_all del: dropWhile_eq_Nil_conv)
  qed
qed

lemma disp_inv_prepare:
  assumes "disp_inv d ws" "i < length ws" "ws ! i = W_Holding b" "PrepareChannelEvents b d = (d', prepared)"
  shows "disp_inv d' (ws[i := afterPrepare b prepared])"
proof -
  have h: "holder (ws ! i) = [b]" using assms(3) by simp
  have "d_running d" using assms(1) by (simp add: disp_inv_def)
  with assms(4) show ?thesis
  proof (cases rule: Prepare_cases)
    case gone
    then show ?thesis using disp_inv_drop [OF assms(1,2) h] by simp
  next
    case (idle f)
    show ?thesis unfolding idle(1,2)
      by (rule disp_inv_idle [OF assms(1,2) h]) (use idle in simp_all)
  next
    case rewatch
    then show ?thesis using disp_inv_keep [OF assms(1,2)] h by simp
  next
    case (batch queue events m)
    have "set queue \<subseteq> set (ch_queue (d_heap d b))" using batch(5) by (auto dest: set_dropWhileD)
    then have "disp_inv d' ws" unfolding batch(8)
      using batch(4,6) by (intro disp_inv_on_channel [OF assms(1)]) (auto simp: deliverable_def)
    then show ?thesis using disp_inv_keep [of d' ws i] assms(2) h batch(1) by simp
  qed
qed

lemma disp_inv_commit:
  assumes "disp_inv d ws" "i < length ws" "ws ! i = W_Committing b m" "commitChannel m b d = (d', result)"
  shows "disp_inv d' (ws[i := W_Done b result])"
proof -
  have h: "holder (ws ! i) = [b]" using assms(3) by simp
  let ?q = "dropWhile (\<lambda>e. ev_revision e \<le> m) (ch_queue (d_heap d b))"
  let ?f = "\<lambda>c. c\<lparr>ch_retryDelayMs := 0, ch_queue := ?q\<rparr>"
  consider (1) "ch_cancelled (d_heap d b)" "d' = d" "result = HR_NONE"
    | (2) "?q = []" "d' = on_channel b ((\<lambda>c. c\<lparr>ch_dispatchQueued := False\<rparr>) \<circ> ?f) d" "result = HR_NONE"
    | (3) "?q \<noteq> []" "d' = on_channel b ?f d" "result = HR_READY_AGAIN"
    using assms(4) unfolding commitChannel_def Let_def on_channel_on_channel
    by (cases "ch_cancelled (d_heap d b)"; cases "?q = []") (simp_all del: dropWhile_eq_Nil_conv)
  then show ?thesis
  proof cases
    case 1
    then show ?thesis using disp_inv_drop [OF assms(1,2) h] by simp
  next
    case 2
    then show ?thesis using disp_inv_idle [OF assms(1,2) h] by (simp add: deliverable_def del: dropWhile_eq_Nil_conv)
  next
    case 3
    have "disp_inv d' ws" unfolding 3(2)
      using 3(1) by (intro disp_inv_on_channel [OF assms(1)]) (auto simp: deliverable_def)
    then show ?thesis using disp_inv_keep [of d' ws i] assms(2) h 3(3) by simp
  qed
qed

lemma disp_inv_notified:
  assumes "disp_inv d ws" "i < length ws" "ws ! i = W_Notifying b batch"
    and "out = notifyOutcome status needReWatch b d"
    and "d' = (if out = OutRetry then d\<lparr>d_notifyFailures := d_notifyFailures d + 1\<rparr> else d)"
  shows "disp_inv d' (ws[i := afterNotify b m out])"
proof -
  have h: "holder (ws ! i) = [b]" using assms(3) by simp
  have "d_running d" using assms(1) by (simp add: disp_inv_def)
  then have gone: "ch_cancelled (d_heap d b)" if "out = OutGone"
    using assms(4) that by (auto simp: notifyOutcome_def split: if_splits)
  have "disp_inv d (ws[i := afterNotify b m out])"
    using disp_inv_drop [OF assms(1,2) h gone] disp_inv_keep [OF assms(1,2), of "afterNotify b m out"] h
    by (cases out) simp_all
  then show ?thesis by (cases out) (simp_all add: assms(5))
qed

lemma disp_inv_remove:
  assumes "disp_inv d ws" "i < length ws" "ws ! i = W_Removing b"
  shows "disp_inv (RemoveChannel (ch_watchId (d_heap d b)) d) (ws[i := W_Done b HR_NONE])"
proof -
  have h: "holder (ws ! i) = [b]" using assms(3) by simp
  let ?w = "ch_watchId (d_heap d b)"
  have "ch_cancelled (d_heap (RemoveChannel ?w d) b)"
  proof (cases "ch_cancelled (d_heap d b)")
    case True
    then show ?thesis by (simp add: RemoveChannel_effect split: option.split)
  next
    case False
    then have "map_of (d_channels d) ?w = Some b"
      using assms(1) held_channel(1) [OF assms(1,2) h] by (simp add: disp_inv_def)
    then show ?thesis by (simp add: RemoveChannel_effect)
  qed
  then show ?thesis
    using disp_inv_drop [OF disp_inv_RemoveChannel [OF assms(1)] assms(2) h] by simp
qed

lemma PrepareRetry_effect:
  "ch_cancelled (d_heap d b) \<or> \<not> d_running d \<Longrightarrow> PrepareRetry b d = (d, None)"
  "\<not> ch_cancelled (d_heap d b) \<Longrightarrow> d_running d \<Longrightarrow> \<exists>ms delay.
     PrepareRetry b d = (on_channel b (\<lambda>c. c\<lparr>ch_retryDelayMs := ms\<rparr>) d, Some delay)"
  by (auto simp: PrepareRetry_def Let_def split del: if_split intro!: exI)

lemma disp_inv_requeue:
  assumes "disp_inv d ws" "i < length ws" "ws ! i = W_Done b result"
  shows "disp_inv (DispatchLoop_requeue now (worker_group i d) b result d) (ws[i := W_Wait])"
proof (cases "ch_cancelled (d_heap d b) \<or> result = HR_NONE")
  case True
  have "d_running d" using assms(1) by (simp add: disp_inv_def)
  with True have "DispatchLoop_requeue now (worker_group i d) b result d = d"
    by (auto simp: DispatchLoop_requeue_def)
  moreover have "disp_inv d (ws[i := W_Wait])"
    using True disp_inv_drop [OF assms(1,2), of b W_Wait] disp_inv_keep [OF assms(1,2), of W_Wait] assms(3)
    by (cases "result = HR_NONE") auto
  ultimately show ?thesis by simp
next
  case False
  have h: "holder (ws ! i) = [b]" using False assms(3) by simp
  have run: "d_running d" and g: "d_groups d \<noteq> []" using assms(1) by (auto simp: disp_inv_def)
  note drop = wtok_hand(2) [OF assms(2) h, of W_Wait, simplified]
  show ?thesis
  proof (cases result)
    case HR_READY_AGAIN
    let ?d' = "on_group (worker_group i d) (\<lambda>g. g\<lparr>readyChannels := readyChannels g @ [b]\<rparr>) d"
    have "disp_inv ?d' (ws[i := W_Wait])"
      by (rule disp_inv_tokens [OF assms(1)]) (use g drop in \<open>simp_all add: gtok_push_ready\<close>)
    then show ?thesis using False HR_READY_AGAIN run by (simp add: DispatchLoop_requeue_def)
  next
    case HR_RETRY_LATER
    obtain ms delay where r: "PrepareRetry b d = (on_channel b (\<lambda>c. c\<lparr>ch_retryDelayMs := ms\<rparr>) d, Some delay)"
      using PrepareRetry_effect(2) False run by blast
    let ?d = "on_channel b (\<lambda>c. c\<lparr>ch_retryDelayMs := ms\<rparr>) d"
    let ?d' = "InsertRetryLocked (GetReadyGroupIndex b ?d) (now + delay * 1000000, b) ?d"
    have inv: "disp_inv ?d ws"
      by (rule disp_inv_on_channel [OF assms(1)]) (simp_all add: deliverable_def)
    have bound: "GetReadyGroupIndex b ?d < length (d_groups ?d)" using g by (intro GetReadyGroupIndex_bound) simp
    have "disp_inv ?d' (ws[i := W_Wait])"
    proof (rule disp_inv_tokens [OF inv])
      fix a
      show "gtok ?d' a + wtok (ws[i := W_Wait]) a \<le> gtok ?d a + wtok ws a"
        and "gtok ?d' a + wtok (ws[i := W_Wait]) a = gtok ?d a + wtok ws a"
        using gtok_InsertRetry [OF bound] drop [of a] by simp_all
    qed (simp_all add: InsertRetryLocked_def)
    then show ?thesis using False HR_RETRY_LATER run r by (simp add: DispatchLoop_requeue_def)
  qed (use False in simp)
qed

lemmas disp_inv_client = disp_inv_Enqueue disp_inv_AddChannel disp_inv_RemoveChannel disp_inv_SetSnapshotRevision
lemmas disp_inv_fan = disp_inv_FanOut_take disp_inv_FanOut_overflow disp_inv_FanOut_deliver
lemmas disp_inv_worker =
  disp_inv_poll disp_inv_prepare disp_inv_notified disp_inv_remove disp_inv_commit disp_inv_requeue

lemma dispatch_step_inv:
  assumes "dispatch_step s s'" "disp_inv (ds_disp s) (ds_workers s)"
  shows "disp_inv (ds_disp s') (ds_workers s')"
  using assms
proof (cases rule: dispatch_step.cases)
  case (worker_notified i b needReWatch m events out status d)
  then show ?thesis using disp_inv_notified [OF assms(2) worker_notified(2-5)] by simp
qed (auto intro: disp_inv_client disp_inv_fan disp_inv_worker simp: RemoveRewatchRequiredWatcher_def)

lemma dispatch_reachable_inv:
  "0 < threads \<Longrightarrow> dispatch_reachable threads workers s \<Longrightarrow> disp_inv (ds_disp s) (ds_workers s)"
proof (rotate_tac 1, induction rule: dispatch_reachable.induct)
  case reach_init
  have "gtok (fst (Dispatcher_Start None (WatchDispatcher_init threads))) a = 0" for a
    by (simp add: gtok_def Dispatcher_Start_def WatchDispatcher_init_def group_tokens_def Let_def)
  moreover have "wtok (replicate workers W_Wait) a = 0" for a
    by (simp add: wtok_def)
  ultimately show ?case using reach_init
    by (simp add: disp_inv_def) (simp add: Dispatcher_Start_def WatchDispatcher_init_def MAX_READY_CHANNEL_GROUPS_def Let_def)
qed (auto intro: dispatch_step_inv)


text \<open>
  C15. No wake-up is lost and no channel is handled twice. Whatever the interleaving of client
  calls, the fan-out thread and the workers, a live channel is in at most one place among all
  ready queues, retry queues and workers, so two workers never notify the same watcher at the
  same time; and a live channel that has something to deliver is in exactly one of them.
\<close>

theorem dispatch_no_lost_wakeup:
  assumes "0 < threads" and "dispatch_reachable threads workers s"
    and "map_of (d_channels (ds_disp s)) w = Some a"
  shows "gtok (ds_disp s) a + wtok (ds_workers s) a \<le> 1
    \<and> (deliverable (d_heap (ds_disp s) a) \<longrightarrow> gtok (ds_disp s) a + wtok (ds_workers s) a = 1)"
proof -
  have inv: "disp_inv (ds_disp s) (ds_workers s)" using assms(1,2) by (rule dispatch_reachable_inv)
  then have "a < d_nextAddr (ds_disp s)" "\<not> ch_cancelled (d_heap (ds_disp s) a)"
    using assms(3) by (auto simp: disp_inv_def)
  then show ?thesis using disp_inv_chan [OF inv, of a] by (auto simp: chan_ok_def)
qed

definition dispatch_ex :: DispatchState where
  "dispatch_ex = \<lparr>ds_registry = WatchRegistry_init,
     ds_disp = SetSnapshotRevision 7 3 (AddChannel 7 ''h'' (fst (Dispatcher_Start None (WatchDispatcher_init 1)))),
     ds_fan = F_Wait, ds_workers = [W_Wait]\<rparr>"

lemma dispatch_ex_reachable: "dispatch_reachable 1 1 dispatch_ex"
proof -
  let ?s0 = "\<lparr>ds_registry = WatchRegistry_init, ds_disp = fst (Dispatcher_Start None (WatchDispatcher_init 1)),
              ds_fan = F_Wait, ds_workers = replicate 1 W_Wait\<rparr>"
  have "dispatch_reachable 1 1 ?s0" by (rule reach_init)
  from reach_step [OF reach_step [OF this step_add [of _ 7 "''h''"]] step_snapshot [of _ 7 3]]
  show ?thesis by (simp add: dispatch_ex_def)
qed

theorem dispatch_no_lost_wakeup_witness:
  "map_of (d_channels (ds_disp dispatch_ex)) 7 = Some 0
    \<and> gtok (ds_disp dispatch_ex) 0 + wtok (ds_workers dispatch_ex) 0 \<le> 1"
proof -
  have "map_of (d_channels (ds_disp dispatch_ex)) 7 = Some 0"
    by (simp add: dispatch_ex_def SetSnapshotRevision_def AddChannel_def Dispatcher_Start_def WatchDispatcher_init_def
        Let_def on_channel_def newChannel_def)
  with dispatch_no_lost_wakeup [OF _ dispatch_ex_reachable this] show ?thesis by simp
qed

section \<open>Delivery\<close>

lemma collectBatch_spec:
  assumes "collectBatch b m0 es = (events, m)"
  shows "\<exists>rest. es = events @ rest" "es \<noteq> [] \<Longrightarrow> events \<noteq> []"
    and "m0 \<le> m" "\<forall>e \<in> set events. ev_revision e \<le> m" "m = m0 \<or> m \<in> ev_revision ` set events"
proof -
  have "(\<exists>rest. es = events @ rest) \<and> (es \<noteq> [] \<longrightarrow> events \<noteq> []) \<and> m0 \<le> m
    \<and> (\<forall>e \<in> set events. ev_revision e \<le> m) \<and> (m = m0 \<or> m \<in> ev_revision ` set events)"
    using assms
  proof (induction b m0 es arbitrary: events m rule: collectBatch.induct)
    case (2 b m0 e es)
    show ?case
    proof (cases "WATCH_EVENT_BATCH_MERGE_THRESHOLD_BYTES < b + eventBytes e")
      case True
      with "2.prems" show ?thesis by (auto simp: Let_def)
    next
      case False
      with "2.prems" obtain events' where ev: "events = e # events'"
        and rec: "collectBatch (b + eventBytes e) (max m0 (ev_revision e)) es = (events', m)"
        by (auto simp: Let_def split: prod.splits)
      from "2.IH" [OF refl refl False rec] show ?thesis unfolding ev by auto
    qed
  qed simp
  then show "\<exists>rest. es = events @ rest" "es \<noteq> [] \<Longrightarrow> events \<noteq> []"
    "m0 \<le> m" "\<forall>e \<in> set events. ev_revision e \<le> m" "m = m0 \<or> m \<in> ev_revision ` set events" by auto
qed

lemma dropWhile_prefix:
  assumes "\<forall>x \<in> set xs. P x" "ys \<noteq> [] \<Longrightarrow> \<not> P (hd ys)"
  shows "dropWhile P (xs @ ys) = ys"
  using assms by (induction xs) (cases ys, auto)

lemma commit_queue:
  "\<not> ch_cancelled (d_heap d a) \<Longrightarrow> commitChannel m a d = (d', result) \<Longrightarrow>
     ch_queue (d_heap d' a) = dropWhile (\<lambda>e. ev_revision e \<le> m) (ch_queue (d_heap d a))"
  by (auto simp: commitChannel_def Let_def simp del: dropWhile_eq_Nil_conv split: if_splits)

text \<open>
  C16. A successful notification removes exactly what was delivered. When the revisions in a
  channel's queue are strictly increasing, the batch handed to the watcher is a non-empty run
  of at most 32 events, right after those the snapshot already covers; and the commit, which
  may run after more events have been appended, leaves precisely the events that were not in
  the batch, in order. So no event is lost, repeated or reordered.
\<close>

theorem commit_removes_delivered:
  assumes "d_running d" and "PrepareChannelEvents a d = (d1, Some (False, m, events))"
    and "sorted_wrt (<) (map ev_revision (ch_queue (d_heap d1 a) @ later))"
    and "ch_queue (d_heap d2 a) = ch_queue (d_heap d1 a) @ later" and "\<not> ch_cancelled (d_heap d2 a)"
    and "commitChannel m a d2 = (d3, result)"
  shows "\<exists>covered rest. ch_queue (d_heap d a) = covered @ events @ rest
    \<and> list_all (\<lambda>e. ev_revision e \<le> ch_snapshotRevision (d_heap d a)) covered
    \<and> list_all (\<lambda>e. ch_snapshotRevision (d_heap d a) < ev_revision e) events
    \<and> events \<noteq> [] \<and> length events \<le> 32 \<and> ch_queue (d_heap d3 a) = rest @ later"
proof -
  let ?snap = "ch_snapshotRevision (d_heap d a)"
  from assms(2,1) obtain queue where snap: "0 < ?snap"
    and q: "queue = dropWhile (\<lambda>e. ev_revision e \<le> ?snap) (ch_queue (d_heap d a))" "queue \<noteq> []"
    and batch: "collectBatch 0 0 (take MAX_WATCH_EVENTS_PER_BATCH queue) = (events, m)"
    and d1: "d1 = on_channel a (\<lambda>c. c\<lparr>ch_queue := queue\<rparr>) d"
    by (cases rule: Prepare_cases) auto
  note c = collectBatch_spec [OF batch]
  obtain r0 where r0: "take MAX_WATCH_EVENTS_PER_BATCH queue = events @ r0" using c(1) by blast
  define rest where "rest = r0 @ drop MAX_WATCH_EVENTS_PER_BATCH queue"
  have queue: "queue = events @ rest"
    using append_take_drop_id [of MAX_WATCH_EVENTS_PER_BATCH queue] r0 by (simp add: rest_def)
  have ne: "events \<noteq> []" using c(2) q(2) by (simp add: MAX_WATCH_EVENTS_PER_BATCH_def)
  have sorted: "sorted_wrt (<) (map ev_revision (events @ rest @ later))"
    using assms(3) by (simp add: d1 queue)
  have "\<not> ev_revision (hd queue) \<le> ?snap" using hd_dropWhile q by blast
  then have first: "?snap < ev_revision (hd events)" using ne by (simp add: queue)
  have above: "?snap < ev_revision e" if "e \<in> set events" for e
  proof (cases "e = hd events")
    case False
    with that ne sorted have "ev_revision (hd events) < ev_revision e" by (cases events) auto
    with first show ?thesis by simp
  qed (use first in simp)
  have m: "m \<in> ev_revision ` set events"
    using c(4,5) first snap hd_in_set [OF ne] by fastforce
  have "dropWhile (\<lambda>e. ev_revision e \<le> m) (events @ rest @ later) = rest @ later"
  proof (rule dropWhile_prefix)
    assume "rest @ later \<noteq> []"
    then have "hd (rest @ later) \<in> set rest \<union> set later" using hd_in_set [of "rest @ later"] by simp
    with sorted m show "\<not> ev_revision (hd (rest @ later)) \<le> m"
      by (auto simp: sorted_wrt_append not_le)
  qed (use c(4) in blast)
  then have "ch_queue (d_heap d3 a) = rest @ later"
    using commit_queue [OF assms(5,6)] by (simp add: assms(4) d1 queue)
  moreover have "ch_queue (d_heap d a) = takeWhile (\<lambda>e. ev_revision e \<le> ?snap) (ch_queue (d_heap d a)) @ events @ rest"
    using takeWhile_dropWhile_id q(1) queue by metis
  moreover have "length events \<le> 32"
    using arg_cong [OF r0, of length] by (simp add: MAX_WATCH_EVENTS_PER_BATCH_def)
  ultimately show ?thesis
    using ne above by (auto simp: list_all_iff dest: set_takeWhileD)
qed


definition put_event :: "string \<Rightarrow> int \<Rightarrow> WatchEvent" where
  "put_event key revision = \<lparr>ev_type = PUT,
     ev_entry = \<lparr>kve_key = key, kve_value = ''v'', kve_version = 1, kve_modRevision = revision\<rparr>,
     ev_revision = revision\<rparr>"

definition channel_ex :: "WatchEvent list \<Rightarrow> WatchDispatcher" where
  "channel_ex queue = on_channel 0 (\<lambda>c. c\<lparr>ch_queue := queue, ch_snapshotRevision := 3, ch_dispatchQueued := True\<rparr>)
     (AddChannel 7 ''h'' (fst (Dispatcher_Start None (WatchDispatcher_init 1))))"

lemmas channel_exec =
  channel_ex_def put_event_def AddChannel_def Dispatcher_Start_def WatchDispatcher_init_def Let_def newChannel_def
  PrepareChannelEvents_def commitChannel_def eventBytes_def MAX_WATCH_EVENTS_PER_BATCH_def
  WATCH_EVENT_BATCH_MERGE_THRESHOLD_BYTES_def WATCH_EVENT_WIRE_OVERHEAD_BYTES_def

theorem commit_removes_delivered_witness:
  "let d = channel_ex [put_event ''k'' 3, put_event ''k'' 4]; d1 = fst (PrepareChannelEvents 0 d);
       d2 = on_channel 0 (\<lambda>c. c\<lparr>ch_queue := ch_queue c @ [put_event ''k'' 6]\<rparr>) d1
   in \<exists>covered rest. ch_queue (d_heap d 0) = covered @ [put_event ''k'' 4] @ rest
    \<and> list_all (\<lambda>e. ev_revision e \<le> 3) covered
    \<and> ch_queue (d_heap (fst (commitChannel 4 0 d2)) 0) = rest @ [put_event ''k'' 6]"
proof -
  let ?d = "channel_ex [put_event ''k'' 3, put_event ''k'' 4]"
  let ?d1 = "fst (PrepareChannelEvents 0 ?d)"
  let ?d2 = "on_channel 0 (\<lambda>c. c\<lparr>ch_queue := ch_queue c @ [put_event ''k'' 6]\<rparr>) ?d1"
  have "PrepareChannelEvents 0 ?d = (?d1, Some (False, 4, [put_event ''k'' 4]))" "d_running ?d"
    "ch_snapshotRevision (d_heap ?d 0) = 3"
    "\<not> ch_cancelled (d_heap ?d2 0)" "ch_queue (d_heap ?d2 0) = ch_queue (d_heap ?d1 0) @ [put_event ''k'' 6]"
    "sorted_wrt (<) (map ev_revision (ch_queue (d_heap ?d1 0) @ [put_event ''k'' 6]))"
    by (simp_all add: channel_exec)
  with commit_removes_delivered [of ?d 0 ?d1 4 "[put_event ''k'' 4]" "[put_event ''k'' 6]" ?d2
      "fst (commitChannel 4 0 ?d2)" "snd (commitChannel 4 0 ?d2)"]
  show ?thesis unfolding Let_def by auto
qed

text \<open>
  Without strictly increasing revisions the commit drops undelivered events. All events of one
  range deletion carry the same revision; when more than 32 of them are queued, a batch holds
  the first 32 and the commit then removes every one of them.
\<close>

theorem commit_drops_equal_revisions:
  assumes "d_running d" "\<not> ch_cancelled (d_heap d a)" "\<not> ch_needReWatch (d_heap d a)"
    and "0 < ch_snapshotRevision (d_heap d a)" "ch_snapshotRevision (d_heap d a) < rv"
    and "32 < length (ch_queue (d_heap d a))" "\<And>e. e \<in> set (ch_queue (d_heap d a)) \<Longrightarrow> ev_revision e = rv"
    and "PrepareChannelEvents a d = (d1, Some (needReWatch, m, events))"
    and "commitChannel m a d1 = (d2, result)"
  shows "length events \<le> 32 \<and> ch_queue (d_heap d2 a) = []"
proof -
  let ?q = "ch_queue (d_heap d a)"
  have keep: "dropWhile (\<lambda>e. ev_revision e \<le> ch_snapshotRevision (d_heap d a)) ?q = ?q"
    using assms(5-7) by (cases ?q) auto
  from assms(8,1) have batch: "collectBatch 0 0 (take MAX_WATCH_EVENTS_PER_BATCH ?q) = (events, m)"
    and d1: "d1 = on_channel a (\<lambda>c. c\<lparr>ch_queue := ?q\<rparr>) d"
    using assms(2,3) by (cases rule: Prepare_cases; simp add: keep)+
  note c = collectBatch_spec [OF batch]
  obtain r0 where r0: "take MAX_WATCH_EVENTS_PER_BATCH ?q = events @ r0" using c(1) by blast
  have "?q \<noteq> []" using assms(6) by auto
  then have ne: "events \<noteq> []" using c(2) by (simp add: MAX_WATCH_EVENTS_PER_BATCH_def)
  have "hd events \<in> set (take MAX_WATCH_EVENTS_PER_BATCH ?q)" using r0 ne by simp
  then have "hd events \<in> set ?q" by (rule in_set_takeD)
  then have "rv \<le> m" using c(4) ne assms(7) hd_in_set by metis
  then have "dropWhile (\<lambda>e. ev_revision e \<le> m) ?q = []" using assms(7) by auto
  then have "ch_queue (d_heap d2 a) = []"
    using commit_queue [OF _ assms(9)] assms(2) by (simp add: d1)
  moreover have "length events \<le> 32"
    using arg_cong [OF r0, of length] by (simp add: MAX_WATCH_EVENTS_PER_BATCH_def)
  ultimately show ?thesis by simp
qed

text \<open>
  A rewatch signal of the overflow path has revision 0. When it is raised while a notification
  of the channel is in flight, the commit of that notification removes it: the channel keeps
  \<^verbatim>\<open>needReWatch\<close>, is no longer scheduled, and accepts no further event.
\<close>

theorem rewatch_signal_lost:
  assumes "\<not> ch_cancelled (d_heap d a)" "\<not> ch_needReWatch (d_heap d a)" "ch_dispatchQueued (d_heap d a)" "0 \<le> m"
    and "commitChannel m a (rewatchChannel a d) = (d', result)"
  shows "result = HR_NONE \<and> ch_needReWatch (d_heap d' a) \<and> ch_queue (d_heap d' a) = []
    \<and> \<not> ch_dispatchQueued (d_heap d' a)
    \<and> (map_of (d_channels d') w = Some a \<longrightarrow> FanOut_deliver event w d' = d')"
proof -
  have r: "rewatchChannel a d =
      on_channel a (\<lambda>c. c\<lparr>ch_queue := [MakeRewatchEvent None], ch_needReWatch := True\<rparr>) d"
    using assms(1-3) by (simp add: rewatchChannel_def ScheduleChannelLocked_def)
  show ?thesis
    using assms(5) unfolding r using assms(1,4)
    by (auto simp: commitChannel_def MakeRewatchEvent_def Let_def FanOut_deliver_def)
qed


section \<open>Bounds\<close>

lemma jitter_bound:
  assumes "100 \<le> ms" "ms \<le> 5000"
  shows "\<bar>sint (seed mod (word_of_int (ms * 20 div 100 * 2 + 1) :: 64 word)) - ms * 20 div 100\<bar> \<le> ms * 20 div 100"
proof -
  define n where "n = ms * 20 div 100 * 2 + 1"
  have small: "signed_take_bit (LENGTH(64) - Suc 0) x = x" if "0 \<le> x" "x \<le> 2001" for x :: int
    using that by (intro signed_take_bit_int_eq_self) simp_all
  have n: "0 < n" "n \<le> 2001" using assms by (auto simp: n_def)
  then have u: "uint (word_of_int n :: 64 word) = n" by (simp add: uint_word_of_int take_bit_int_eq_self)
  have "uint (seed mod (word_of_int n :: 64 word)) < n"
    unfolding uint_mod u using n by (simp add: pos_mod_bound)
  moreover have "sint (seed mod (word_of_int n :: 64 word)) = uint (seed mod (word_of_int n :: 64 word))"
    unfolding sint_uint using calculation n by (intro small) simp_all
  ultimately have "0 \<le> sint (seed mod (word_of_int n :: 64 word))" "sint (seed mod (word_of_int n :: 64 word)) < n"
    by simp_all
  then show ?thesis unfolding abs_le_iff n_def by linarith
qed

text \<open>
  Retries back off within bounds. The delay before a retry is between 100 ms and 5 s and
  within 20\% of the channel's back-off value, which starts at 100 ms, doubles with each
  failure and is capped at 5 s.
\<close>

lemma PrepareRetry_bounds:
  assumes "PrepareRetry a d = (d', Some delay)"
    and "ch_retryDelayMs (d_heap d a) = 0
         \<or> 100 \<le> ch_retryDelayMs (d_heap d a) \<and> ch_retryDelayMs (d_heap d a) \<le> 5000"
  shows "100 \<le> delay \<and> delay \<le> 5000
    \<and> ch_retryDelayMs (d_heap d' a) =
        (if ch_retryDelayMs (d_heap d a) = 0 then 100 else min (2 * ch_retryDelayMs (d_heap d a)) 5000)
    \<and> \<bar>delay - ch_retryDelayMs (d_heap d' a)\<bar> \<le> ch_retryDelayMs (d_heap d' a) * 20 div 100"
proof -
  let ?old = "ch_retryDelayMs (d_heap d a)"
  define ms where "ms = (if ?old = 0 then 100 else min (?old * 2) 5000)"
  have ms: "100 \<le> ms" "ms \<le> 5000" using assms(2) by (auto simp: ms_def)
  define off where "off = sint (xor (word_of_int (ch_watchId (d_heap d a)) :: 64 word) (word_of_int ms)
      mod word_of_int (ms * 20 div 100 * 2 + 1)) - ms * 20 div 100"
  have live: "(\<not> d_running d \<or> ch_cancelled (d_heap d a)) = False"
    using assms(1) PrepareRetry_effect(1) [of d a] by auto
  have "PrepareRetry a d = (on_channel a (\<lambda>c. c\<lparr>ch_retryDelayMs := ms\<rparr>) d, Some (min (max (ms + off) 100) 5000))"
    by (simp only: PrepareRetry_def off_def ms_def Let_def INITIAL_RETRY_DELAY_MS_def live if_False
        MAX_RETRY_DELAY_MS_def RETRY_DELAY_MULTIPLIER_def RETRY_JITTER_PERCENT_def PERCENT_SCALE_def)
  then have delay: "delay = min (max (ms + off) 100) 5000" and d': "ch_retryDelayMs (d_heap d' a) = ms"
    using assms(1) by auto
  have "\<bar>off\<bar> \<le> ms * 20 div 100" unfolding off_def using ms by (rule jitter_bound)
  moreover have "\<bar>delay - ms\<bar> \<le> \<bar>off\<bar>" "100 \<le> delay" "delay \<le> 5000"
    using ms unfolding delay by linarith+
  ultimately show ?thesis unfolding d' using order.trans by (simp add: ms_def mult.commute)
qed

lemma PrepareRetry_bounds_witness:
  "let d' = fst (PrepareRetry 0 (channel_ex [])) in
   100 \<le> the (snd (PrepareRetry 0 (channel_ex []))) \<and> ch_retryDelayMs (d_heap d' 0) = 100"
proof -
  have "\<not> ch_cancelled (d_heap (channel_ex []) 0)" "d_running (channel_ex [])"
    and zero: "ch_retryDelayMs (d_heap (channel_ex []) 0) = 0"
    by (simp_all add: channel_exec)
  then obtain d' delay where r: "PrepareRetry 0 (channel_ex []) = (d', Some delay)"
    using PrepareRetry_effect(2) by blast
  show ?thesis using PrepareRetry_bounds [OF r] zero by (simp add: r)
qed

definition queue_bound :: "WatchDispatcher \<Rightarrow> bool" where
  "queue_bound d \<longleftrightarrow> length (d_pendingQueue d) \<le> MAX_PENDING_EVENTS
     \<and> (\<forall>a. ch_backpressureLimit (d_heap d a) = 1024 \<and> length (ch_queue (d_heap d a)) \<le> 1024)"


lemma queue_bound_on_channel:
  "queue_bound d \<Longrightarrow> ch_backpressureLimit (f (d_heap d b)) = ch_backpressureLimit (d_heap d b)
    \<Longrightarrow> length (ch_queue (f (d_heap d b))) \<le> 1024 \<Longrightarrow> queue_bound (on_channel b f d)"
  by (simp add: queue_bound_def on_channel_def)

lemma queue_bound_same [simp]:
  "queue_bound (on_group i g d) = queue_bound d"
  "queue_bound (RemoveReverseIndexLocked b d) = queue_bound d"
  "queue_bound (d\<lparr>d_notifyFailures := n\<rparr>) = queue_bound d" "queue_bound (d\<lparr>d_pendingOverflow := x\<rparr>) = queue_bound d"
  "queue_bound (d\<lparr>d_channels := cs\<rparr>) = queue_bound d" "queue_bound (d\<lparr>d_watchIdsByWatcher := ws\<rparr>) = queue_bound d"
  by (simp_all add: queue_bound_def on_group_def RemoveReverseIndexLocked_def Let_def split: option.split)

lemma queue_boundD: "queue_bound d \<Longrightarrow> ch_backpressureLimit (d_heap d b) = 1024 \<and> length (ch_queue (d_heap d b)) \<le> 1024"
  by (simp add: queue_bound_def)

lemma queue_bound_Schedule: "queue_bound d \<Longrightarrow> queue_bound (ScheduleChannelLocked b d)"
  by (simp add: ScheduleChannelLocked_def Let_def queue_bound_on_channel queue_boundD)

lemma queue_bound_RemoveChannel: "queue_bound d \<Longrightarrow> queue_bound (RemoveChannel w d)"
  by (simp add: RemoveChannel_def CancelChannel_def Let_def queue_bound_on_channel split: option.split)

lemma queue_bound_AddChannel: "queue_bound d \<Longrightarrow> queue_bound (AddChannel w addr d)"
proof -
  assume "queue_bound d"
  then have "queue_bound (d\<lparr>d_heap := (d_heap d)(d_nextAddr d := newChannel w addr), d_nextAddr := Suc (d_nextAddr d)\<rparr>)"
    by (simp add: queue_bound_def newChannel_def)
  then show ?thesis
    by (simp add: AddChannel_def CancelChannel_def Let_def queue_bound_on_channel split: option.split)
qed

lemma queue_bound_snapshot: "queue_bound d \<Longrightarrow> queue_bound (SetSnapshotRevision w rv d)"
  by (simp add: SetSnapshotRevision_def Let_def queue_bound_on_channel queue_bound_Schedule queue_boundD split: option.split)

lemma queue_bound_deliver: "queue_bound d \<Longrightarrow> queue_bound (FanOut_deliver event w d)"
  by (auto simp: FanOut_deliver_def queue_boundD split: option.split
      intro!: queue_bound_Schedule queue_bound_on_channel)

lemma queue_bound_overflow: "queue_bound d \<Longrightarrow> queue_bound (FanOut_overflow d)"
proof -
  have "queue_bound d \<Longrightarrow> queue_bound (fold (\<lambda>p. rewatchChannel (snd p)) ps d)" for ps :: "(int \<times> nat) list" and d
    by (induction ps arbitrary: d) (simp_all add: rewatchChannel_def queue_bound_Schedule queue_bound_on_channel)
  then show "queue_bound d \<Longrightarrow> queue_bound (FanOut_overflow d)"
    by (simp add: FanOut_overflow_def ScheduleAllChannelsForRewatch_def Let_def)
qed

lemma queue_bound_poll: "queue_bound d \<Longrightarrow> WaitForReadyChannel_poll now i d = (d', found) \<Longrightarrow> queue_bound d'"
  by (auto simp: WaitForReadyChannel_poll_def Let_def split: prod.splits)

lemma length_dropWhile_queue: "queue_bound d \<Longrightarrow> length (dropWhile P (ch_queue (d_heap d b))) \<le> 1024"
  using queue_boundD length_dropWhile_le order.trans by blast

lemma queue_bound_prepare:
  assumes "queue_bound d" "PrepareChannelEvents b d = (d', prepared)"
  shows "queue_bound d'"
  using assms unfolding PrepareChannelEvents_def
  by (auto simp: Let_def queue_boundD length_dropWhile_queue on_channel_on_channel split: if_splits prod.splits
      intro!: queue_bound_on_channel)

lemma queue_bound_commit: "queue_bound d \<Longrightarrow> commitChannel m b d = (d', result) \<Longrightarrow> queue_bound d'"
  by (auto simp: commitChannel_def Let_def length_dropWhile_queue on_channel_on_channel split: if_splits
      intro!: queue_bound_on_channel)

lemma queue_bound_requeue: "queue_bound d \<Longrightarrow> queue_bound (DispatchLoop_requeue now i b result d)"
  using PrepareRetry_effect [of d b]
  by (auto simp: DispatchLoop_requeue_def InsertRetryLocked_def queue_boundD split: HandleResult.split
      intro!: queue_bound_on_channel)

lemma queue_bound_Enqueue: "queue_bound d \<Longrightarrow> queue_bound (Enqueue event d)"
  by (simp add: queue_bound_def Enqueue_def)

lemma queue_bound_take: "queue_bound d \<Longrightarrow> FanOut_take d = (batch, d') \<Longrightarrow> queue_bound d'"
  by (auto simp: queue_bound_def FanOut_take_def Let_def)

text \<open>
  C18. The queues are bounded. In every reachable state the pending queue holds at most 10000
  events and the queue of every channel at most 1024, however many mutations are committed and
  however slow the watchers are.
\<close>

theorem dispatch_queues_bounded:
  assumes "dispatch_reachable threads workers s"
  shows "length (d_pendingQueue (ds_disp s)) \<le> 10000 \<and> length (ch_queue (d_heap (ds_disp s) a)) \<le> 1024"
proof -
  have "queue_bound (ds_disp s)" using assms
  proof (induction rule: dispatch_reachable.induct)
    case reach_init
    then show ?case
      by (simp add: queue_bound_def Dispatcher_Start_def WatchDispatcher_init_def newChannel_def Let_def)
  next
    case (reach_step s s')
    from reach_step(2) reach_step.IH show ?case
      by (cases rule: dispatch_step.cases)
        (auto simp: RemoveRewatchRequiredWatcher_def intro: queue_bound_Enqueue queue_bound_AddChannel
          queue_bound_RemoveChannel queue_bound_snapshot queue_bound_take queue_bound_overflow queue_bound_deliver
          queue_bound_poll queue_bound_prepare queue_bound_commit queue_bound_requeue)
  qed
  then show ?thesis by (simp add: queue_bound_def MAX_PENDING_EVENTS_def)
qed

theorem dispatch_queues_bounded_witness:
  "length (d_pendingQueue (ds_disp dispatch_ex)) \<le> 10000 \<and> length (ch_queue (d_heap (ds_disp dispatch_ex) 0)) \<le> 1024"
  using dispatch_queues_bounded [OF dispatch_ex_reachable, of 0] .


section \<open>Overflow\<close>

lemma Schedule_heap_flags:
  "ch_cancelled (d_heap (ScheduleChannelLocked b d) a) = ch_cancelled (d_heap d a)"
  "ch_needReWatch (d_heap (ScheduleChannelLocked b d) a) = ch_needReWatch (d_heap d a)"
  by (simp_all add: ScheduleChannelLocked_def Let_def)

lemma rewatchChannel_flags:
  "ch_cancelled (d_heap (rewatchChannel b d) a) = ch_cancelled (d_heap d a)"
  "ch_needReWatch (d_heap (rewatchChannel b d) a) =
     (ch_needReWatch (d_heap d a) \<or> a = b \<and> \<not> ch_cancelled (d_heap d a))"
  by (auto simp: rewatchChannel_def Schedule_heap_flags)

lemma rewatch_fold_flags:
  fixes ps :: "(int \<times> nat) list"
  shows "ch_needReWatch (d_heap (fold (\<lambda>p. rewatchChannel (snd p)) ps d) a) =
     (ch_needReWatch (d_heap d a) \<or> a \<in> snd ` set ps \<and> \<not> ch_cancelled (d_heap d a))"
  by (induction ps arbitrary: d) (auto simp: rewatchChannel_flags)

text \<open>
  C17. Overflow of the pending queue is never silent. An event that finds the queue full raises
  the overflow flag, and the next round of the fan-out thread then marks every live channel
  for rewatch: each watcher whose events may have been dropped is told to rebuild.
\<close>

theorem overflow_marks_every_channel:
  assumes "0 < threads" and "dispatch_reachable threads workers s"
    and "length (d_pendingQueue (ds_disp s)) = 10000"
    and "map_of (d_channels (ds_disp s)) w = Some a"
  shows "ch_needReWatch (d_heap (FanOut_overflow (snd (FanOut_take (Enqueue event (ds_disp s))))) a)"
proof -
  let ?d = "ds_disp s"
  let ?d' = "snd (FanOut_take (Enqueue event ?d))"
  have "disp_inv ?d (ds_workers s)" using assms(1,2) by (rule dispatch_reachable_inv)
  then have "\<not> ch_cancelled (d_heap ?d a)" using assms(4) by (simp add: disp_inv_def)
  moreover have "(w, a) \<in> set (d_channels ?d)" using assms(4) by (rule map_of_SomeD)
  moreover have "d_heap ?d' = d_heap ?d" "d_channels ?d' = d_channels ?d" "d_pendingOverflow ?d'"
    using assms(3) by (simp_all add: FanOut_take_def Enqueue_def Let_def MAX_PENDING_EVENTS_def)
  ultimately show ?thesis
    by (auto simp: FanOut_overflow_def ScheduleAllChannelsForRewatch_def Let_def rewatch_fold_flags intro: rev_image_eqI)
qed

lemma enqueue_many:
  assumes "dispatch_reachable threads workers s" "length (d_pendingQueue (ds_disp s)) + n \<le> 10000"
  shows "\<exists>s'. dispatch_reachable threads workers s' \<and> length (d_pendingQueue (ds_disp s')) = length (d_pendingQueue (ds_disp s)) + n
    \<and> d_channels (ds_disp s') = d_channels (ds_disp s)"
  using assms(2)
proof (induction n)
  case (Suc n)
  then obtain s' where s': "dispatch_reachable threads workers s'"
    "length (d_pendingQueue (ds_disp s')) = length (d_pendingQueue (ds_disp s)) + n"
    "d_channels (ds_disp s') = d_channels (ds_disp s)" by auto
  from reach_step [OF s'(1) step_enqueue [of _ "put_event [] 0"]] s'(2,3) Suc.prems show ?case
    by (intro exI [of _ "s'\<lparr>ds_disp := Enqueue (put_event [] 0) (ds_disp s')\<rparr>"])
      (simp add: Enqueue_def MAX_PENDING_EVENTS_def)
qed (use assms(1) in auto)

theorem overflow_marks_every_channel_witness:
  "\<exists>s. dispatch_reachable 1 1 s \<and> length (d_pendingQueue (ds_disp s)) = 10000
    \<and> ch_needReWatch (d_heap (FanOut_overflow (snd (FanOut_take (Enqueue (put_event ''k'' 9) (ds_disp s))))) 0)"
proof -
  have ex: "map_of (d_channels (ds_disp dispatch_ex)) 7 = Some 0" "d_pendingQueue (ds_disp dispatch_ex) = []"
    by (simp_all add: dispatch_ex_def SetSnapshotRevision_def AddChannel_def Dispatcher_Start_def WatchDispatcher_init_def
        Let_def on_channel_def newChannel_def)
  then obtain s where s: "dispatch_reachable 1 1 s" "length (d_pendingQueue (ds_disp s)) = 10000"
    "map_of (d_channels (ds_disp s)) 7 = Some 0"
    using enqueue_many [OF dispatch_ex_reachable, of 10000] by (metis add_0 le_refl list.size(3))
  have "ch_needReWatch (d_heap (FanOut_overflow (snd (FanOut_take (Enqueue (put_event ''k'' 9) (ds_disp s))))) 0)"
    by (rule overflow_marks_every_channel [OF _ s]) simp
  with s show ?thesis by blast
qed

end
