(* ===== verification/Coordinator_Store.thy ===== *)
theory Coordinator_Store
  imports Kv_Store Ttl_Manager Watch_Registry Watch_Dispatcher
begin

text \<open>
  The coordinator store, \<^verbatim>\<open>src/datasystem/common/coordinator/coordinator_store.{h,cpp}\<close>: the
  facade that binds the key-value store, the watch registry and dispatcher and the expiry
  schedule, and the properties that only hold of their composition.

  The components are optional because the pointers may be null. The value of an operation that
  schedules a TTL is \<open>None\<close> when \<open>TtlManager_Schedule\<close> is undefined. The committed-mutation observer is external
  code: the calls it receives are recorded in \<open>co_observed\<close>.

  The second half follows a watch. \<^verbatim>\<open>WatchRange\<close> registers it and reads its snapshot later, under another lock, so
  these are two definitions, and \<open>store_step\<close> are the mutations of the store and the fan-out passes that may run in
  between and afterwards. The interleavings of leases are in a theory of their own.
\<close>

section \<open>The facade\<close>

record CoordinatorStore =
  co_memKvStore :: "MemoryKvStore option"
  co_watchRegistry :: "WatchRegistry option"
  co_watchDispatcher :: "WatchDispatcher option"
  co_ttlManager :: "TtlManager option"
  co_observer :: bool
  co_observed :: "(WatchEventType \<times> string) list"
  co_shutdown :: bool

text \<open>The constructor, with \<^verbatim>\<open>BindCallbacks\<close>.\<close>

definition CoordinatorStore_new ::
  "MemoryKvStore option \<Rightarrow> WatchRegistry option \<Rightarrow> WatchDispatcher option \<Rightarrow> TtlManager option \<Rightarrow> CoordinatorStore" where
  "CoordinatorStore_new memKvStore watchRegistry watchDispatcher ttlManager =
     \<lparr>co_memKvStore = (if watchDispatcher \<noteq> None
                       then map_option (MemoryKvStore_SetMutationCallback True) memKvStore else memKvStore),
      co_watchRegistry = watchRegistry, co_watchDispatcher = watchDispatcher, co_ttlManager = ttlManager,
      co_observer = False, co_observed = [], co_shutdown = False\<rparr>"

definition CheckInitialized :: "CoordinatorStore \<Rightarrow> bool" where
  "CheckInitialized s \<longleftrightarrow> co_memKvStore s \<noteq> None \<and> co_watchRegistry s \<noteq> None
     \<and> co_watchDispatcher s \<noteq> None \<and> co_ttlManager s \<noteq> None"

abbreviation memKv :: "CoordinatorStore \<Rightarrow> MemoryKvStore" where
  "memKv s \<equiv> the (co_memKvStore s)"

text \<open>The lambda bound as mutation callback: the observer first, then the dispatcher.\<close>

definition mutationCallback :: "WatchEvent \<Rightarrow> CoordinatorStore \<Rightarrow> CoordinatorStore" where
  "mutationCallback event s =
     s\<lparr>co_observed := (if co_observer s then co_observed s @ [(ev_type event, kve_key (ev_entry event))]
                       else co_observed s),
       co_watchDispatcher := map_option (Enqueue event) (co_watchDispatcher s)\<rparr>"

definition CoordinatorStore_Start :: "StatusCode option \<Rightarrow> CoordinatorStore \<Rightarrow> CoordinatorStore result" where
  "CoordinatorStore_Start executorStatus s =
     (if \<not> CheckInitialized s then Inl K_NOT_READY
      else case Dispatcher_Start executorStatus (the (co_watchDispatcher s)) of
             (d, Some rc) \<Rightarrow> Inl rc
           | (d, None) \<Rightarrow> Inr (s\<lparr>co_watchDispatcher := Some d,
                                 co_ttlManager := map_option TtlManager_Start (co_ttlManager s)\<rparr>))"

text \<open>Scheduling the TTL of a committed mutation.\<close>

definition scheduleTtl ::
  "int \<Rightarrow> string \<Rightarrow> int \<Rightarrow> int \<Rightarrow> 64 word \<Rightarrow> CoordinatorStore \<Rightarrow> CoordinatorStore option" where
  "scheduleTtl now key ttlMs revision ttlGeneration s =
     map_option (\<lambda>p. s\<lparr>co_ttlManager := Some (fst p)\<rparr>)
       (TtlManager_Schedule now key ttlMs revision ttlGeneration (the (co_ttlManager s)))"

definition CoordinatorStore_Put ::
  "int \<Rightarrow> string \<Rightarrow> string \<Rightarrow> int \<Rightarrow> int \<Rightarrow> int \<Rightarrow> int \<Rightarrow> CoordinatorStore
   \<Rightarrow> (CoordinatorStore \<times> int \<times> int) result option" where
  "CoordinatorStore_Put now key val ttlMs expectedVersion expectedModRevision expectedGlobalRevision s =
     (if \<not> CheckInitialized s then Some (Inl K_NOT_READY)
      else case MemoryKvStore_Put key val ttlMs expectedVersion expectedModRevision expectedGlobalRevision (memKv s) of
             Inl rc \<Rightarrow> Some (Inl rc)
           | Inr (kv, res, events) \<Rightarrow>
               let s1 = fold mutationCallback events (s\<lparr>co_memKvStore := Some kv\<rparr>)
               in if 0 < ttlMs
                  then map_option (\<lambda>s2. Inr (s2, put_version res, put_revision res))
                         (scheduleTtl now key ttlMs (put_revision res) (put_ttlGeneration res) s1)
                  else Some (Inr (s1, put_version res, put_revision res)))"

definition CoordinatorStore_Range ::
  "string \<Rightarrow> string \<Rightarrow> KeyValueEntry list \<Rightarrow> CoordinatorStore \<Rightarrow> (KeyValueEntry list \<times> int) result" where
  "CoordinatorStore_Range key rangeEnd kvs s =
     (if \<not> CheckInitialized s then Inl K_NOT_READY
      else Inr (MemoryKvStore_Range key rangeEnd kvs (memKv s)))"

definition CoordinatorStore_DeleteRange ::
  "string \<Rightarrow> string \<Rightarrow> int \<Rightarrow> CoordinatorStore \<Rightarrow> (CoordinatorStore \<times> int \<times> int) result" where
  "CoordinatorStore_DeleteRange key rangeEnd expectedModRevision s =
     (if \<not> CheckInitialized s then Inl K_NOT_READY
      else case MemoryKvStore_Delete key rangeEnd [] expectedModRevision (memKv s) of
             Inl rc \<Rightarrow> Inl rc
           | Inr (kv, res, events) \<Rightarrow>
               Inr (fold mutationCallback events (s\<lparr>co_memKvStore := Some kv\<rparr>), del_deleted res, del_revision res))"

text \<open>
  \<^verbatim>\<open>WatchRange\<close> holds no lock of its own: other calls may run between its two halves, the registration with the
  new channel, and the snapshot.
\<close>

definition watchRegister ::
  "string \<Rightarrow> string \<Rightarrow> string \<Rightarrow> string \<Rightarrow> CoordinatorStore \<Rightarrow> (CoordinatorStore \<times> int \<times> bool) result" where
  "watchRegister key rangeEnd watcherAddr registrationId s =
     (if \<not> CheckInitialized s then Inl K_NOT_READY
      else case WatchRegistry_Register key rangeEnd watcherAddr registrationId (the (co_watchRegistry s)) of
             Inl rc \<Rightarrow> Inl rc
           | Inr (r, watchId, created) \<Rightarrow>
               let d = the (co_watchDispatcher s)
               in Inr (s\<lparr>co_watchRegistry := Some r,
                         co_watchDispatcher := Some (if created then AddChannel watchId watcherAddr d else d)\<rparr>,
                       watchId, created))"

definition watchSnapshot :: "string \<Rightarrow> string \<Rightarrow> int \<Rightarrow> CoordinatorStore \<Rightarrow> CoordinatorStore \<times> KeyValueEntry list" where
  "watchSnapshot key rangeEnd watchId s =
     (let (initialKvs, snapshotRevision) = MemoryKvStore_Range key rangeEnd [] (memKv s)
      in (s\<lparr>co_watchDispatcher := map_option (SetSnapshotRevision watchId snapshotRevision) (co_watchDispatcher s)\<rparr>,
          initialKvs))"

definition CoordinatorStore_WatchRange ::
  "string \<Rightarrow> string \<Rightarrow> string \<Rightarrow> string \<Rightarrow> CoordinatorStore
   \<Rightarrow> (CoordinatorStore \<times> int \<times> KeyValueEntry list) result" where
  "CoordinatorStore_WatchRange key rangeEnd watcherAddr registrationId s =
     (case watchRegister key rangeEnd watcherAddr registrationId s of
        Inl rc \<Rightarrow> Inl rc
      | Inr (s1, watchId, created) \<Rightarrow>
          let (s2, initialKvs) = watchSnapshot key rangeEnd watchId s1 in Inr (s2, watchId, initialKvs))"

text \<open>The loop of \<^verbatim>\<open>CancelWatch\<close>; the last component is \<^verbatim>\<open>firstError\<close>.\<close>

fun cancelWatches ::
  "string \<Rightarrow> int list \<Rightarrow> WatchRegistry \<times> WatchDispatcher \<times> StatusCode option
   \<Rightarrow> WatchRegistry \<times> WatchDispatcher \<times> StatusCode option" where
  "cancelWatches watcherAddr [] acc = acc"
| "cancelWatches watcherAddr (watchId # watchIds) (r, d, firstError) =
     (case WatchRegistry_Cancel watchId watcherAddr r of
        Inr r' \<Rightarrow> cancelWatches watcherAddr watchIds (r', RemoveChannel watchId d, firstError)
      | Inl rc \<Rightarrow>
          if rc = K_NOT_FOUND then cancelWatches watcherAddr watchIds (r, RemoveChannel watchId d, firstError)
          else cancelWatches watcherAddr watchIds (r, d, if firstError = None then Some rc else firstError))"

definition CoordinatorStore_CancelWatch ::
  "string \<Rightarrow> int list \<Rightarrow> CoordinatorStore \<Rightarrow> CoordinatorStore \<times> StatusCode option" where
  "CoordinatorStore_CancelWatch watcherAddr watchIds s =
     (if \<not> CheckInitialized s then (s, Some K_NOT_READY)
      else let (r, d, firstError) =
             cancelWatches watcherAddr watchIds (the (co_watchRegistry s), the (co_watchDispatcher s), None)
           in (s\<lparr>co_watchRegistry := Some r, co_watchDispatcher := Some d\<rparr>, firstError))"

definition CoordinatorStore_KeepAlive ::
  "int \<Rightarrow> string \<Rightarrow> int \<Rightarrow> CoordinatorStore \<Rightarrow> (CoordinatorStore \<times> int \<times> int) result option" where
  "CoordinatorStore_KeepAlive now key expectedModRevision s =
     (if \<not> CheckInitialized s then Some (Inl K_NOT_READY)
      else case MemoryKvStore_KeepAlive key expectedModRevision (memKv s) of
             Inl rc \<Rightarrow> Some (Inl rc)
           | Inr (kv, res) \<Rightarrow>
               map_option (\<lambda>s2. Inr (s2, ka_ttlMs res, ka_remainingTtlMs res))
                 (scheduleTtl now key (ka_ttlMs res) (ka_revision res) (ka_ttlGeneration res)
                    (s\<lparr>co_memKvStore := Some kv\<rparr>)))"

definition CoordinatorStore_SetCommittedMutationObserver :: "bool \<Rightarrow> CoordinatorStore \<Rightarrow> CoordinatorStore" where
  "CoordinatorStore_SetCommittedMutationObserver observer s = s\<lparr>co_observer := observer\<rparr>"

definition CoordinatorStore_StopTtl :: "CoordinatorStore \<Rightarrow> CoordinatorStore" where
  "CoordinatorStore_StopTtl s = s\<lparr>co_ttlManager := map_option TtlManager_Stop (co_ttlManager s)\<rparr>"

definition CoordinatorStore_Shutdown :: "CoordinatorStore \<Rightarrow> CoordinatorStore" where
  "CoordinatorStore_Shutdown s =
     (if co_shutdown s then s
      else let s1 = CoordinatorStore_StopTtl (s\<lparr>co_shutdown := True\<rparr>)
           in s1\<lparr>co_observer := False,
                 co_memKvStore := map_option (MemoryKvStore_SetMutationCallback False) (co_memKvStore s1),
                 co_watchDispatcher := map_option Dispatcher_Stop (co_watchDispatcher s1)\<rparr>)"

text \<open>The callback bound to the expiry schedule, and a pass of the expiration thread through it.\<close>

definition expireCallback :: "string \<times> int \<times> 64 word \<Rightarrow> CoordinatorStore \<Rightarrow> CoordinatorStore" where
  "expireCallback x s =
     (case co_memKvStore s of
        None \<Rightarrow> s
      | Some kv \<Rightarrow>
          let (_, kv', events) = MemoryKvStore_DeleteIfTtlExpired (fst x) (fst (snd x)) (snd (snd x)) kv
          in fold mutationCallback events (s\<lparr>co_memKvStore := Some kv'\<rparr>))"

definition expirationPass :: "int \<Rightarrow> CoordinatorStore \<Rightarrow> CoordinatorStore" where
  "expirationPass now s =
     (case co_ttlManager s of
        None \<Rightarrow> s
      | Some m \<Rightarrow> let (m', expired) = TtlManager_CheckExpiration now m
                  in fold expireCallback expired (s\<lparr>co_ttlManager := Some m'\<rparr>))"

section \<open>Watching a range from a snapshot\<close>

definition kvs_view :: "KeyValueEntry list \<Rightarrow> string \<Rightarrow> (string \<times> int \<times> int) option" where
  "kvs_view kvs = map_of (map (\<lambda>e. (kve_key e, kve_value e, kve_version e, kve_modRevision e)) kvs)"

lemma apply_event_local:
  "m k = m' k \<Longrightarrow> apply_event ev m k = apply_event ev m' k"
  by (simp split: WatchEventType.split)

lemma fold_apply_scope:
  assumes "m k = m' k" "P k"
  shows "fold apply_event evs m k = fold apply_event (filter (\<lambda>ev. P (kve_key (ev_entry ev))) evs) m' k"
  using assms(1)
proof (induction evs arbitrary: m m')
  case (Cons ev evs)
  then show ?case
  proof (cases "P (kve_key (ev_entry ev))")
    case True
    with Cons.IH [of "apply_event ev m" "apply_event ev m'"] Cons.prems show ?thesis
      using apply_event_local [of m k m' ev] by simp
  next
    case False
    then have "apply_event ev m k = m k" using assms(2) by (auto split: WatchEventType.split)
    with False Cons show ?thesis by simp
  qed
qed simp

lemma snapshot_view:
  assumes "kv_inv s" "inScope key rangeEnd k"
  shows "kvs_view (fst (MemoryKvStore_Range key rangeEnd [] s)) k = kv_view s k"
proof -
  let ?ps = "selectRange key rangeEnd s"
  have "map_of (map (\<lambda>(k, e). (k, ve_value e, ve_version e, ve_modRevision e)) ?ps) k
      = map_option (\<lambda>e. (ve_value e, ve_version e, ve_modRevision e)) (map_of ?ps k)"
    by (simp add: map_of_map)
  moreover have "map_of ?ps k = map_of (kv_data s) k"
  proof -
    have "distinct (map fst ?ps)"
      using selectRange_sorted [OF assms(1), of key rangeEnd] by (simp add: strict_sorted_iff)
    then have "map_of ?ps k = Some v \<longleftrightarrow> map_of (kv_data s) k = Some v" for v
      using selectRange_set [OF assms(1), of key rangeEnd] assms(2) by simp
    then show ?thesis by (metis option.exhaust)
  qed
  ultimately show ?thesis
    by (simp add: kvs_view_def MemoryKvStore_Range_def toKeyValueEntry_def kv_view_def comp_def split_def)
qed


section \<open>Events reach the channels of their watchers\<close>

lemma Schedule_other [simp]: "a \<noteq> b \<Longrightarrow> d_heap (ScheduleChannelLocked b d) a = d_heap d a"
  by (simp add: ScheduleChannelLocked_def Let_def)

lemma deliver_channels [simp]: "d_channels (FanOut_deliver ev w d) = d_channels d"
  by (simp add: FanOut_deliver_def ScheduleChannelLocked_def Let_def split: option.split)

lemma deliver_other:
  assumes "disp_inv d ws" "map_of (d_channels d) w = Some a" "w' \<noteq> w"
  shows "d_heap (FanOut_deliver ev w' d) a = d_heap d a"
proof -
  have "a' \<noteq> a" if "map_of (d_channels d) w' = Some a'" for a'
    using that assms by (auto simp: disp_inv_def)
  then show ?thesis by (auto simp: FanOut_deliver_def split: option.split)
qed

text \<open>What the delivery of an event to the watcher of a channel makes of the channel.\<close>

definition delivered :: "WatchEvent \<Rightarrow> WatcherChannel \<Rightarrow> WatcherChannel" where
  "delivered ev c =
     (if ch_needReWatch c then c
      else if length (ch_queue c) < ch_backpressureLimit c
      then c\<lparr>ch_queue := ch_queue c @ [ev], ch_dispatchQueued := True\<rparr>
      else c\<lparr>ch_queue := [MakeRewatchEvent (Some ev)], ch_needReWatch := True, ch_dispatchQueued := True\<rparr>)"

lemma deliver_self:
  assumes "disp_inv d ws" "map_of (d_channels d) w = Some a"
  shows "d_heap (FanOut_deliver ev w d) a = delivered ev (d_heap d a)"
proof -
  have "\<not> ch_cancelled (d_heap d a)" "d_groups d \<noteq> []" using assms(1,2) by (auto simp: disp_inv_def)
  with assms show ?thesis by (simp add: FanOut_deliver_def delivered_def Schedule_effect(3))
qed

lemma fold_deliver:
  assumes "disp_inv d ws" "map_of (d_channels d) w = Some a" "distinct ids"
  shows "d_heap (fold (FanOut_deliver ev) ids d) a =
    (if w \<in> set ids then delivered ev (d_heap d a) else d_heap d a)"
proof -
  have skip: "d_heap (fold (FanOut_deliver ev) ids d) a = d_heap d a"
    if "disp_inv d ws" "map_of (d_channels d) w = Some a" "w \<notin> set ids" for ids d
    using that
  proof (induction ids arbitrary: d)
    case (Cons v ids)
    then show ?case
      using deliver_other [of d ws w a v ev] disp_inv_FanOut_deliver [of d ws ev v] by simp
  qed simp
  from assms show ?thesis
  proof (induction ids arbitrary: d)
    case (Cons v ids)
    note inv = disp_inv_FanOut_deliver [OF Cons.prems(1), of ev v]
    show ?case
    proof (cases "v = w")
      case True
      then show ?thesis
        using skip [OF inv, of ids] Cons.prems deliver_self [OF Cons.prems(1,2), of ev] by simp
    next
      case False
      then show ?thesis
        using Cons.IH [OF inv] Cons.prems deliver_other [OF Cons.prems(1,2), of v ev] by auto
    qed
  qed simp
qed

lemma FanOut_event_channel:
  assumes "registry_inv r" and "disp_inv d ws"
    and "map_of (d_channels d) w = Some a" and "watch_view r w = Some (k, e, addr, rid)"
  shows "d_heap (FanOut_event r ev d) a =
    (if inScope k e (kve_key (ev_entry ev)) then delivered ev (d_heap d a) else d_heap d a)"
proof -
  let ?ids = "map we_watchId (WatchRegistry_MatchWatchers (kve_key (ev_entry ev)) r)"
  have "distinct ?ids" using assms(1) by (rule MatchWatchers_distinct)
  moreover have "w \<in> set ?ids \<longleftrightarrow> inScope k e (kve_key (ev_entry ev))"
    using MatchWatchers_set [OF assms(1), of "kve_key (ev_entry ev)"] assms(4) by auto
  ultimately show ?thesis
    unfolding FanOut_event_def using fold_deliver [OF assms(2,3), of ?ids ev] by simp
qed

text \<open>
  C14. Fan-out delivers an event to exactly the watchers of its key. For the channel of a live watch, fanning out
  an event changes nothing if the key is outside the scope of the watch or the channel is already due
  for a rewatch. Otherwise the channel is scheduled, and the event is appended to its queue if there is
  room; if the queue is full, the whole queue becomes one rewatch event and the channel is marked.
\<close>

theorem fan_out_exact:
  assumes "registry_inv r" and "disp_inv d ws"
    and "map_of (d_channels d) w = Some a" and "watch_view r w = Some (k, e, addr, rid)"
  shows "d_heap (FanOut_event r ev d) a =
    (let c = d_heap d a
     in if \<not> inScope k e (kve_key (ev_entry ev)) \<or> ch_needReWatch c then c
        else if length (ch_queue c) < ch_backpressureLimit c
        then c\<lparr>ch_queue := ch_queue c @ [ev], ch_dispatchQueued := True\<rparr>
        else c\<lparr>ch_queue := [MakeRewatchEvent (Some ev)], ch_needReWatch := True, ch_dispatchQueued := True\<rparr>)"
  unfolding FanOut_event_channel [OF assms] by (simp add: delivered_def Let_def)

theorem fan_out_exact_witness:
  "let r = registry_run WatchRegistry_init [OpRegister ''a'' ''c'' ''h'' []];
       d = AddChannel 1 ''h'' (fst (Dispatcher_Start None (WatchDispatcher_init 2)))
   in ch_queue (d_heap (FanOut_event r (put_event ''b'' 5) d) 0) = [put_event ''b'' 5]"
proof -
  let ?r = "registry_run WatchRegistry_init [OpRegister ''a'' ''c'' ''h'' []]"
  let ?start = "fst (Dispatcher_Start None (WatchDispatcher_init 2))"
  let ?d = "AddChannel 1 ''h'' ?start"
  have r: "registry_inv ?r"
    by (rule registry_run_inv(1) [OF registry_inv_init]) (simp add: WatchRegistry_init_def i64_max_def)
  have "disp_inv ?start []"
    using dispatch_reachable_inv [OF _ reach_init, of 2 0] by simp
  then have d: "disp_inv ?d []" by (simp add: disp_inv_AddChannel)
  have "watch_view ?r 1 = Some (''a'', ''c'', ''h'', [])"
    by (simp add: registry_exec watch_view_def)
  moreover have "map_of (d_channels ?d) 1 = Some 0" "d_heap ?d 0 = newChannel 1 ''h''"
    by (simp_all add: AddChannel_def Dispatcher_Start_def WatchDispatcher_init_def Let_def)
  ultimately show ?thesis
    unfolding Let_def using fan_out_exact [OF r d, of 1 0 "''a''" "''c''" "''h''" "[]" "put_event ''b'' 5"]
    by (simp add: newChannel_def put_event_def inScope_def Let_def)
qed

section \<open>A watch from its registration to its first notification\<close>

text \<open>
  What can happen around the two halves of \<^verbatim>\<open>WatchRange\<close>: calls of other clients, callbacks of the
  expiration thread, and passes of the fan-out thread. A call hands its event to the dispatcher before the next
  call commits.
\<close>

inductive store_step :: "CoordinatorStore \<Rightarrow> CoordinatorStore \<Rightarrow> bool" where
  s_put: "CoordinatorStore_Put now key val ttlMs ev em eg s = Some (Inr (s', version, revision)) \<Longrightarrow> store_step s s'"
| s_delete: "CoordinatorStore_DeleteRange key rangeEnd em s = Inr (s', deleted, revision) \<Longrightarrow> store_step s s'"
| s_keepalive: "CoordinatorStore_KeepAlive now key em s = Some (Inr (s', ttlMs, remaining)) \<Longrightarrow> store_step s s'"
| s_expire: "store_step s (expireCallback x s)"
| s_fan_out: "store_step s (s\<lparr>co_watchDispatcher :=
      map_option (FanOutLoop_pass (the (co_watchRegistry s))) (co_watchDispatcher s)\<rparr>)"

text \<open>The state between the calls: every component is there, and no queued event is of a later revision.\<close>

definition store_ok :: "WorkerPhase list \<Rightarrow> CoordinatorStore \<Rightarrow> bool" where
  "store_ok ws s \<longleftrightarrow> CheckInitialized s \<and> kv_inv (memKv s) \<and> kv_callback (memKv s)
     \<and> registry_inv (the (co_watchRegistry s)) \<and> disp_inv (the (co_watchDispatcher s)) ws
     \<and> list_all (\<lambda>ev. ev_revision ev \<le> kv_revision (memKv s)) (d_pendingQueue (the (co_watchDispatcher s)))"

lemma fold_mutationCallback:
  "co_memKvStore (fold mutationCallback evs s) = co_memKvStore s"
  "co_watchRegistry (fold mutationCallback evs s) = co_watchRegistry s"
  "co_watchDispatcher (fold mutationCallback evs s) = map_option (fold Enqueue evs) (co_watchDispatcher s)"
  "co_ttlManager (fold mutationCallback evs s) = co_ttlManager s"
  by (induction evs arbitrary: s) (simp_all add: mutationCallback_def option.map_comp comp_def option.map_id)

text \<open>Every step is a mutation of the store whose events are queued, or a pass of the fan-out thread.\<close>

lemma store_step_effect:
  assumes "store_step s s'" "CheckInitialized s"
  obtains ops where "length ops \<le> 1" "CheckInitialized s'" "memKv s' = fst (kv_run (memKv s) ops)"
    "co_watchRegistry s' = co_watchRegistry s"
    "the (co_watchDispatcher s') = fold Enqueue (snd (kv_run (memKv s) ops)) (the (co_watchDispatcher s))
     \<or> ops = [] \<and> the (co_watchDispatcher s') = FanOutLoop_pass (the (co_watchRegistry s)) (the (co_watchDispatcher s))"
proof -
  have one: "kv_run (memKv s) [op] = kv_step (memKv s) op" for op by (simp add: split_beta)
  from assms show ?thesis
  proof (cases rule: store_step.cases)
    case (s_put now key val ttlMs ev em eg version revision)
    with assms(2) show ?thesis
      by (intro that [of "[OpPut key val ttlMs ev em eg]"])
        (auto simp: one CoordinatorStore_Put_def CheckInitialized_def scheduleTtl_def fold_mutationCallback Let_def
          split: sum.splits if_splits)
  next
    case (s_delete key rangeEnd em deleted revision)
    with assms(2) show ?thesis
      by (intro that [of "[OpDelete key rangeEnd em]"])
        (auto simp: one CoordinatorStore_DeleteRange_def CheckInitialized_def fold_mutationCallback split: sum.splits)
  next
    case (s_keepalive now key em ttlMs remaining)
    with assms(2) show ?thesis
      by (intro that [of "[OpKeepAlive key em]"])
        (auto simp: one CoordinatorStore_KeepAlive_def CheckInitialized_def scheduleTtl_def split: sum.splits)
  next
    case (s_expire x)
    with assms(2) show ?thesis
      by (intro that [of "[OpExpire (fst x) (fst (snd x)) (snd (snd x))]"])
        (auto simp: one expireCallback_def CheckInitialized_def fold_mutationCallback split_beta split: option.splits)
  next
    case s_fan_out
    with assms(2) show ?thesis by (intro that [of "[]"]) (auto simp: CheckInitialized_def)
  qed
qed

lemma Enqueue_simps [simp]:
  "d_heap (Enqueue ev d) = d_heap d" "d_channels (Enqueue ev d) = d_channels d"
  by (simp_all add: Enqueue_def)

lemma deliver_pending [simp]:
  "d_pendingQueue (FanOut_deliver ev w d) = d_pendingQueue d"
  "d_pendingOverflow (FanOut_deliver ev w d) = d_pendingOverflow d"
  by (simp_all add: FanOut_deliver_def ScheduleChannelLocked_def on_channel_def on_group_def Let_def split: option.split)

lemma FanOut_event_keeps:
  "d_channels (FanOut_event r ev d) = d_channels d" "d_pendingQueue (FanOut_event r ev d) = d_pendingQueue d"
  "d_pendingOverflow (FanOut_event r ev d) = d_pendingOverflow d"
proof -
  have "d_channels (fold (FanOut_deliver ev) ids d) = d_channels d
      \<and> d_pendingQueue (fold (FanOut_deliver ev) ids d) = d_pendingQueue d
      \<and> d_pendingOverflow (fold (FanOut_deliver ev) ids d) = d_pendingOverflow d" for ids
    by (induction ids arbitrary: d) simp_all
  then show "d_channels (FanOut_event r ev d) = d_channels d" "d_pendingQueue (FanOut_event r ev d) = d_pendingQueue d"
    "d_pendingOverflow (FanOut_event r ev d) = d_pendingOverflow d" by (simp_all add: FanOut_event_def)
qed

lemma disp_inv_FanOut_event: "disp_inv d ws \<Longrightarrow> disp_inv (FanOut_event r ev d) ws"
proof -
  have "disp_inv d ws \<Longrightarrow> disp_inv (fold (FanOut_deliver ev) ids d) ws" for ids
    by (induction ids arbitrary: d) (simp_all add: disp_inv_FanOut_deliver)
  then show "disp_inv d ws \<Longrightarrow> disp_inv (FanOut_event r ev d) ws" by (simp add: FanOut_event_def)
qed

text \<open>The channel of a watch after a batch: marked for a rewatch, or with all events of its scope in its queue.\<close>

lemma fan_out_batch:
  assumes "registry_inv r" "disp_inv d ws" "map_of (d_channels d) w = Some a"
    and "watch_view r w = Some (key, rangeEnd, addr, rid)"
  shows "disp_inv (fold (FanOut_event r) batch d) ws \<and> d_channels (fold (FanOut_event r) batch d) = d_channels d
    \<and> d_pendingQueue (fold (FanOut_event r) batch d) = d_pendingQueue d
    \<and> d_pendingOverflow (fold (FanOut_event r) batch d) = d_pendingOverflow d
    \<and> (ch_needReWatch (d_heap (fold (FanOut_event r) batch d) a)
       \<or> \<not> ch_needReWatch (d_heap d a) \<and> ch_queue (d_heap (fold (FanOut_event r) batch d) a) =
           ch_queue (d_heap d a) @ filter (\<lambda>ev. inScope key rangeEnd (kve_key (ev_entry ev))) batch)"
  using assms(2,3)
proof (induction batch arbitrary: d)
  case (Cons ev batch)
  let ?d = "FanOut_event r ev d"
  have step: "disp_inv ?d ws" "map_of (d_channels ?d) w = Some a"
    using Cons.prems by (simp_all add: disp_inv_FanOut_event FanOut_event_keeps)
  have "d_heap ?d a = (if inScope key rangeEnd (kve_key (ev_entry ev)) then delivered ev (d_heap d a) else d_heap d a)"
    by (rule FanOut_event_channel [OF assms(1) Cons.prems assms(4)])
  with Cons.IH [OF step] show ?case by (auto simp: FanOut_event_keeps delivered_def split: if_splits)
qed auto

lemma FanOut_overflow_effect:
  "d_channels (FanOut_overflow d) = d_channels d" "d_pendingQueue (FanOut_overflow d) = d_pendingQueue d"
  "\<not> d_pendingOverflow (FanOut_overflow d)"
  "ch_needReWatch (d_heap (FanOut_overflow d) a) \<longleftrightarrow> ch_needReWatch (d_heap d a)
     \<or> d_pendingOverflow d \<and> a \<in> snd ` set (d_channels d) \<and> \<not> ch_cancelled (d_heap d a)"
  "\<not> d_pendingOverflow d \<Longrightarrow> d_heap (FanOut_overflow d) = d_heap d"
proof -
  have one: "d_channels (rewatchChannel b d) = d_channels d \<and> d_pendingQueue (rewatchChannel b d) = d_pendingQueue d
      \<and> d_pendingOverflow (rewatchChannel b d) = d_pendingOverflow d" for b d
    by (simp add: rewatchChannel_def ScheduleChannelLocked_def on_channel_def on_group_def Let_def)
  have "d_channels (fold (\<lambda>p. rewatchChannel (snd p)) ps d) = d_channels d
      \<and> d_pendingQueue (fold (\<lambda>p. rewatchChannel (snd p)) ps d) = d_pendingQueue d
      \<and> d_pendingOverflow (fold (\<lambda>p. rewatchChannel (snd p)) ps d) = d_pendingOverflow d" for ps :: "(int \<times> nat) list" and d
    by (induction ps arbitrary: d) (simp_all add: one)
  then show "d_channels (FanOut_overflow d) = d_channels d" "d_pendingQueue (FanOut_overflow d) = d_pendingQueue d"
    "\<not> d_pendingOverflow (FanOut_overflow d)"
    by (simp_all add: FanOut_overflow_def ScheduleAllChannelsForRewatch_def Let_def)
qed (simp_all add: FanOut_overflow_def ScheduleAllChannelsForRewatch_def Let_def rewatch_fold_flags)

definition watch_inv ::
  "WorkerPhase list \<Rightarrow> WatchRegistry \<Rightarrow> int \<Rightarrow> nat \<Rightarrow> (WatchEvent \<Rightarrow> bool) \<Rightarrow> WatchEvent list \<Rightarrow> WatchDispatcher \<Rightarrow> bool" where
  "watch_inv ws r w a P events d \<longleftrightarrow> disp_inv d ws \<and> map_of (d_channels d) w = Some a
     \<and> (ch_needReWatch (d_heap d a) \<or> d_pendingOverflow d
        \<or> ch_queue (d_heap d a) @ filter P (d_pendingQueue d) = filter P events)"

lemma watch_inv_enqueue: "watch_inv ws r w a P events d \<Longrightarrow> watch_inv ws r w a P (events @ evs) (fold Enqueue evs d)"
proof (induction evs arbitrary: events d)
  case (Cons ev evs)
  have "watch_inv ws r w a P (events @ [ev]) (Enqueue ev d)"
    using Cons.prems disp_inv_Enqueue [of d ws ev] by (auto simp: watch_inv_def) (auto simp: Enqueue_def)
  from Cons.IH [OF this] show ?case by simp
qed simp

lemma watch_inv_fan_out:
  assumes "watch_inv ws r w a P events d" "registry_inv r" "watch_view r w = Some (key, rangeEnd, addr, rid)"
    and P: "P = (\<lambda>ev. inScope key rangeEnd (kve_key (ev_entry ev)))"
  shows "watch_inv ws r w a P events (FanOutLoop_pass r d)"
proof -
  obtain batch d1 where t: "FanOut_take d = (batch, d1)" by fastforce
  then have d1: "d1 = d\<lparr>d_pendingQueue := d_pendingQueue d1\<rparr>" "batch @ d_pendingQueue d1 = d_pendingQueue d"
    by (auto simp: FanOut_take_def Let_def)
  let ?d2 = "FanOut_overflow d1"
  have "disp_inv d1 ws" using assms(1) disp_inv_FanOut_take [OF _ t] by (simp add: watch_inv_def)
  then have inv2: "disp_inv ?d2 ws" by (rule disp_inv_FanOut_overflow)
  note o = FanOut_overflow_effect [of d1] and keep = arg_cong [OF d1(1), of d_heap, simplified]
    arg_cong [OF d1(1), of d_channels, simplified] arg_cong [OF d1(1), of d_pendingOverflow, simplified]
  have a2: "map_of (d_channels ?d2) w = Some a" using assms(1) by (simp add: watch_inv_def o keep)
  have "\<not> ch_cancelled (d_heap d a)" "(w, a) \<in> set (d_channels d)"
    using assms(1) by (auto simp: watch_inv_def disp_inv_def dest: map_of_SomeD)
  then have over: "ch_needReWatch (d_heap ?d2 a) \<longleftrightarrow> ch_needReWatch (d_heap d a) \<or> d_pendingOverflow d"
    "\<not> d_pendingOverflow d \<Longrightarrow> d_heap ?d2 a = d_heap d a"
    by (force simp: o keep)+
  note f = fan_out_batch [OF assms(2) inv2 a2 assms(3), of batch]
  show ?thesis
    unfolding watch_inv_def FanOutLoop_pass_def t prod.case
    using f assms(1) over a2 by (auto simp: watch_inv_def o P simp flip: d1(2))
qed

lemma watch_inv_run:
  assumes "(store_step ^^ n) s s'" "CheckInitialized s"
    and "watch_inv ws r w a P events (the (co_watchDispatcher s))" "co_watchRegistry s = Some r" "registry_inv r"
    and "watch_view r w = Some (key, rangeEnd, addr, rid)" "P = (\<lambda>ev. inScope key rangeEnd (kve_key (ev_entry ev)))"
  obtains ops where "length ops \<le> n" "CheckInitialized s'" "memKv s' = fst (kv_run (memKv s) ops)"
    "co_watchRegistry s' = Some r"
    "watch_inv ws r w a P (events @ snd (kv_run (memKv s) ops)) (the (co_watchDispatcher s'))"
proof -
  have "\<exists>ops. length ops \<le> n \<and> CheckInitialized s' \<and> memKv s' = fst (kv_run (memKv s) ops)
    \<and> co_watchRegistry s' = Some r
    \<and> watch_inv ws r w a P (events @ snd (kv_run (memKv s) ops)) (the (co_watchDispatcher s'))"
    using assms(1)
  proof (induction n arbitrary: s')
    case 0
    with assms(2-4) show ?case by (auto intro: exI [of _ "[]"])
  next
    case (Suc n)
    then obtain t where run: "(store_step ^^ n) s t" and step: "store_step t s'" by auto
    from Suc.IH [OF run] obtain ops where ops: "length ops \<le> n" "CheckInitialized t" "memKv t = fst (kv_run (memKv s) ops)"
      "co_watchRegistry t = Some r" "watch_inv ws r w a P (events @ snd (kv_run (memKv s) ops)) (the (co_watchDispatcher t))"
      by blast
    obtain more where more: "length more \<le> 1" "CheckInitialized s'" "memKv s' = fst (kv_run (memKv t) more)"
      "co_watchRegistry s' = co_watchRegistry t"
      "the (co_watchDispatcher s') = fold Enqueue (snd (kv_run (memKv t) more)) (the (co_watchDispatcher t))
       \<or> more = [] \<and> the (co_watchDispatcher s') = FanOutLoop_pass (the (co_watchRegistry t)) (the (co_watchDispatcher t))"
      using store_step_effect [OF step ops(2)] by metis
    have run': "kv_run (memKv s) (ops @ more) =
        (fst (kv_run (memKv t) more), snd (kv_run (memKv s) ops) @ snd (kv_run (memKv t) more))"
      using kv.run_append [of "memKv s" ops more] ops(3) by simp
    have "watch_inv ws r w a P (events @ snd (kv_run (memKv s) (ops @ more))) (the (co_watchDispatcher s'))"
      using more(5)
    proof
      assume "the (co_watchDispatcher s') = fold Enqueue (snd (kv_run (memKv t) more)) (the (co_watchDispatcher t))"
      then show ?thesis using watch_inv_enqueue [OF ops(5), of "snd (kv_run (memKv t) more)"] by (simp add: run')
    next
      assume "more = [] \<and> the (co_watchDispatcher s') = FanOutLoop_pass (the (co_watchRegistry t)) (the (co_watchDispatcher t))"
      then show ?thesis using watch_inv_fan_out [OF ops(5) assms(5-7)] ops(4) by (simp add: run')
    qed
    then show ?case using ops more by (intro exI [of _ "ops @ more"]) (simp add: run')
  qed
  then show ?thesis using that by blast
qed

lemma AddChannel_new:
  assumes "disp_inv d ws"
  shows "d_heap (AddChannel w addr d) (d_nextAddr d) = newChannel w addr"
    and "d_pendingQueue (AddChannel w addr d) = d_pendingQueue d"
    and "d_pendingOverflow (AddChannel w addr d) = d_pendingOverflow d"
proof -
  have "a \<noteq> d_nextAddr d" if "map_of (d_channels d) w = Some a" for a
    using channel_allocated [OF assms that] by simp
  then show "d_heap (AddChannel w addr d) (d_nextAddr d) = newChannel w addr"
    by (auto simp: AddChannel_effect(1) RemoveChannel_effect split: option.split)
qed (simp_all add: AddChannel_def RemoveReverseIndexLocked_def CancelChannel_def on_channel_def Let_def split: option.split)

text \<open>What \<^verbatim>\<open>PrepareChannelEvents\<close> leaves in the queue of a live channel with a snapshot.\<close>

lemma Prepare_queue:
  assumes "PrepareChannelEvents a d = (d', prepared)" "d_running d" "\<not> ch_cancelled (d_heap d a)"
    and "\<not> ch_needReWatch (d_heap d a)" "0 < ch_snapshotRevision (d_heap d a)"
  shows "ch_queue (d_heap d' a) =
    dropWhile (\<lambda>ev. ev_revision ev \<le> ch_snapshotRevision (d_heap d a)) (ch_queue (d_heap d a))"
  using assms by (auto simp: PrepareChannelEvents_def Let_def split: if_splits prod.splits)

lemma SetSnapshot_effect:
  assumes "disp_inv d ws" "map_of (d_channels d) w = Some a"
  shows "d_channels (SetSnapshotRevision w rv d) = d_channels d"
    "d_pendingQueue (SetSnapshotRevision w rv d) = d_pendingQueue d"
    "d_pendingOverflow (SetSnapshotRevision w rv d) = d_pendingOverflow d"
    "ch_queue (d_heap (SetSnapshotRevision w rv d) a) = ch_queue (d_heap d a)"
    "ch_needReWatch (d_heap (SetSnapshotRevision w rv d) a) = ch_needReWatch (d_heap d a)"
    "ch_snapshotRevision (d_heap (SetSnapshotRevision w rv d) a) = rv"
  using assms by (simp_all add: SetSnapshotRevision_def ScheduleChannelLocked_def on_channel_def on_group_def Let_def)

lemma fan_out_snapshot_revision:
  "ch_snapshotRevision (d_heap (FanOutLoop_pass r d) a) = ch_snapshotRevision (d_heap d a)"
proof -
  have schedule: "ch_snapshotRevision (d_heap (ScheduleChannelLocked b d) a) = ch_snapshotRevision (d_heap d a)" for b d
    by (simp add: ScheduleChannelLocked_def Let_def)
  have "ch_snapshotRevision (d_heap (FanOut_deliver ev w d) a) = ch_snapshotRevision (d_heap d a)" for ev w d
    by (simp add: FanOut_deliver_def schedule split: option.split)
  then have "ch_snapshotRevision (d_heap (fold (FanOut_deliver ev) ids d) a) = ch_snapshotRevision (d_heap d a)" for ev ids d
    by (induction ids arbitrary: d) simp_all
  then have events: "ch_snapshotRevision (d_heap (fold (FanOut_event r) batch d) a) = ch_snapshotRevision (d_heap d a)" for batch d
    by (induction batch arbitrary: d) (simp_all add: FanOut_event_def)
  have "ch_snapshotRevision (d_heap (rewatchChannel b d) a) = ch_snapshotRevision (d_heap d a)" for b d
    by (simp add: rewatchChannel_def schedule)
  then have "ch_snapshotRevision (d_heap (fold (\<lambda>p. rewatchChannel (snd p)) ps d) a) = ch_snapshotRevision (d_heap d a)"
    for ps :: "(int \<times> nat) list" and d
    by (induction ps arbitrary: d) simp_all
  then show ?thesis
    by (simp add: FanOutLoop_pass_def FanOut_take_def FanOut_overflow_def ScheduleAllChannelsForRewatch_def Let_def events)
qed

lemma store_run_snapshot_revision:
  assumes "(store_step ^^ n) s s'" "CheckInitialized s"
  shows "CheckInitialized s' \<and> ch_snapshotRevision (d_heap (the (co_watchDispatcher s')) a) =
    ch_snapshotRevision (d_heap (the (co_watchDispatcher s)) a)"
  using assms(1)
proof (induction n arbitrary: s')
  case (Suc n)
  then obtain t where t: "(store_step ^^ n) s t" "store_step t s'" by auto
  have "d_heap (fold Enqueue evs d) = d_heap d" for evs d by (induction evs arbitrary: d) simp_all
  with Suc.IH [OF t(1)] store_step_effect [OF t(2)] fan_out_snapshot_revision show ?case by metis
qed (use assms(2) in simp)


text \<open>A watch of the keys from a to b, with a mutation before the snapshot and one after it.\<close>

definition watch_ex0 :: CoordinatorStore where
  "watch_ex0 = CoordinatorStore_new (Some MemoryKvStore_init) (Some WatchRegistry_init)
     (Some (fst (Dispatcher_Start None (WatchDispatcher_init 2)))) (Some TtlManager_init)"

definition put_in :: "string \<Rightarrow> CoordinatorStore \<Rightarrow> CoordinatorStore" where
  "put_in key s = (case CoordinatorStore_Put 0 key ''1'' 0 (- 1) 0 0 s of Some (Inr (s', _)) \<Rightarrow> s' | _ \<Rightarrow> s)"

definition fan_out_in :: "CoordinatorStore \<Rightarrow> CoordinatorStore" where
  "fan_out_in s = s\<lparr>co_watchDispatcher :=
     map_option (FanOutLoop_pass (the (co_watchRegistry s))) (co_watchDispatcher s)\<rparr>"

definition watch_ex1 :: CoordinatorStore where
  "watch_ex1 = (case watchRegister ''a'' ''b'' ''h'' [] watch_ex0 of Inl _ \<Rightarrow> watch_ex0 | Inr (s, _) \<Rightarrow> s)"

definition watch_ex3 :: CoordinatorStore where
  "watch_ex3 = fst (watchSnapshot ''a'' ''b'' 1 (put_in ''a'' watch_ex1))"

definition watch_ex4 :: CoordinatorStore where
  "watch_ex4 = fan_out_in (put_in ''ab'' watch_ex3)"

lemma put_in_step:
  "(case CoordinatorStore_Put 0 key ''1'' 0 (- 1) 0 0 s of Some (Inr _) \<Rightarrow> True | _ \<Rightarrow> False) \<Longrightarrow> store_step s (put_in key s)"
  unfolding put_in_def by (auto split: option.splits sum.splits intro: s_put)


end
