(* ===== verification/Lease_Protocol.thy ===== *)
theory Lease_Protocol
  imports Coordinator_Store
begin

text \<open>
  Leases: the interleavings of the key-value store and the expiry schedule.

  A \<^verbatim>\<open>Put\<close> with a TTL or a \<^verbatim>\<open>KeepAlive\<close> commits under the lock of the store and only then calls
  \<^verbatim>\<open>TtlManager::Schedule\<close> (\<^verbatim>\<open>CoordinatorStore::Put\<close>, \<^verbatim>\<open>CoordinatorStore::KeepAlive\<close>); the expiration thread
  collects the due records under the lock of the schedule and only then calls
  \<^verbatim>\<open>MemoryKvStore::DeleteIfTtlExpired\<close>. In between any other call may run. The state holds the calls that are under way:
  \<open>ls_pending\<close> are the committed mutations whose \<^verbatim>\<open>Schedule\<close> is still to come, in any order,
  and \<open>ls_expired\<close> the collected records whose callback is still to come. \<open>ls_lease\<close> is history: for
  a key, revision and generation, when they were committed and with which TTL.

  Any TTL may be put: the expiry time that \<^verbatim>\<open>Schedule\<close> computes wraps around as in the code. The clock reads a 64-bit
  number of nanoseconds and never goes back. The steps assume that the two counters are not exhausted:
  a commit finds the revision below the maximum of its 64 bits, and a \<^verbatim>\<open>KeepAlive\<close> does not wrap the generation
  of a key to zero.
\<close>

section \<open>The protocol\<close>

type_synonym LeaseId = "string \<times> int \<times> 64 word"

record LeaseState =
  ls_kv :: MemoryKvStore
  ls_ttl :: TtlManager
  ls_clock :: int
  ls_pending :: "(int \<times> LeaseId) list"
  ls_expired :: "LeaseId list"
  ls_lease :: "LeaseId \<Rightarrow> (int \<times> int) option"

definition ns :: "int \<Rightarrow> int" where
  "ns ttlMs = ttlMs * 1000000"

inductive lease_step :: "LeaseState \<Rightarrow> LeaseState \<Rightarrow> bool" where
  l_tick: "ls_clock s \<le> t \<Longrightarrow> t \<le> i64_max \<Longrightarrow> lease_step s (s\<lparr>ls_clock := t\<rparr>)"
| l_put:
    "MemoryKvStore_Put key val ttlMs ev em eg (ls_kv s) = Inr (kv, res, evs)
      \<Longrightarrow> kv_revision (ls_kv s) < i64_max
      \<Longrightarrow> x = (key, put_revision res, put_ttlGeneration res)
      \<Longrightarrow> lease_step s (s\<lparr>ls_kv := kv,
            ls_pending := (if 0 < ttlMs then (ttlMs, x) # ls_pending s else ls_pending s),
            ls_lease := (ls_lease s)(x \<mapsto> (ls_clock s, ttlMs))\<rparr>)"
| l_keepalive:
    "MemoryKvStore_KeepAlive key em (ls_kv s) = Inr (kv, res) \<Longrightarrow> ka_ttlGeneration res \<noteq> 0
      \<Longrightarrow> x = (key, ka_revision res, ka_ttlGeneration res)
      \<Longrightarrow> lease_step s (s\<lparr>ls_kv := kv, ls_pending := (ka_ttlMs res, x) # ls_pending s,
            ls_lease := (ls_lease s)(x \<mapsto> (ls_clock s, ka_ttlMs res))\<rparr>)"
| l_delete:
    "MemoryKvStore_Delete key rangeEnd [] em (ls_kv s) = Inr (kv, res, evs)
      \<Longrightarrow> kv_revision (ls_kv s) < i64_max \<Longrightarrow> lease_step s (s\<lparr>ls_kv := kv\<rparr>)"
| l_schedule:
    "ls_pending s = ps @ (ttlMs, key, revision, gen) # qs
      \<Longrightarrow> TtlManager_Schedule (ls_clock s) key ttlMs revision gen (ls_ttl s) = Some (m, notify)
      \<Longrightarrow> lease_step s (s\<lparr>ls_ttl := m, ls_pending := ps @ qs\<rparr>)"
| l_collect:
    "TtlManager_CheckExpiration (ls_clock s) (ls_ttl s) = (m, es)
      \<Longrightarrow> lease_step s (s\<lparr>ls_ttl := m, ls_expired := ls_expired s @ es\<rparr>)"
| l_callback:
    "ls_expired s = (key, revision, gen) # rest
      \<Longrightarrow> MemoryKvStore_DeleteIfTtlExpired key revision gen (ls_kv s) = (deleted, kv, evs)
      \<Longrightarrow> kv_revision (ls_kv s) < i64_max
      \<Longrightarrow> lease_step s (s\<lparr>ls_kv := kv, ls_expired := rest\<rparr>)"

definition lease_init :: LeaseState where
  "lease_init = \<lparr>ls_kv = MemoryKvStore_init, ls_ttl = TtlManager_Start TtlManager_init, ls_clock = 0,
     ls_pending = [], ls_expired = [], ls_lease = Map.empty\<rparr>"

inductive lease_reachable :: "LeaseState \<Rightarrow> bool" where
  lease_start: "lease_reachable lease_init"
| lease_next: "lease_reachable s \<Longrightarrow> lease_step s s' \<Longrightarrow> lease_reachable s'"

section \<open>Invariant\<close>

text \<open>The lease a live entry is under.\<close>

definition entry_lease :: "string \<Rightarrow> ValueEntry \<Rightarrow> LeaseId" where
  "entry_lease k e = (k, ve_modRevision e, ve_ttlGeneration e)"

definition record_lease :: "TtlScheduleRecord \<Rightarrow> LeaseId" where
  "record_lease r = (tr_key r, tr_revision r, tr_ttlGeneration r)"

definition in_schedule :: "TtlManager \<Rightarrow> LeaseId \<Rightarrow> bool" where
  "in_schedule m x \<longleftrightarrow> (\<exists>r. scheduled m (fst x) = Some r \<and> record_lease r = x)"

text \<open>Where the bookkeeping of a lease can be.\<close>

definition tracked :: "LeaseState \<Rightarrow> LeaseId \<Rightarrow> bool" where
  "tracked s x \<longleftrightarrow> x \<in> snd ` set (ls_pending s) \<or> in_schedule (ls_ttl s) x \<or> x \<in> set (ls_expired s)"

text \<open>
  A lease that was committed, and scheduled at some time since, with the expiry time that \<^verbatim>\<open>Schedule\<close> computed
  then not after a time.
\<close>

definition ends_by :: "LeaseState \<Rightarrow> LeaseId \<Rightarrow> int \<Rightarrow> bool" where
  "ends_by s x time \<longleftrightarrow>
     (\<exists>t ttl c. ls_lease s x = Some (t, ttl) \<and> t \<le> c \<and> c \<le> ls_clock s \<and> Schedule_expireTime c ttl \<le> time)"

definition lease_id_le :: "LeaseId \<Rightarrow> LeaseId \<Rightarrow> bool" where
  "lease_id_le x y \<longleftrightarrow> fst x = fst y \<and>
     (fst (snd x) < fst (snd y) \<or> fst (snd x) = fst (snd y) \<and> snd (snd x) \<le> snd (snd y))"

definition lease_inv :: "LeaseState \<Rightarrow> bool" where
  "lease_inv s \<longleftrightarrow> kv_inv (ls_kv s) \<and> ttl_inv (ls_ttl s) \<and> ttl_running (ls_ttl s)
     \<and> 0 \<le> ls_clock s \<and> ls_clock s \<le> i64_max
     \<and> (\<forall>x t ttl. ls_lease s x = Some (t, ttl) \<longrightarrow> t \<le> ls_clock s \<and> 0 \<le> t
          \<and> fst (snd x) \<le> kv_revision (ls_kv s))
     \<and> (\<forall>p \<in> set (ls_pending s). 0 < fst p \<and> (\<exists>t. ls_lease s (snd p) = Some (t, fst p)))
     \<and> (\<forall>k r. scheduled (ls_ttl s) k = Some r \<longrightarrow> tr_key r = k \<and> ends_by s (record_lease r) (tr_expireTime r))
     \<and> (\<forall>x \<in> set (ls_expired s). ends_by s x (ls_clock s))
     \<and> (\<forall>k e. map_of (kv_data (ls_kv s)) k = Some e \<longrightarrow>
          (\<forall>x. fst x = k \<longrightarrow> ls_lease s x \<noteq> None \<longrightarrow> lease_id_le x (entry_lease k e))
          \<and> (0 < ve_ttlMs e \<longrightarrow> (\<exists>t. ls_lease s (entry_lease k e) = Some (t, ve_ttlMs e))
               \<and> tracked s (entry_lease k e)))"

lemma lease_invI:
  assumes "kv_inv (ls_kv s)" "ttl_inv (ls_ttl s)" "ttl_running (ls_ttl s)" "0 \<le> ls_clock s" "ls_clock s \<le> i64_max"
    and "\<And>x t ttl. ls_lease s x = Some (t, ttl) \<Longrightarrow> t \<le> ls_clock s \<and> 0 \<le> t \<and> fst (snd x) \<le> kv_revision (ls_kv s)"
    and "\<And>p. p \<in> set (ls_pending s) \<Longrightarrow> 0 < fst p \<and> (\<exists>t. ls_lease s (snd p) = Some (t, fst p))"
    and "\<And>k r. scheduled (ls_ttl s) k = Some r \<Longrightarrow> tr_key r = k \<and> ends_by s (record_lease r) (tr_expireTime r)"
    and "\<And>x. x \<in> set (ls_expired s) \<Longrightarrow> ends_by s x (ls_clock s)"
    and "\<And>k e x. map_of (kv_data (ls_kv s)) k = Some e \<Longrightarrow> fst x = k \<Longrightarrow> ls_lease s x \<noteq> None
           \<Longrightarrow> lease_id_le x (entry_lease k e)"
    and "\<And>k e. map_of (kv_data (ls_kv s)) k = Some e \<Longrightarrow> 0 < ve_ttlMs e
           \<Longrightarrow> (\<exists>t. ls_lease s (entry_lease k e) = Some (t, ve_ttlMs e)) \<and> tracked s (entry_lease k e)"
  shows "lease_inv s"
  unfolding lease_inv_def using assms by (intro conjI ballI allI impI) auto

lemma lease_invD:
  assumes "lease_inv s"
  shows "kv_inv (ls_kv s)" "ttl_inv (ls_ttl s)" "ttl_running (ls_ttl s)" "0 \<le> ls_clock s" "ls_clock s \<le> i64_max"
    and "ls_lease s x = Some (t, ttl) \<Longrightarrow> t \<le> ls_clock s \<and> 0 \<le> t \<and> fst (snd x) \<le> kv_revision (ls_kv s)"
    and "p \<in> set (ls_pending s) \<Longrightarrow> 0 < fst p \<and> (\<exists>t. ls_lease s (snd p) = Some (t, fst p))"
    and "scheduled (ls_ttl s) k = Some r \<Longrightarrow> tr_key r = k \<and> ends_by s (record_lease r) (tr_expireTime r)"
    and "x \<in> set (ls_expired s) \<Longrightarrow> ends_by s x (ls_clock s)"
    and "map_of (kv_data (ls_kv s)) k = Some e \<Longrightarrow> fst x = k \<Longrightarrow> ls_lease s x \<noteq> None
           \<Longrightarrow> lease_id_le x (entry_lease k e)"
    and "map_of (kv_data (ls_kv s)) k = Some e \<Longrightarrow> 0 < ve_ttlMs e
           \<Longrightarrow> (\<exists>t. ls_lease s (entry_lease k e) = Some (t, ve_ttlMs e)) \<and> tracked s (entry_lease k e)"
  using assms unfolding lease_inv_def by (elim conjE; blast)+

lemma lease_inv_init: "lease_inv lease_init"
  by (rule lease_invI)
    (simp_all add: lease_init_def kv_inv_init ttl_inv_init TtlManager_Start_def i64_max_def,
     simp_all add: MemoryKvStore_init_def scheduled_def TtlManager_init_def)


section \<open>Preservation\<close>

lemma ends_by_mono:
  "ends_by s x time \<Longrightarrow> ls_lease s' x = ls_lease s x \<Longrightarrow> ls_clock s \<le> ls_clock s' \<Longrightarrow> time \<le> time' \<Longrightarrow> ends_by s' x time'"
  unfolding ends_by_def by (elim exE conjE, intro exI conjI) (assumption | simp)+

lemma ends_by_lease: "ends_by s x time \<Longrightarrow> ls_lease s x \<noteq> None"
  by (auto simp: ends_by_def)

lemma lease_inv_tick:
  assumes "lease_inv s" "ls_clock s \<le> t" "t \<le> i64_max"
  shows "lease_inv (s\<lparr>ls_clock := t\<rparr>)"
proof (rule lease_invI)
  fix x
  show "x \<in> set (ls_expired (s\<lparr>ls_clock := t\<rparr>)) \<Longrightarrow> ends_by (s\<lparr>ls_clock := t\<rparr>) x (ls_clock (s\<lparr>ls_clock := t\<rparr>))"
    using lease_invD(9) [OF assms(1), of x] assms(2) by (auto intro: ends_by_mono)
next
  fix x t' ttl
  show "ls_lease (s\<lparr>ls_clock := t\<rparr>) x = Some (t', ttl) \<Longrightarrow>
      t' \<le> ls_clock (s\<lparr>ls_clock := t\<rparr>) \<and> 0 \<le> t' \<and> fst (snd x) \<le> kv_revision (ls_kv (s\<lparr>ls_clock := t\<rparr>))"
    using lease_invD(6) [OF assms(1), of x t' ttl] assms(2) by simp
next
  fix k r
  show "scheduled (ls_ttl (s\<lparr>ls_clock := t\<rparr>)) k = Some r \<Longrightarrow>
      tr_key r = k \<and> ends_by (s\<lparr>ls_clock := t\<rparr>) (record_lease r) (tr_expireTime r)"
    using lease_invD(8) [OF assms(1), of k r] assms(2) by (auto intro: ends_by_mono)
qed (use lease_invD [OF assms(1)] assms(2,3) in \<open>simp_all add: tracked_def\<close>)

text \<open>A commit of a new lease for a key, by \<^verbatim>\<open>Put\<close> or \<^verbatim>\<open>KeepAlive\<close>.\<close>

lemma lease_inv_commit:
  assumes inv: "lease_inv s" and kv: "kv_inv kv" "kv_revision (ls_kv s) \<le> kv_revision kv"
    and data: "map_of (kv_data kv) = (map_of (kv_data (ls_kv s)))(k \<mapsto> e)"
    and x: "x = entry_lease k e" "ls_lease s x = None" "fst (snd x) \<le> kv_revision kv"
    and newest: "\<And>y. fst y = k \<Longrightarrow> ls_lease s y \<noteq> None \<Longrightarrow> lease_id_le y x"
    and ttl: "ve_ttlMs e = ttlMs"
    and s': "s' = s\<lparr>ls_kv := kv, ls_pending := (if 0 < ttlMs then (ttlMs, x) # ls_pending s else ls_pending s),
                   ls_lease := (ls_lease s)(x \<mapsto> (ls_clock s, ttlMs))\<rparr>"
  shows "lease_inv s'"
proof -
  have old: "ls_lease s' y = ls_lease s y" if "ls_lease s y \<noteq> None" for y
    using that x(2) by (auto simp: s')
  have ends: "ends_by s y time \<Longrightarrow> ends_by s' y time" for y time
    using old [of y] ends_by_lease [of s y time] ends_by_mono [of s y time s' time] by (auto simp: s')
  show ?thesis
  proof (rule lease_invI)
    fix p assume "p \<in> set (ls_pending s')"
    then consider "p \<in> set (ls_pending s)" | "0 < ttlMs" "p = (ttlMs, x)" by (auto simp: s' split: if_splits)
    then show "0 < fst p \<and> (\<exists>t. ls_lease s' (snd p) = Some (t, fst p))"
    proof cases
      case 1
      then show ?thesis using lease_invD(7) [OF inv 1] old [of "snd p"] by auto
    qed (simp add: s')
  next
    fix k' r assume "scheduled (ls_ttl s') k' = Some r"
    then show "tr_key r = k' \<and> ends_by s' (record_lease r) (tr_expireTime r)"
      using lease_invD(8) [OF inv, of k' r] ends by (simp add: s')
  next
    fix y assume "y \<in> set (ls_expired s')"
    then show "ends_by s' y (ls_clock s')"
      using lease_invD(9) [OF inv, of y] ends by (simp add: s')
  next
    fix y t ttl assume "ls_lease s' y = Some (t, ttl)"
    then show "t \<le> ls_clock s' \<and> 0 \<le> t \<and> fst (snd y) \<le> kv_revision (ls_kv s')"
      using lease_invD(6) [OF inv, of y t ttl] lease_invD(4) [OF inv] x(3) kv(2) by (auto simp: s' split: if_splits)
  next
    fix k' e' y assume *: "map_of (kv_data (ls_kv s')) k' = Some e'" "fst y = k'" "ls_lease s' y \<noteq> None"
    show "lease_id_le y (entry_lease k' e')"
    proof (cases "k' = k")
      case True
      then have "e' = e" using * by (simp add: s' data)
      then show ?thesis using * True newest [of y] x(1) by (auto simp: s' lease_id_le_def split: if_splits)
    next
      case False
      then have "map_of (kv_data (ls_kv s)) k' = Some e'" "ls_lease s y \<noteq> None"
        using * x(1) by (auto simp: s' data entry_lease_def split: if_splits)
      then show ?thesis using lease_invD(10) [OF inv] *(2) by blast
    qed
  next
    fix k' e' assume *: "map_of (kv_data (ls_kv s')) k' = Some e'" "0 < ve_ttlMs e'"
    show "(\<exists>t. ls_lease s' (entry_lease k' e') = Some (t, ve_ttlMs e')) \<and> tracked s' (entry_lease k' e')"
    proof (cases "k' = k")
      case True
      then have "e' = e" using * by (simp add: s' data)
      then show ?thesis using * True x(1) ttl by (simp add: s' tracked_def)
    next
      case False
      then have "map_of (kv_data (ls_kv s)) k' = Some e'" using * by (simp add: s' data)
      then have "(\<exists>t. ls_lease s (entry_lease k' e') = Some (t, ve_ttlMs e')) \<and> tracked s (entry_lease k' e')"
        using lease_invD(11) [OF inv] *(2) by blast
      moreover from this have "ls_lease s' (entry_lease k' e') = ls_lease s (entry_lease k' e')"
        using old [of "entry_lease k' e'"] by auto
      moreover have "tracked s y \<Longrightarrow> tracked s' y" for y by (auto simp: tracked_def s')
      ultimately show ?thesis by metis
    qed
  qed (use lease_invD(2-5) [OF inv] kv(1) in \<open>simp_all add: s'\<close>)
qed

text \<open>A step that only removes keys and drops finished callbacks.\<close>

lemma lease_inv_shrink:
  assumes inv: "lease_inv s" and kv: "kv_inv kv" "kv_revision (ls_kv s) \<le> kv_revision kv"
    and data: "\<And>k e. map_of (kv_data kv) k = Some e \<Longrightarrow> map_of (kv_data (ls_kv s)) k = Some e"
    and exp: "set rest \<subseteq> set (ls_expired s)"
    and kept: "\<And>k e. map_of (kv_data kv) k = Some e \<Longrightarrow> 0 < ve_ttlMs e
                \<Longrightarrow> entry_lease k e \<in> set (ls_expired s) \<Longrightarrow> entry_lease k e \<in> set rest"
  shows "lease_inv (s\<lparr>ls_kv := kv, ls_expired := rest\<rparr>)"
proof (rule lease_invI)
  fix k e assume *: "map_of (kv_data (ls_kv (s\<lparr>ls_kv := kv, ls_expired := rest\<rparr>))) k = Some e" "0 < ve_ttlMs e"
  then show "(\<exists>t. ls_lease (s\<lparr>ls_kv := kv, ls_expired := rest\<rparr>) (entry_lease k e) = Some (t, ve_ttlMs e))
      \<and> tracked (s\<lparr>ls_kv := kv, ls_expired := rest\<rparr>) (entry_lease k e)"
    using lease_invD(11) [OF inv data] kept [of k e] by (auto simp: tracked_def)
next
  fix x t ttl assume "ls_lease (s\<lparr>ls_kv := kv, ls_expired := rest\<rparr>) x = Some (t, ttl)"
  then show "t \<le> ls_clock (s\<lparr>ls_kv := kv, ls_expired := rest\<rparr>) \<and> 0 \<le> t
      \<and> fst (snd x) \<le> kv_revision (ls_kv (s\<lparr>ls_kv := kv, ls_expired := rest\<rparr>))"
    using lease_invD(6) [OF inv, of x t ttl] kv(2) by simp
next
  fix x assume "x \<in> set (ls_expired (s\<lparr>ls_kv := kv, ls_expired := rest\<rparr>))"
  then show "ends_by (s\<lparr>ls_kv := kv, ls_expired := rest\<rparr>) x (ls_clock (s\<lparr>ls_kv := kv, ls_expired := rest\<rparr>))"
    using lease_invD(9) [OF inv, of x] exp by (auto simp: ends_by_def)
next
  fix k e x assume "map_of (kv_data (ls_kv (s\<lparr>ls_kv := kv, ls_expired := rest\<rparr>))) k = Some e" "fst x = k"
    "ls_lease (s\<lparr>ls_kv := kv, ls_expired := rest\<rparr>) x \<noteq> None"
  then show "lease_id_le x (entry_lease k e)" using lease_invD(10) [OF inv data] by simp
qed (use lease_invD [OF inv] kv(1) in \<open>simp_all add: ends_by_def\<close>)


lemma Schedule_expireTime_eq:
  "0 \<le> now \<Longrightarrow> 0 \<le> ns ttl \<Longrightarrow> now + ns ttl \<le> i64_max \<Longrightarrow> Schedule_expireTime now ttl = now + ns ttl"
  unfolding Schedule_expireTime_def ns_def
  by (subst (2) wrap64_id, simp add: i64_max_def, simp add: i64_max_def)
    (rule wrap64_id; auto simp: i64_max_def)

lemma newer_scheduled_lease:
  assumes "\<And>r. scheduled m k = Some r \<Longrightarrow> tr_key r = k"
  shows "newer_scheduled m k rv g \<longleftrightarrow> (\<exists>r. scheduled m k = Some r \<and> \<not> lease_id_le (record_lease r) (k, rv, g))"
proof (cases "scheduled m k")
  case (Some r)
  then show ?thesis using assms [of r]
    by (auto simp: newer_scheduled_def lease_id_le_def record_lease_def not_less not_le)
qed (simp add: newer_scheduled_def)

lemma Schedule_running:
  assumes "TtlManager_Schedule now k ttl rv g m = Some (m', b)"
  shows "ttl_running m' = ttl_running m"
proof -
  have "ttl_running (fst (Schedule_insert rec m0)) = ttl_running m0" for rec m0
    by (simp add: Schedule_insert_def Let_def)
  then have "Schedule_insert rec m0 = (m', b) \<Longrightarrow> ttl_running m' = ttl_running m0" for rec m0
    by (metis fst_conv)
  with assms show ?thesis
    by (fastforce simp: TtlManager_Schedule_def Let_def split: if_splits option.splits)
qed

lemma lease_id_le_antisym: "lease_id_le x y \<Longrightarrow> lease_id_le y x \<Longrightarrow> x = y"
  by (cases x; cases y) (auto simp: lease_id_le_def)

lemma lease_id_le_trans: "lease_id_le x y \<Longrightarrow> lease_id_le y z \<Longrightarrow> lease_id_le x z"
  by (auto simp: lease_id_le_def)

lemma lease_inv_schedule:
  assumes inv: "lease_inv s" and pend: "ls_pending s = ps @ (ttlMs, k, rv, g) # qs"
    and sched: "TtlManager_Schedule (ls_clock s) k ttlMs rv g (ls_ttl s) = Some (m, notify)"
  shows "lease_inv (s\<lparr>ls_ttl := m, ls_pending := ps @ qs\<rparr>)"
proof -
  let ?x = "(k, rv, g)" and ?s' = "s\<lparr>ls_ttl := m, ls_pending := ps @ qs\<rparr>"
  let ?rec = "\<lparr>tr_key = k, tr_revision = rv, tr_ttlGeneration = g, tr_expireTime = Schedule_expireTime (ls_clock s) ttlMs\<rparr>"
  obtain t where ttl: "0 < ttlMs" and lease: "ls_lease s ?x = Some (t, ttlMs)"
    using lease_invD(7) [OF inv, of "(ttlMs, k, rv, g)"] pend by auto
  have t: "t \<le> ls_clock s" using lease_invD(6) [OF inv lease] by auto
  obtain m1 b1 where "TtlManager_Schedule (ls_clock s) k ttlMs rv g (ls_ttl s) = Some (m1, b1)" and m1: "ttl_inv m1"
    and res: "scheduled m1 = (if ttlMs \<le> 0 \<or> newer_scheduled (ls_ttl s) k rv g then scheduled (ls_ttl s)
                              else (scheduled (ls_ttl s))(k \<mapsto> ?rec))"
    using Schedule_spec [OF lease_invD(2) [OF inv], of "ls_clock s" k ttlMs rv g] by blast
  with sched have m: "ttl_inv m" and sch: "scheduled m = (if newer_scheduled (ls_ttl s) k rv g
      then scheduled (ls_ttl s) else (scheduled (ls_ttl s))(k \<mapsto> ?rec))" using ttl by auto
  have key: "scheduled (ls_ttl s) k' = Some r \<Longrightarrow> tr_key r = k'" for k' r
    using lease_invD(8) [OF inv] by blast
  have newer: "newer_scheduled (ls_ttl s) k rv g \<longleftrightarrow>
      (\<exists>r. scheduled (ls_ttl s) k = Some r \<and> \<not> lease_id_le (record_lease r) ?x)"
    using key by (rule newer_scheduled_lease)
  have leased: "scheduled (ls_ttl s) k' = Some r \<Longrightarrow> ls_lease s (record_lease r) \<noteq> None" for k' r
    using lease_invD(8) [OF inv] ends_by_lease by blast
  have keep: "tracked ?s' (entry_lease k' e)"
    if live: "map_of (kv_data (ls_kv s)) k' = Some e" and tr: "tracked s (entry_lease k' e)" for k' e
  proof -
    let ?y = "entry_lease k' e"
    have fst_y [simp]: "fst ?y = k'" by (simp add: entry_lease_def)
    have below: "fst z = k' \<Longrightarrow> ls_lease s z \<noteq> None \<Longrightarrow> lease_id_le z ?y" for z
      using lease_invD(10) [OF inv live] by blast
    consider "?y \<in> set (ls_expired s)" | "?y \<in> snd ` set (ps @ qs)" | "?y = ?x" | "in_schedule (ls_ttl s) ?y"
      using tr pend by (auto simp: tracked_def)
    then show ?thesis
    proof cases
      case 3
      have "\<not> newer_scheduled (ls_ttl s) k rv g"
      proof
        assume "newer_scheduled (ls_ttl s) k rv g"
        then obtain r where r: "scheduled (ls_ttl s) k = Some r" "\<not> lease_id_le (record_lease r) ?x"
          using newer by blast
        have "k' = k" using 3 by (simp add: entry_lease_def)
        moreover have "fst (record_lease r) = k" using key [OF r(1)] by (simp add: record_lease_def)
        ultimately show False using below leased [OF r(1)] r(2) 3 by metis
      qed
      with 3 show ?thesis by (simp add: tracked_def in_schedule_def sch record_lease_def)
    next
      case 4
      then obtain r where r: "scheduled (ls_ttl s) k' = Some r" "record_lease r = ?y"
        by (auto simp: in_schedule_def)
      show ?thesis
      proof (cases "k' = k \<and> \<not> newer_scheduled (ls_ttl s) k rv g")
        case True
        then have "lease_id_le ?y ?x"
          using r newer by metis
        moreover have "lease_id_le ?x ?y" using below [of ?x] True lease by simp
        ultimately have "?y = ?x" by (rule lease_id_le_antisym)
        then show ?thesis using True by (simp add: tracked_def in_schedule_def sch record_lease_def)
      next
        case False
        then show ?thesis using r by (auto simp: tracked_def in_schedule_def sch)
      qed
    qed (simp_all add: tracked_def)
  qed
  show ?thesis
  proof (rule lease_invI)
    fix k' r assume "scheduled (ls_ttl ?s') k' = Some r"
    then show "tr_key r = k' \<and> ends_by ?s' (record_lease r) (tr_expireTime r)"
      using lease_invD(8) [OF inv, of k' r] lease t
      by (auto simp: sch ends_by_def record_lease_def split: if_splits)
  next
    fix k' e assume "map_of (kv_data (ls_kv ?s')) k' = Some e" "0 < ve_ttlMs e"
    then show "(\<exists>t. ls_lease ?s' (entry_lease k' e) = Some (t, ve_ttlMs e)) \<and> tracked ?s' (entry_lease k' e)"
      using lease_invD(11) [OF inv, of k' e] keep by simp
  next
    show "ttl_running (ls_ttl ?s')" using Schedule_running [OF sched] lease_invD(3) [OF inv] by simp
  next
    fix p assume "p \<in> set (ls_pending ?s')"
    then show "0 < fst p \<and> (\<exists>t. ls_lease ?s' (snd p) = Some (t, fst p))"
      using lease_invD(7) [OF inv, of p] pend by auto
  next
    fix y assume "y \<in> set (ls_expired ?s')"
    then show "ends_by ?s' y (ls_clock ?s')" using lease_invD(9) [OF inv, of y] by (simp add: ends_by_def)
  qed (use lease_invD [OF inv] m in simp_all)
qed


lemma collect_effect:
  assumes "ttl_inv m" "ttl_running m" "TtlManager_CheckExpiration now m = (m', es)"
  shows "ttl_inv m'" "ttl_running m'"
    and "scheduled m' k = Some r \<Longrightarrow> scheduled m k = Some r"
    and "x \<in> set es \<Longrightarrow> \<exists>r. scheduled m (fst x) = Some r \<and> record_lease r = x \<and> tr_expireTime r \<le> now"
    and "scheduled m k = Some r \<Longrightarrow> scheduled m' k = Some r \<or> record_lease r \<in> set es"
proof -
  note c = CheckExpiration_cases [OF assms]
  let ?taken = "take MAX_EXPIRED_KEYS_PER_CHECK (filter (due now) (expiryMap m))"
  show inv': "ttl_inv m'" by (rule c(1))
  have "ttl_running (fst (collectExpired n now m)) = ttl_running m" for n
    by (induction n arbitrary: m) (simp_all add: Let_def split_beta split: list.split)
  from this [of MAX_EXPIRED_KEYS_PER_CHECK] show "ttl_running m'"
    using assms(2,3) by (simp add: TtlManager_CheckExpiration_def)
  have set_m: "set (expiryMap m) = set ?taken \<union> set (expiryMap m')"
    using arg_cong [OF c(2), of set] by (simp only: set_append)
  have "set ?taken \<subseteq> set (filter (due now) (expiryMap m))" by (rule set_take_subset)
  then have taken: "p \<in> set ?taken \<Longrightarrow> p \<in> set (expiryMap m) \<and> due now p" for p by auto
  have es: "set es = expired_entry ` set ?taken" unfolding c(3) by (rule set_map)
  show "scheduled m k = Some r" if "scheduled m' k = Some r"
  proof -
    from that obtain n where "(n, r) \<in> set (expiryMap m')" "tr_key r = k"
      using scheduled_iff [OF inv'] by blast
    then show ?thesis using scheduled_iff [OF assms(1)] set_m by blast
  qed
  show "\<exists>r. scheduled m (fst x) = Some r \<and> record_lease r = x \<and> tr_expireTime r \<le> now" if "x \<in> set es"
  proof -
    from that obtain n r where nr: "(n, r) \<in> set ?taken" "x = expired_entry (n, r)" unfolding es by auto
    then have "scheduled m (tr_key r) = Some r" "tr_expireTime r \<le> now"
      using taken [of "(n, r)"] scheduled_iff [OF assms(1), of "tr_key r" r] by auto
    then show ?thesis using nr(2) by (auto simp: expired_entry_def record_lease_def)
  qed
  show "scheduled m' k = Some r \<or> record_lease r \<in> set es" if "scheduled m k = Some r"
  proof -
    from that obtain n where nr: "(n, r) \<in> set (expiryMap m)" "tr_key r = k"
      using scheduled_iff [OF assms(1)] by blast
    have "record_lease r = expired_entry (n, r)" by (simp add: expired_entry_def record_lease_def)
    then show ?thesis using nr set_m es scheduled_iff [OF inv', of k r] by (metis UnE imageI)
  qed
qed

lemma lease_inv_collect:
  assumes inv: "lease_inv s" and coll: "TtlManager_CheckExpiration (ls_clock s) (ls_ttl s) = (m, es)"
  shows "lease_inv (s\<lparr>ls_ttl := m, ls_expired := ls_expired s @ es\<rparr>)"
proof -
  let ?s' = "s\<lparr>ls_ttl := m, ls_expired := ls_expired s @ es\<rparr>"
  note eff = collect_effect [OF lease_invD(2,3) [OF inv] coll]
  have "tracked ?s' x" if "tracked s x" for x
    using that eff(5) by (force simp: tracked_def in_schedule_def)
  then have "(\<exists>t. ls_lease ?s' (entry_lease k e) = Some (t, ve_ttlMs e)) \<and> tracked ?s' (entry_lease k e)"
    if "map_of (kv_data (ls_kv ?s')) k = Some e" "0 < ve_ttlMs e" for k e
    using that lease_invD(11) [OF inv, of k e] by simp
  moreover have "ends_by ?s' x (ls_clock ?s')" if "x \<in> set (ls_expired ?s')" for x
  proof (cases "x \<in> set es")
    case True
    then obtain r where "scheduled (ls_ttl s) (fst x) = Some r" "record_lease r = x" "tr_expireTime r \<le> ls_clock s"
      using eff(4) by blast
    then show ?thesis using lease_invD(8) [OF inv, of "fst x" r] by (auto intro: ends_by_mono)
  next
    case False
    then show ?thesis using that lease_invD(9) [OF inv, of x] by (simp add: ends_by_def)
  qed
  moreover have "tr_key r = k \<and> ends_by ?s' (record_lease r) (tr_expireTime r)"
    if "scheduled (ls_ttl ?s') k = Some r" for k r
    using that eff(3) [of k r] lease_invD(8) [OF inv, of k r] by (simp add: ends_by_def)
  ultimately show ?thesis
    using lease_invD [OF inv] eff(1,2) by (intro lease_invI) simp_all
qed

lemma lease_inv_put:
  assumes inv: "lease_inv s" and put: "MemoryKvStore_Put key val ttlMs ev em eg (ls_kv s) = Inr (kv, res, evs)"
    and lt: "kv_revision (ls_kv s) < i64_max"
    and x: "x = (key, put_revision res, put_ttlGeneration res)"
  shows "lease_inv (s\<lparr>ls_kv := kv, ls_pending := (if 0 < ttlMs then (ttlMs, x) # ls_pending s else ls_pending s),
                   ls_lease := (ls_lease s)(x \<mapsto> (ls_clock s, ttlMs))\<rparr>)"
proof -
  let ?R = "kv_revision (ls_kv s)"
  have R: "wrap64 (?R + 1) = ?R + 1" using lease_invD(1) [OF inv] lt by (simp add: wrap64_next kv_invD)
  obtain e where e: "e = Put_stored (map_of (kv_data (ls_kv s)) key) val ttlMs (?R + 1)"
    and kv: "kv = (ls_kv s)\<lparr>kv_data := om_put key e (kv_data (ls_kv s)), kv_revision := ?R + 1\<rparr>"
    and xe: "x = entry_lease key e" "fst (snd x) = ?R + 1"
    using put x R by (auto simp: entry_lease_def elim!: Put_cases)
  have old: "fst (snd y) \<le> ?R" if "ls_lease s y \<noteq> None" for y
    using that lease_invD(6) [OF inv, of y] by auto
  have "kv_inv kv"
    using kv_step_inv [OF lease_invD(1) [OF inv] lt, of "OpPut key val ttlMs ev em eg"] put by simp
  then show ?thesis
  proof (rule lease_inv_commit [OF inv])
    show "ls_lease s x = None" by (rule ccontr) (use old [of x] xe(2) in simp)
    show "lease_id_le y x" if "fst y = key" "ls_lease s y \<noteq> None" for y
      using old [OF that(2)] that(1) xe by (simp add: lease_id_le_def entry_lease_def)
    show "ve_ttlMs e = ttlMs" by (simp add: e)
  qed (use xe in \<open>simp_all add: kv store_simps\<close>)
qed

lemma lease_inv_keepalive:
  assumes inv: "lease_inv s" and ka: "MemoryKvStore_KeepAlive key em (ls_kv s) = Inr (kv, res)"
    and gen: "ka_ttlGeneration res \<noteq> 0" and x: "x = (key, ka_revision res, ka_ttlGeneration res)"
  shows "lease_inv (s\<lparr>ls_kv := kv, ls_pending := (ka_ttlMs res, x) # ls_pending s,
                   ls_lease := (ls_lease s)(x \<mapsto> (ls_clock s, ka_ttlMs res))\<rparr>)"
proof -
  obtain e where e: "map_of (kv_data (ls_kv s)) key = Some e" "0 < ve_ttlMs e"
    and kv: "kv = (ls_kv s)\<lparr>kv_data := om_put key (e\<lparr>ve_ttlGeneration := ve_ttlGeneration e + 1\<rparr>) (kv_data (ls_kv s))\<rparr>"
    and res: "ka_ttlMs res = ve_ttlMs e" "ka_revision res = ve_modRevision e" "ka_ttlGeneration res = ve_ttlGeneration e + 1"
    using ka by (auto elim!: KeepAlive_cases)
  let ?e = "e\<lparr>ve_ttlGeneration := ve_ttlGeneration e + 1\<rparr>"
  have grow: "ve_ttlGeneration e < ve_ttlGeneration e + 1"
    using gen res(3) unatSuc [of "ve_ttlGeneration e"] by (simp add: word_less_nat_alt add.commute)
  have below: "lease_id_le y (entry_lease key e)" if "fst y = key" "ls_lease s y \<noteq> None" for y
    using lease_invD(10) [OF inv e(1)] that by blast
  have xe: "x = entry_lease key ?e" using x res by (simp add: entry_lease_def)
  have "kv_inv kv" using kv_inv_generation [OF lease_invD(1) [OF inv] e(1)] by (simp add: kv)
  then have "lease_inv (s\<lparr>ls_kv := kv, ls_pending := (if 0 < ve_ttlMs e then (ve_ttlMs e, x) # ls_pending s else ls_pending s),
                   ls_lease := (ls_lease s)(x \<mapsto> (ls_clock s, ve_ttlMs e))\<rparr>)"
  proof (rule lease_inv_commit [OF inv, where k = key and e = ?e])
    show "ls_lease s x = None"
      by (rule ccontr) (use below [of x] grow in \<open>auto simp: xe entry_lease_def lease_id_le_def\<close>)
    show "lease_id_le y x" if "fst y = key" "ls_lease s y \<noteq> None" for y
      using below [OF that] grow by (auto simp: xe entry_lease_def lease_id_le_def)
    show "fst (snd x) \<le> kv_revision kv"
      using kv_invD(5) [OF lease_invD(1) [OF inv] e(1)] by (simp add: xe entry_lease_def kv)
  qed (simp_all add: kv store_simps xe)
  with e(2) res(1) show ?thesis by simp
qed


lemma lease_step_inv: "lease_step s s' \<Longrightarrow> lease_inv s \<Longrightarrow> lease_inv s'"
proof (induction rule: lease_step.induct)
  case (l_delete key rangeEnd em s kv res evs)
  have "kv_inv kv" "kv_revision (ls_kv s) \<le> kv_revision kv"
    using kv_step_inv [OF lease_invD(1) [OF l_delete(3)] l_delete(2), of "OpDelete key rangeEnd em"]
      kv_step_revision [OF lease_invD(1) [OF l_delete(3)] l_delete(2), of "OpDelete key rangeEnd em"] l_delete(1)
    by auto
  moreover have "map_of (kv_data (ls_kv s)) k = Some e" if "map_of (kv_data kv) k = Some e" for k e
    using l_delete(1) that by (auto simp: om.get_fold_del split: if_splits elim!: Delete_cases)
  ultimately show ?case
    using lease_inv_shrink [OF l_delete(3), of kv "ls_expired s"] by simp
next
  case (l_put key val ttlMs ev em eg s kv res evs x)
  then show ?case using lease_inv_put by blast
next
  case (l_callback s key revision gen rest deleted kv evs)
  have "kv_inv kv" "kv_revision (ls_kv s) \<le> kv_revision kv"
    using kv_step_inv [OF lease_invD(1) [OF l_callback(4)] l_callback(3), of "OpExpire key revision gen"]
      kv_step_revision [OF lease_invD(1) [OF l_callback(4)] l_callback(3), of "OpExpire key revision gen"] l_callback(2)
    by auto
  moreover have sub: "map_of (kv_data (ls_kv s)) k = Some e" if "map_of (kv_data kv) k = Some e" for k e
    using l_callback(2) that by (cases rule: Expire_cases [of key revision gen "ls_kv s"])
      (auto simp: store_simps split: if_splits)
  moreover have "entry_lease k e \<in> set rest"
    if "map_of (kv_data kv) k = Some e" "0 < ve_ttlMs e" "entry_lease k e \<in> set (ls_expired s)" for k e
  proof -
    have "entry_lease k e \<noteq> (key, revision, gen)"
    proof
      assume "entry_lease k e = (key, revision, gen)"
      moreover have "map_of (kv_data (ls_kv s)) k = Some e" using that(1) by (rule sub)
      ultimately show False using l_callback(2) that(1,2)
        by (auto simp: entry_lease_def MemoryKvStore_DeleteIfTtlExpired_def Let_def store_simps)
    qed
    with that(3) l_callback(1) show ?thesis by auto
  qed
  ultimately show ?case using l_callback(1,4) by (intro lease_inv_shrink) auto
qed (auto intro: lease_inv_tick lease_inv_put lease_inv_keepalive lease_inv_schedule lease_inv_collect)

lemma lease_reachable_inv: "lease_reachable s \<Longrightarrow> lease_inv s"
  by (induction rule: lease_reachable.induct) (auto intro: lease_inv_init lease_step_inv)

section \<open>Properties of the protocol\<close>

text \<open>
  C4. A lease never expires early unless its TTL overflows the clock. Whenever an expiry callback removes a key, in any
  interleaving of puts, keep-alives, deletions, late \<^verbatim>\<open>Schedule\<close> calls and late callbacks that does not exhaust
  the revision and generation counters, the entry it removes is the one the callback was scheduled for. If
  the TTL of the entry, added to the clock, still fits the 64 bits of a clock value, the full TTL has
  passed since the last put or keep-alive that renewed it, whatever TTLs other keys have.
\<close>

theorem lease_never_early:
  assumes "lease_reachable s" and "(k, revision, gen) \<in> set (ls_expired s)"
    and "MemoryKvStore_DeleteIfTtlExpired k revision gen (ls_kv s) = (True, kv, evs)"
  shows "\<exists>e t. map_of (kv_data (ls_kv s)) k = Some e \<and> entry_lease k e = (k, revision, gen)
    \<and> ls_lease s (k, revision, gen) = Some (t, ve_ttlMs e)
    \<and> (ls_clock s + ve_ttlMs e * 1000000 \<le> i64_max \<longrightarrow> t + ve_ttlMs e * 1000000 \<le> ls_clock s)"
proof -
  have inv: "lease_inv s" using assms(1) by (rule lease_reachable_inv)
  obtain e where e: "map_of (kv_data (ls_kv s)) k = Some e" "ve_modRevision e = revision" "0 < ve_ttlMs e"
    "ve_ttlGeneration e = gen"
    using assms(3) by (cases rule: Expire_cases [of k revision gen "ls_kv s"]) auto
  then have id: "entry_lease k e = (k, revision, gen)" by (simp add: entry_lease_def)
  obtain t where t: "ls_lease s (k, revision, gen) = Some (t, ve_ttlMs e)"
    using lease_invD(11) [OF inv e(1,3)] id by auto
  obtain c where c: "t \<le> c" "c \<le> ls_clock s" "Schedule_expireTime c (ve_ttlMs e) \<le> ls_clock s"
    using lease_invD(9) [OF inv assms(2)] t by (auto simp: ends_by_def)
  have "0 \<le> t" using lease_invD(6) [OF inv t] by simp
  then have "t + ns (ve_ttlMs e) \<le> ls_clock s" if "ls_clock s + ns (ve_ttlMs e) \<le> i64_max"
    using Schedule_expireTime_eq [of c "ve_ttlMs e"] that c e(3) by (simp add: ns_def)
  then show ?thesis using e(1) id t by (auto simp: ns_def)
qed

definition lease_ex_put :: LeaseState where
  "lease_ex_put = lease_init\<lparr>ls_kv := fst (kv_step MemoryKvStore_init (OpPut ''a'' ''v'' 5 0 0 0)),
     ls_pending := [(5, ''a'', 2, 1)], ls_lease := [(''a'', 2, 1) \<mapsto> (0, 5)]\<rparr>"

definition lease_ex_sched :: LeaseState where
  "lease_ex_sched = lease_ex_put\<lparr>
     ls_ttl := fst (the (TtlManager_Schedule 0 ''a'' 5 2 1 (TtlManager_Start TtlManager_init))), ls_pending := []\<rparr>"

definition lease_ex_due :: LeaseState where
  "lease_ex_due = lease_ex_sched\<lparr>ls_clock := 5000000,
     ls_ttl := fst (TtlManager_CheckExpiration 5000000 (ls_ttl lease_ex_sched)), ls_expired := [(''a'', 2, 1)]\<rparr>"

lemmas lease_exec =
  lease_init_def lease_ex_put_def lease_ex_sched_def lease_ex_due_def MemoryKvStore_init_def kv_exec
  TtlManager_Start_def TtlManager_init_def TtlManager_Schedule_def Schedule_insert_def Schedule_expireTime_def
  ns_def i64_max_def

lemma lease_ex_put_reachable: "lease_reachable lease_ex_put"
proof -
  have put: "MemoryKvStore_Put ''a'' ''v'' 5 0 0 0 (ls_kv lease_init) = Inr (ls_kv lease_ex_put,
      \<lparr>put_version = 1, put_revision = 2, put_ttlGeneration = 1\<rparr>, [])"
    by (simp add: lease_exec)
  have "lease_step lease_init lease_ex_put"
    using l_put [OF put] by (simp add: lease_exec)
  with lease_start show ?thesis by (rule lease_next)
qed

lemma lease_ex_sched_reachable: "lease_reachable lease_ex_sched"
proof -
  have "lease_step lease_ex_put lease_ex_sched"
    using l_schedule [of lease_ex_put "[]" 5 "''a''" 2 1 "[]" "ls_ttl lease_ex_sched" True]
    by (simp add: lease_exec)
  with lease_ex_put_reachable show ?thesis by (rule lease_next)
qed

lemma lease_ex_due_reachable: "lease_reachable lease_ex_due"
proof -
  let ?s = "lease_ex_sched\<lparr>ls_clock := 5000000\<rparr>"
  have "lease_step lease_ex_sched ?s" by (rule l_tick) (simp_all add: lease_exec)
  with lease_ex_sched_reachable have r: "lease_reachable ?s" by (rule lease_next)
  let ?m = "ls_ttl lease_ex_sched"
  have inv: "ttl_inv ?m" "ttl_running ?m"
    using lease_invD(2,3) [OF lease_reachable_inv [OF lease_ex_sched_reachable]] by auto
  have "snd (TtlManager_CheckExpiration 5000000 ?m) = [(''a'', 2, 1)]"
    using CheckExpiration_cases(3) [OF inv prod.collapse [symmetric], of 5000000]
    by (simp add: lease_exec expired_entry_def MAX_EXPIRED_KEYS_PER_CHECK_def)
  then have "TtlManager_CheckExpiration 5000000 ?m = (ls_ttl lease_ex_due, [(''a'', 2, 1)])"
    by (simp add: prod_eq_iff lease_ex_due_def)
  then have "lease_step ?s lease_ex_due"
    using l_collect [of ?s] by (simp add: lease_ex_due_def lease_ex_sched_def lease_ex_put_def lease_init_def)
  with r show ?thesis by (rule lease_next)
qed

theorem lease_never_early_witness:
  "\<exists>e t. map_of (kv_data (ls_kv lease_ex_due)) ''a'' = Some e \<and> entry_lease ''a'' e = (''a'', 2, 1)
    \<and> ls_lease lease_ex_due (''a'', 2, 1) = Some (t, ve_ttlMs e)
    \<and> ls_clock lease_ex_due + ve_ttlMs e * 1000000 \<le> i64_max \<and> t + ve_ttlMs e * 1000000 \<le> ls_clock lease_ex_due"
proof -
  have "fst (MemoryKvStore_DeleteIfTtlExpired ''a'' 2 1 (ls_kv lease_ex_due))"
    by (simp add: lease_exec)
  then obtain kv evs where d: "MemoryKvStore_DeleteIfTtlExpired ''a'' 2 1 (ls_kv lease_ex_due) = (True, kv, evs)"
    by (metis (full_types) prod.collapse)
  have "(''a'', 2, 1) \<in> set (ls_expired lease_ex_due)" by (simp add: lease_ex_due_def)
  from lease_never_early [OF lease_ex_due_reachable this d] obtain e t where
    e: "map_of (kv_data (ls_kv lease_ex_due)) ''a'' = Some e" "entry_lease ''a'' e = (''a'', 2, 1)"
    "ls_lease lease_ex_due (''a'', 2, 1) = Some (t, ve_ttlMs e)"
    "ls_clock lease_ex_due + ve_ttlMs e * 1000000 \<le> i64_max \<longrightarrow> t + ve_ttlMs e * 1000000 \<le> ls_clock lease_ex_due"
    by blast
  have "ls_clock lease_ex_due + ve_ttlMs e * 1000000 \<le> i64_max" using e(1) by (auto simp: lease_exec)
  with e show ?thesis by blast
qed

text \<open>
  C11. A lease is never forgotten. In every reachable state the current lease of each live key
  with a TTL is either still to be scheduled by the call that committed it, or in the expiry
  schedule, or collected and waiting for its callback; no race loses it, so the key cannot stay
  for ever.
\<close>

theorem lease_never_forgotten:
  assumes "lease_reachable s" and "map_of (kv_data (ls_kv s)) k = Some e" and "0 < ve_ttlMs e"
  shows "entry_lease k e \<in> snd ` set (ls_pending s) \<or> in_schedule (ls_ttl s) (entry_lease k e)
    \<or> entry_lease k e \<in> set (ls_expired s)"
  using lease_invD(11) [OF lease_reachable_inv [OF assms(1)] assms(2,3)] by (simp add: tracked_def)

theorem lease_never_forgotten_witness:
  "in_schedule (ls_ttl lease_ex_sched) (''a'', 2, 1)"
proof -
  obtain e where e: "map_of (kv_data (ls_kv lease_ex_sched)) ''a'' = Some e" "0 < ve_ttlMs e" "entry_lease ''a'' e = (''a'', 2, 1)"
    by (simp add: lease_exec entry_lease_def)
  with lease_never_forgotten [OF lease_ex_sched_reachable e(1,2)] show ?thesis
    by (simp add: lease_exec)
qed


section \<open>Leases that are not renewed do expire\<close>

text \<open>The callbacks of one pass on the store, as \<^verbatim>\<open>expirationPass\<close> makes them.\<close>

definition kv_expire :: "LeaseId \<Rightarrow> MemoryKvStore \<Rightarrow> MemoryKvStore" where
  "kv_expire x kv = fst (snd (MemoryKvStore_DeleteIfTtlExpired (fst x) (fst (snd x)) (snd (snd x)) kv))"

lemma kv_expire_sub:
  assumes "map_of (kv_data (kv_expire x kv)) k = Some e"
  shows "map_of (kv_data kv) k = Some e" and "0 < ve_ttlMs e \<Longrightarrow> entry_lease k e \<noteq> x"
proof -
  show live: "map_of (kv_data kv) k = Some e"
    using assms by (cases rule: Expire_cases [of "fst x" "fst (snd x)" "snd (snd x)" kv])
      (auto simp: kv_expire_def store_simps split: if_splits)
  have "map_of (kv_data (kv_expire (entry_lease k e) kv)) k = None" if "0 < ve_ttlMs e"
    using live that by (simp add: kv_expire_def entry_lease_def MemoryKvStore_DeleteIfTtlExpired_def Let_def store_simps)
  with assms show "0 < ve_ttlMs e \<Longrightarrow> entry_lease k e \<noteq> x" by auto
qed

lemma kv_expire_fold:
  "map_of (kv_data (fold kv_expire xs kv)) k = Some e \<Longrightarrow>
     map_of (kv_data kv) k = Some e \<and> (0 < ve_ttlMs e \<longrightarrow> entry_lease k e \<notin> set xs)"
proof (induction xs arbitrary: kv)
  case (Cons x xs)
  from Cons.IH [of "kv_expire x kv"] Cons.prems kv_expire_sub [of x kv k e] show ?case by auto
qed simp

lemma expireCallback_kv:
  assumes "co_memKvStore s = Some kv"
  shows "co_memKvStore (expireCallback x s) = Some (kv_expire x kv)"
proof -
  have "co_memKvStore (fold mutationCallback evs s') = co_memKvStore s'" for evs s'
    by (induction evs arbitrary: s') (simp_all add: mutationCallback_def)
  then show ?thesis using assms by (simp add: expireCallback_def kv_expire_def Let_def split_beta)
qed

lemma expireCallbacks_kv:
  "co_memKvStore s = Some kv \<Longrightarrow> co_memKvStore (fold expireCallback xs s) = Some (fold kv_expire xs kv)"
  by (induction xs arbitrary: s kv) (simp_all add: expireCallback_kv)

text \<open>
  C12. A lease that is not renewed expires. Take a reachable state in which no call is under
  way, and a live key with a TTL. Its lease is in the schedule, and a pass of the expiration
  thread at any time from its expiry time on, with at most 1024 records due, removes the key
  from the coordinator's store.
\<close>

theorem lease_expires:
  assumes "lease_reachable s" and "ls_pending s = []" and "ls_expired s = []"
    and "map_of (kv_data (ls_kv s)) k = Some e" and "0 < ve_ttlMs e"
    and "co_memKvStore co = Some (ls_kv s)" and "co_ttlManager co = Some (ls_ttl s)"
    and "length (filter (due now) (expiryMap (ls_ttl s))) \<le> 1024"
  shows "\<exists>r. scheduled (ls_ttl s) k = Some r \<and> record_lease r = entry_lease k e
    \<and> (tr_expireTime r \<le> now \<longrightarrow>
         map_option (\<lambda>kv. map_of (kv_data kv) k) (co_memKvStore (expirationPass now co)) = Some None)"
proof -
  have inv: "lease_inv s" using assms(1) by (rule lease_reachable_inv)
  have "fst (entry_lease k e) = k" by (simp add: entry_lease_def)
  then obtain r where r: "scheduled (ls_ttl s) k = Some r" "record_lease r = entry_lease k e"
    using lease_invD(11) [OF inv assms(4,5)] assms(2,3) by (auto simp: tracked_def in_schedule_def)
  obtain m es where m: "TtlManager_CheckExpiration now (ls_ttl s) = (m, es)" by fastforce
  note c = CheckExpiration_cases [OF lease_invD(2,3) [OF inv] m]
  have "entry_lease k e \<in> set es" if "tr_expireTime r \<le> now"
  proof -
    obtain n where "(n, r) \<in> set (expiryMap (ls_ttl s))"
      using r(1) scheduled_iff [OF lease_invD(2) [OF inv]] by blast
    with that have "(n, r) \<in> set (filter (due now) (expiryMap (ls_ttl s)))" by simp
    then have "expired_entry (n, r) \<in> set (map expired_entry (filter (due now) (expiryMap (ls_ttl s))))"
      unfolding set_map by (rule imageI)
    moreover have "es = map expired_entry (filter (due now) (expiryMap (ls_ttl s)))"
      unfolding c(3) using assms(8) by (simp add: MAX_EXPIRED_KEYS_PER_CHECK_def)
    moreover have "expired_entry (n, r) = entry_lease k e"
      unfolding r(2) [symmetric] by (simp add: expired_entry_def record_lease_def)
    ultimately show ?thesis by (simp only:)
  qed
  moreover have "co_memKvStore (expirationPass now co) = Some (fold kv_expire es (ls_kv s))"
    using assms(6,7) m by (simp add: expirationPass_def expireCallbacks_kv)
  moreover have "map_of (kv_data (fold kv_expire es (ls_kv s))) k = None" if "entry_lease k e \<in> set es"
  proof (cases "map_of (kv_data (fold kv_expire es (ls_kv s))) k")
    case (Some e')
    from kv_expire_fold [OF this] assms(4,5) that show ?thesis by auto
  qed
  ultimately show ?thesis using r by auto
qed

theorem lease_expires_witness:
  "let co = CoordinatorStore_new (Some (ls_kv lease_ex_sched)) None None (Some (ls_ttl lease_ex_sched)) in
   map_option (\<lambda>kv. map_of (kv_data kv) ''a'') (co_memKvStore (expirationPass 5000000 co)) = Some None"
proof -
  let ?co = "CoordinatorStore_new (Some (ls_kv lease_ex_sched)) None None (Some (ls_ttl lease_ex_sched))"
  obtain e where e: "map_of (kv_data (ls_kv lease_ex_sched)) ''a'' = Some e" "0 < ve_ttlMs e"
    by (simp add: lease_exec)
  have p: "ls_pending lease_ex_sched = []" "ls_expired lease_ex_sched = []"
    by (simp_all add: lease_exec)
  have len: "length (filter (due 5000000) (expiryMap (ls_ttl lease_ex_sched))) \<le> 1024"
    by (simp add: lease_exec)
  have sched: "scheduled (ls_ttl lease_ex_sched) ''a'' =
      Some \<lparr>tr_key = ''a'', tr_revision = 2, tr_ttlGeneration = 1, tr_expireTime = 5000000\<rparr>"
    by (simp add: lease_exec scheduled_def)
  have co: "co_memKvStore ?co = Some (ls_kv lease_ex_sched)" "co_ttlManager ?co = Some (ls_ttl lease_ex_sched)"
    by (simp_all add: CoordinatorStore_new_def)
  obtain r where r: "scheduled (ls_ttl lease_ex_sched) ''a'' = Some r" and gone: "tr_expireTime r \<le> 5000000 \<longrightarrow>
      map_option (\<lambda>kv. map_of (kv_data kv) ''a'') (co_memKvStore (expirationPass 5000000 ?co)) = Some None"
    using lease_expires [OF lease_ex_sched_reachable p e co len] by blast
  have "tr_expireTime r \<le> 5000000" using r unfolding sched by auto
  with gone show ?thesis unfolding Let_def by blast
qed

end
