(* ===== verification/Net_Util.thy ===== *)
theory Net_Util
  imports Prelude
begin

text \<open>
  Endpoint text: \<^verbatim>\<open>common/util/net_util.{h,cpp}\<close>, the address checks of
  \<^verbatim>\<open>common/util/validator.h\<close> and the decimal conversions they use.

  The checks match a pattern with RE2, which is not part of the repository. Its full match is
  the parameter \<open>re\<close> of the definitions: \<open>re value pattern\<close> is the answer of
  \<^verbatim>\<open>RE2::FullMatch\<close> for a subject and the text of a pattern. What the development relies on is
  the hypothesis \<open>re2_semantics\<close>: on the two patterns of the validator the answer is membership
  in the language that the pattern denotes. The languages are given by a small type of regular
  expressions with a matcher that enumerates the remainders of a prefix match.
\<close>

section \<open>Decimal text\<close>

definition digit_char :: "nat \<Rightarrow> char" where
  "digit_char d = char_of (48 + d)"

fun to_string :: "nat \<Rightarrow> string" where
  "to_string n = (if n < 10 then [digit_char n] else to_string (n div 10) @ [digit_char (n mod 10)])"

declare to_string.simps [simp del]

definition to_string_int :: "int \<Rightarrow> string" where
  "to_string_int i = (if i < 0 then CHR ''-'' # to_string (nat (- i)) else to_string (nat i))"

definition isdigit :: "char \<Rightarrow> bool" where
  "isdigit c \<longleftrightarrow> CHR ''0'' \<le> c \<and> c \<le> CHR ''9''"

definition digit_val :: "char \<Rightarrow> nat" where
  "digit_val c = of_char c - 48"

definition decimal :: "string \<Rightarrow> nat" where
  "decimal s = foldl (\<lambda>n c. 10 * n + digit_val c) 0 s"

definition isspace :: "char \<Rightarrow> bool" where
  "isspace c \<longleftrightarrow> c = CHR '' '' \<or> (CHR 0x09 \<le> c \<and> c \<le> CHR 0x0D)"

text \<open>
  \<^verbatim>\<open>std::stoi\<close>: leading blanks, an optional sign and the longest run of digits; \<open>None\<close> stands
  for the two exceptions (no digit, value outside \<^verbatim>\<open>int\<close>), which the caller treats alike.
\<close>

definition stoi :: "string \<Rightarrow> int option" where
  "stoi str =
     (let s = dropWhile isspace str;
          neg = (s \<noteq> [] \<and> hd s = CHR ''-'');
          t = (if s \<noteq> [] \<and> (hd s = CHR ''-'' \<or> hd s = CHR ''+'') then tl s else s);
          ds = takeWhile isdigit t;
          v = (if neg then - int (decimal ds) else int (decimal ds))
      in if ds = [] then None
         else if - (2 ^ 31) \<le> v \<and> v \<le> 2 ^ 31 - 1 then Some v
         else None)"

definition StringToInt :: "string \<Rightarrow> int \<Rightarrow> bool \<times> int" where
  "StringToInt str num = (case stoi str of Some n \<Rightarrow> (True, n) | None \<Rightarrow> (False, num))"

section \<open>Positions in a string\<close>

definition find_last_of :: "string \<Rightarrow> char \<Rightarrow> nat option" where
  "find_last_of s c =
     (if c \<in> set s then Some (length s - 1 - length (takeWhile (\<lambda>x. x \<noteq> c) (rev s))) else None)"

definition front_char :: "string \<Rightarrow> char" where
  "front_char s = (case s of [] \<Rightarrow> CHR 0x00 | c # _ \<Rightarrow> c)"

lemma find_last_of_append:
  assumes "c \<notin> set q"
  shows "find_last_of (p @ c # q) c = Some (length p)"
proof -
  have "takeWhile (\<lambda>x. x \<noteq> c) (rev (p @ c # q)) = rev q"
    using assms by (simp add: takeWhile_append)
  then show ?thesis by (simp add: find_last_of_def)
qed

lemma find_last_of_SomeD:
  assumes "find_last_of s c = Some n"
  obtains q where "s = take n s @ c # q" "q = drop (Suc n) s" "c \<notin> set q" "n < length s"
proof -
  from assms have "c \<in> set s" by (simp add: find_last_of_def split: if_splits)
  then obtain p q where s: "s = p @ c # q" "c \<notin> set q" by (meson split_list_last)
  then have "n = length p" using assms find_last_of_append by simp
  with s that show ?thesis by auto
qed

section \<open>Regular expressions\<close>

datatype rx = Eps | Rng char char | Cat rx rx | Alt rx rx

abbreviation Chr :: "char \<Rightarrow> rx" where
  "Chr c \<equiv> Rng c c"

fun rx_rep :: "rx \<Rightarrow> nat \<Rightarrow> nat \<Rightarrow> rx" where
  "rx_rep r (Suc m) n = Cat r (rx_rep r m (n - 1))"
| "rx_rep r 0 0 = Eps"
| "rx_rep r 0 (Suc n) = Alt Eps (Cat r (rx_rep r 0 n))"

declare rx_rep.simps [simp del]

definition rx_lit :: "string \<Rightarrow> rx" where
  "rx_lit s = foldr (\<lambda>c r. Cat (Chr c) r) s Eps"

definition rx_any :: "rx list \<Rightarrow> rx" where
  "rx_any rs = foldr Alt (butlast rs) (last rs)"

fun rx_rest :: "rx \<Rightarrow> string \<Rightarrow> string list" where
  "rx_rest Eps s = [s]"
| "rx_rest (Rng a b) s = (case s of [] \<Rightarrow> [] | c # t \<Rightarrow> if a \<le> c \<and> c \<le> b then [t] else [])"
| "rx_rest (Cat r q) s = concat (map (rx_rest q) (rx_rest r s))"
| "rx_rest (Alt r q) s = rx_rest r s @ rx_rest q s"

definition rx_match :: "rx \<Rightarrow> string \<Rightarrow> bool" where
  "rx_match r s \<longleftrightarrow> [] \<in> set (rx_rest r s)"

fun rx_lang :: "rx \<Rightarrow> string set" where
  "rx_lang Eps = {[]}"
| "rx_lang (Rng a b) = {[c] | c. a \<le> c \<and> c \<le> b}"
| "rx_lang (Cat r q) = {s @ t | s t. s \<in> rx_lang r \<and> t \<in> rx_lang q}"
| "rx_lang (Alt r q) = rx_lang r \<union> rx_lang q"

lemma rx_rest_iff: "t \<in> set (rx_rest r s) \<longleftrightarrow> (\<exists>p. p \<in> rx_lang r \<and> s = p @ t)"
proof (induction r arbitrary: s t)
  case (Rng a b)
  show ?case by (cases s) auto
next
  case (Cat r q)
  have "t \<in> set (rx_rest (Cat r q) s) \<longleftrightarrow>
      (\<exists>u. u \<in> set (rx_rest r s) \<and> t \<in> set (rx_rest q u))"
    unfolding rx_rest.simps set_concat set_map by blast
  also have "\<dots> \<longleftrightarrow> (\<exists>u p p'. p \<in> rx_lang r \<and> s = p @ u \<and> p' \<in> rx_lang q \<and> u = p' @ t)"
    unfolding Cat.IH by blast
  also have "\<dots> \<longleftrightarrow> (\<exists>p. p \<in> rx_lang (Cat r q) \<and> s = p @ t)" by fastforce
  finally show ?case .
qed auto

lemma rx_match_lang: "rx_match r s \<longleftrightarrow> s \<in> rx_lang r"
  by (simp add: rx_match_def rx_rest_iff)

section \<open>The address checks of the validator\<close>

type_synonym re2 = "string \<Rightarrow> string \<Rightarrow> bool"

definition IPV4_HOST_PORT_RE :: string where
  "IPV4_HOST_PORT_RE =
     ''^(((25[0-5]|2[0-4][0-9]|1[0-9][0-9]|[0-9]{1,2})('' @ [CHR 0x5C] @ ''.(25[0-5]|2[0-4][0-9]|1[0-9][0-9]|[0-9]{1,2})){3})|('' @
     ''localhost))(:((6553[0-5])|(655[0-2][0-9])|(65[0-4][0-9]{2})|'' @
     ''(6[0-4][0-9]{3})|([1-5][0-9]{4})|([0-5]{1,5})|([0-9]{1,4})))$''"

definition PORT_RE :: string where
  "PORT_RE =
     ''^((6553[0-5])|(655[0-2][0-9])|(65[0-4][0-9]{2})|(6[0-4][0-9]{3})|([1-5][0-9]{4})|([0-5]{1,5})|([0-9]{1,4})'' @
     '')$''"

definition rx_digit :: rx where
  "rx_digit = Rng (CHR ''0'') (CHR ''9'')"

definition octet_rx :: rx where
  "octet_rx = rx_any
     [Cat (rx_lit ''25'') (Rng (CHR ''0'') (CHR ''5'')),
      Cat (rx_lit ''2'') (Cat (Rng (CHR ''0'') (CHR ''4'')) rx_digit),
      Cat (rx_lit ''1'') (Cat rx_digit rx_digit),
      rx_rep rx_digit 1 2]"

definition host_rx :: rx where
  "host_rx = Alt (Cat octet_rx (rx_rep (Cat (Chr (CHR ''.'')) octet_rx) 3 3)) (rx_lit ''localhost'')"

definition port_rx :: rx where
  "port_rx = rx_any
     [Cat (rx_lit ''6553'') (Rng (CHR ''0'') (CHR ''5'')),
      Cat (rx_lit ''655'') (Cat (Rng (CHR ''0'') (CHR ''2'')) rx_digit),
      Cat (rx_lit ''65'') (Cat (Rng (CHR ''0'') (CHR ''4'')) (rx_rep rx_digit 2 2)),
      Cat (rx_lit ''6'') (Cat (Rng (CHR ''0'') (CHR ''4'')) (rx_rep rx_digit 3 3)),
      Cat (Rng (CHR ''1'') (CHR ''5'')) (rx_rep rx_digit 4 4),
      rx_rep (Rng (CHR ''0'') (CHR ''5'')) 1 5,
      rx_rep rx_digit 1 4]"

definition ipv4_host_port_rx :: rx where
  "ipv4_host_port_rx = Cat host_rx (Cat (Chr (CHR '':'')) port_rx)"

definition re2_semantics :: "re2 \<Rightarrow> bool" where
  "re2_semantics re \<longleftrightarrow>
     (\<forall>v. re v IPV4_HOST_PORT_RE = rx_match ipv4_host_port_rx v) \<and>
     (\<forall>v. re v PORT_RE = rx_match port_rx v)"

definition IsInPortRange :: "re2 \<Rightarrow> string \<Rightarrow> bool \<Rightarrow> bool" where
  "IsInPortRange re value allowEmpty =
     (if \<not> allowEmpty \<and> value = [] then False
      else if re value PORT_RE then True
      else False)"

definition IsValidIPv4HostPortString :: "re2 \<Rightarrow> string \<Rightarrow> bool" where
  "IsValidIPv4HostPortString re value = (if re value IPV4_HOST_PORT_RE \<or> value = [] then True else False)"

definition IsValidIPv6HostPortString :: "re2 \<Rightarrow> string \<Rightarrow> bool" where
  "IsValidIPv6HostPortString re value =
     (if front_char value \<noteq> CHR ''['' then False
      else case find_last_of value (CHR '':'') of
        None \<Rightarrow> False
      | Some pos \<Rightarrow>
          if value ! (pos - 1) \<noteq> CHR '']'' then False
          else let addrPrefix = take 4 (drop 1 value)
               in if (addrPrefix = ''fe80'' \<or> addrPrefix = ''FE80'') \<and> CHR ''%'' \<notin> set value then False
                  else if \<not> IsInPortRange re (drop (pos + 1) value) False then False
                  else True)"

definition ValidateHostPortString :: "re2 \<Rightarrow> string \<Rightarrow> bool" where
  "ValidateHostPortString re value =
     (if front_char value \<noteq> CHR ''['' then IsValidIPv4HostPortString re value
      else IsValidIPv6HostPortString re value)"

section \<open>Host and port\<close>

definition ParseToHostPortString :: "re2 \<Rightarrow> string \<Rightarrow> bool \<Rightarrow> (string \<times> string \<times> bool) result" where
  "ParseToHostPortString re str isIPv6 =
     (if \<not> ValidateHostPortString re str then Inl K_INVALID
      else let pos = find_last_of str (CHR '':'');
               portNumStr = (case pos of None \<Rightarrow> str | Some p \<Rightarrow> drop (p + 1) str)
           in if front_char str \<noteq> CHR ''[''
              then Inr (case pos of None \<Rightarrow> str | Some p \<Rightarrow> take p str, portNumStr, isIPv6)
              else Inr (case pos of None \<Rightarrow> drop 1 str | Some p \<Rightarrow> take (p - 2) (drop 1 str), portNumStr, True))"

record HostPort =
  hp_host :: string
  hp_port :: int
  hp_isIPv6 :: bool

definition HostPort_make :: "string \<Rightarrow> int \<Rightarrow> HostPort" where
  "HostPort_make host port =
     \<lparr> hp_host = host, hp_port = port, hp_isIPv6 = (host \<noteq> [] \<and> CHR '':'' \<in> set host) \<rparr>"

definition HostPort_default :: HostPort where
  "HostPort_default = HostPort_make [] (- 1)"

definition HostPort_ToString :: "HostPort \<Rightarrow> string" where
  "HostPort_ToString h =
     (if hp_host h = [] \<and> hp_port h = - 1 then []
      else if \<not> hp_isIPv6 h then hp_host h @ '':'' @ to_string_int (hp_port h)
      else ''['' @ hp_host h @ '']:'' @ to_string_int (hp_port h))"

definition HostPort_ParseString :: "re2 \<Rightarrow> HostPort \<Rightarrow> string \<Rightarrow> HostPort result" where
  "HostPort_ParseString re h str =
     (case ParseToHostPortString re str (hp_isIPv6 h) of
        Inl e \<Rightarrow> Inl e
      | Inr (host, port, v6) \<Rightarrow>
          Inr \<lparr> hp_host = host, hp_port = snd (StringToInt port (hp_port h)), hp_isIPv6 = v6 \<rparr>)"

definition HostPort_Clear :: "HostPort \<Rightarrow> HostPort" where
  "HostPort_Clear h = h \<lparr> hp_host := [], hp_port := - 1 \<rparr>"

definition HostPort_less :: "HostPort \<Rightarrow> HostPort \<Rightarrow> bool" where
  "HostPort_less a b = (if hp_host a = hp_host b then hp_port a < hp_port b else hp_host a < hp_host b)"

definition HostPort_eq :: "HostPort \<Rightarrow> HostPort \<Rightarrow> bool" where
  "HostPort_eq a b \<longleftrightarrow> hp_host a = hp_host b \<and> hp_port a = hp_port b"

text \<open>
  \<^verbatim>\<open>Split\<close>: the pattern is appended to the input and each piece up to the next occurrence is
  taken, continuing after that occurrence. An empty pattern is outside its use and not modelled
  (the loop would step back by one position).
\<close>

fun find_from :: "string \<Rightarrow> string \<Rightarrow> nat option" where
  "find_from pat [] = (if pat = [] then Some 0 else None)"
| "find_from pat (c # s) =
     (if take (length pat) (c # s) = pat then Some 0 else map_option Suc (find_from pat s))"

function (sequential) Split_loop :: "string \<Rightarrow> string \<Rightarrow> string list" where
  "Split_loop [] str = []"
| "Split_loop pat [] = []"
| "Split_loop pat str =
     (case find_from pat str of
        None \<Rightarrow> []
      | Some pos \<Rightarrow> take pos str # Split_loop pat (drop (pos + length pat) str))"
  by (pat_completeness, simp_all)
termination by (relation "measure (\<lambda>(pat, str). length str)") auto

definition Split :: "string \<Rightarrow> string \<Rightarrow> string list" where
  "Split input pattern = Split_loop pattern (input @ pattern)"

section \<open>Decimal text reads back\<close>

lemma of_char_digit [simp]: "d < 10 \<Longrightarrow> of_char (digit_char d) = 48 + d"
  by (simp add: digit_char_def)

lemma digit_val_char [simp]: "d < 10 \<Longrightarrow> digit_val (digit_char d) = d"
  by (simp add: digit_val_def)

lemma isdigit_code: "isdigit c \<longleftrightarrow> 48 \<le> (of_char c :: nat) \<and> (of_char c :: nat) \<le> 57"
  by (simp add: isdigit_def less_eq_char_def)

lemma isdigit_digit [simp]: "d < 10 \<Longrightarrow> isdigit (digit_char d)"
  by (simp add: isdigit_code)

lemma decimal_snoc [simp]: "decimal (s @ [c]) = 10 * decimal s + digit_val c"
  by (simp add: decimal_def)

lemma decimal_Nil [simp]: "decimal [] = 0"
  by (simp add: decimal_def)

lemma decimal_to_string [simp]: "decimal (to_string n) = n"
proof (induction n rule: to_string.induct)
  case (1 n)
  show ?case
  proof (cases "n < 10")
    case True
    then show ?thesis using decimal_snoc [of "[]"] by (simp add: to_string.simps [of n])
  next
    case False
    with 1 show ?thesis by (simp add: to_string.simps [of n])
  qed
qed

lemma to_string_digits: "c \<in> set (to_string n) \<Longrightarrow> isdigit c"
proof (induction n arbitrary: c rule: to_string.induct)
  case (1 n)
  then show ?case by (cases "n < 10") (auto simp: to_string.simps [of n])
qed

lemma to_string_nonempty [simp]: "to_string n \<noteq> []"
  by (simp add: to_string.simps)

lemma to_string_inj: "to_string m = to_string n \<longleftrightarrow> m = n"
  by (metis decimal_to_string)

lemma isdigit_neq [simp]:
  "\<not> isdigit (CHR '':'')" "\<not> isdigit (CHR ''%'')" "\<not> isdigit (CHR ''-'')" "\<not> isdigit (CHR '']'')"
  "\<not> isdigit (CHR ''/'')" "\<not> isdigit (CHR ''#'')" "\<not> isdigit (CHR ''_'')" "\<not> isdigit (CHR '';'')"
  by (simp_all add: isdigit_code)

lemma isspace_code: "isspace c \<longleftrightarrow> (of_char c :: nat) = 32 \<or> 9 \<le> (of_char c :: nat) \<and> (of_char c :: nat) \<le> 13"
proof -
  have "(of_char c :: nat) = of_char (CHR '' '') \<longleftrightarrow> c = CHR '' ''"
    by (rule of_char_eq_iff)
  then have "c = CHR '' '' \<longleftrightarrow> (of_char c :: nat) = 32" by (simp del: of_char_eq_iff)
  then show ?thesis by (simp add: isspace_def less_eq_char_def)
qed

lemma isdigit_not_space: "isdigit c \<Longrightarrow> \<not> isspace c"
  by (auto simp: isdigit_code isspace_code)

lemma stoi_digits:
  assumes "s \<noteq> []" "\<forall>c \<in> set s. isdigit c" "decimal s < 2 ^ 31"
  shows "stoi s = Some (int (decimal s))"
proof -
  obtain c t where s: "s = c # t" using assms(1) by (cases s) auto
  have c: "isdigit c" using assms(2) s by simp
  have "dropWhile isspace s = s" using s isdigit_not_space [OF c] by simp
  moreover have "takeWhile isdigit (c # t) = c # t"
    using assms(2) unfolding s takeWhile_eq_all_conv by blast
  moreover have "c \<noteq> CHR ''-''" "c \<noteq> CHR ''+''" using c by (auto simp: isdigit_code)
  ultimately show ?thesis using assms(3) unfolding s stoi_def Let_def
    by (simp del: dropWhile.simps takeWhile.simps takeWhile_eq_all_conv)
qed

section \<open>Ports\<close>

lemma rx_any_lang: "rs \<noteq> [] \<Longrightarrow> rx_lang (rx_any rs) = (\<Union>r \<in> set rs. rx_lang r)"
proof (induction rs)
  case (Cons r rs)
  then show ?case by (cases rs) (auto simp: rx_any_def)
qed simp

lemma rx_lang_Rng: "s \<in> rx_lang (Rng a b) \<longleftrightarrow> (\<exists>c. s = [c] \<and> a \<le> c \<and> c \<le> b)"
  by auto

lemma rx_lang_Cat_Rng:
  "s \<in> rx_lang (Cat (Rng a b) r) \<longleftrightarrow> (\<exists>c t. s = c # t \<and> a \<le> c \<and> c \<le> b \<and> t \<in> rx_lang r)"
proof
  assume "\<exists>c t. s = c # t \<and> a \<le> c \<and> c \<le> b \<and> t \<in> rx_lang r"
  then obtain c t where "s = [c] @ t" "[c] \<in> rx_lang (Rng a b)" "t \<in> rx_lang r" by auto
  then show "s \<in> rx_lang (Cat (Rng a b) r)" unfolding rx_lang.simps(3) by blast
qed auto

lemma rx_lang_lit: "rx_lang (rx_lit w) = {w}"
proof (induction w)
  case (Cons c w)
  have "s \<in> rx_lang (rx_lit (c # w)) \<longleftrightarrow> s \<in> rx_lang (Cat (Chr c) (rx_lit w))" for s
    by (simp add: rx_lit_def)
  then show ?case unfolding rx_lang_Cat_Rng Cons.IH by (intro set_eqI) (metis antisym order_refl singleton_iff)
qed (simp add: rx_lit_def)

lemma rx_lang_Cat_lit: "s \<in> rx_lang (Cat (rx_lit w) r) \<longleftrightarrow> (\<exists>t. s = w @ t \<and> t \<in> rx_lang r)"
  by (simp add: rx_lang_lit)

lemma rx_lang_rep:
  "m \<le> n \<Longrightarrow> s \<in> rx_lang (rx_rep (Rng a b) m n) \<longleftrightarrow>
     m \<le> length s \<and> length s \<le> n \<and> list_all (\<lambda>c. a \<le> c \<and> c \<le> b) s"
proof (induction "Rng a b" m n arbitrary: s rule: rx_rep.induct)
  case (1 m n)
  then have "m \<le> n - 1" by simp
  note IH = 1(1) [OF this]
  show ?case
    unfolding rx_rep.simps rx_lang_Cat_Rng IH using 1(2) by (cases s) auto
next
  case (3 n)
  note IH = 3(1) [OF le0]
  show ?case
    unfolding rx_rep.simps rx_lang.simps(4) Un_iff rx_lang_Cat_Rng IH by (cases s) auto
qed (auto simp: rx_rep.simps)

lemma rx_lang_Cat_lit_Rng:
  "s \<in> rx_lang (Cat (rx_lit w) (Cat (Rng a b) r)) \<longleftrightarrow>
     (\<exists>c t. s = w @ c # t \<and> a \<le> c \<and> c \<le> b \<and> t \<in> rx_lang r)"
  "s \<in> rx_lang (Cat (rx_lit w) (Rng a b)) \<longleftrightarrow> (\<exists>c. s = w @ [c] \<and> a \<le> c \<and> c \<le> b)"
  unfolding rx_lang_Cat_lit rx_lang_Cat_Rng rx_lang_Rng by auto

lemma port_rx_lang:
  "s \<in> rx_lang port_rx \<longleftrightarrow>
     (\<exists>c. s = ''6553'' @ [c] \<and> CHR ''0'' \<le> c \<and> c \<le> CHR ''5'') \<or>
     (\<exists>c t. s = ''655'' @ c # t \<and> CHR ''0'' \<le> c \<and> c \<le> CHR ''2'' \<and> t \<in> rx_lang rx_digit) \<or>
     (\<exists>c t. s = ''65'' @ c # t \<and> CHR ''0'' \<le> c \<and> c \<le> CHR ''4'' \<and> t \<in> rx_lang (rx_rep rx_digit 2 2)) \<or>
     (\<exists>c t. s = ''6'' @ c # t \<and> CHR ''0'' \<le> c \<and> c \<le> CHR ''4'' \<and> t \<in> rx_lang (rx_rep rx_digit 3 3)) \<or>
     (\<exists>c t. s = c # t \<and> CHR ''1'' \<le> c \<and> c \<le> CHR ''5'' \<and> t \<in> rx_lang (rx_rep rx_digit 4 4)) \<or>
     s \<in> rx_lang (rx_rep (Rng (CHR ''0'') (CHR ''5'')) 1 5) \<or>
     s \<in> rx_lang (rx_rep rx_digit 1 4)"
proof -
  have "s \<in> rx_lang port_rx \<longleftrightarrow>
     s \<in> rx_lang (Cat (rx_lit ''6553'') (Rng (CHR ''0'') (CHR ''5''))) \<or>
     s \<in> rx_lang (Cat (rx_lit ''655'') (Cat (Rng (CHR ''0'') (CHR ''2'')) rx_digit)) \<or>
     s \<in> rx_lang (Cat (rx_lit ''65'') (Cat (Rng (CHR ''0'') (CHR ''4'')) (rx_rep rx_digit 2 2))) \<or>
     s \<in> rx_lang (Cat (rx_lit ''6'') (Cat (Rng (CHR ''0'') (CHR ''4'')) (rx_rep rx_digit 3 3))) \<or>
     s \<in> rx_lang (Cat (Rng (CHR ''1'') (CHR ''5'')) (rx_rep rx_digit 4 4)) \<or>
     s \<in> rx_lang (rx_rep (Rng (CHR ''0'') (CHR ''5'')) 1 5) \<or>
     s \<in> rx_lang (rx_rep rx_digit 1 4)"
    by (simp add: port_rx_def rx_any_lang del: rx_lang.simps)
  then show ?thesis unfolding rx_lang_Cat_lit_Rng rx_lang_Cat_Rng .
qed

lemma port_rx_intros:
  "CHR ''0'' \<le> c \<and> c \<le> CHR ''4'' \<Longrightarrow> t \<in> rx_lang (rx_rep rx_digit 3 3) \<Longrightarrow> CHR ''6'' # c # t \<in> rx_lang port_rx"
  "CHR ''0'' \<le> c \<and> c \<le> CHR ''4'' \<Longrightarrow> t \<in> rx_lang (rx_rep rx_digit 2 2) \<Longrightarrow>
     CHR ''6'' # CHR ''5'' # c # t \<in> rx_lang port_rx"
  "CHR ''0'' \<le> c \<and> c \<le> CHR ''2'' \<Longrightarrow> t \<in> rx_lang rx_digit \<Longrightarrow>
     CHR ''6'' # CHR ''5'' # CHR ''5'' # c # t \<in> rx_lang port_rx"
  "CHR ''0'' \<le> c \<and> c \<le> CHR ''5'' \<Longrightarrow> [CHR ''6'', CHR ''5'', CHR ''5'', CHR ''3'', c] \<in> rx_lang port_rx"
  "CHR ''1'' \<le> c \<and> c \<le> CHR ''5'' \<Longrightarrow> t \<in> rx_lang (rx_rep rx_digit 4 4) \<Longrightarrow> c # t \<in> rx_lang port_rx"
  by (simp_all add: port_rx_lang del: rx_lang.simps)

lemma digit_rx_lang:
  "s \<in> rx_lang rx_digit \<longleftrightarrow> length s = 1 \<and> list_all (\<lambda>c. CHR ''0'' \<le> c \<and> c \<le> CHR ''9'') s"
  "m \<le> n \<Longrightarrow> s \<in> rx_lang (rx_rep rx_digit m n) \<longleftrightarrow>
     m \<le> length s \<and> length s \<le> n \<and> list_all (\<lambda>c. CHR ''0'' \<le> c \<and> c \<le> CHR ''9'') s"
  unfolding rx_digit_def by (auto simp: length_Suc_conv) (simp_all add: rx_lang_rep)

lemma decimal_append: "decimal (s @ t) = decimal s * 10 ^ length t + decimal t"
proof (induction t rule: rev_induct)
  case (snoc c t)
  have "decimal (s @ t @ [c]) = 10 * decimal (s @ t) + digit_val c"
    using decimal_snoc [of "s @ t" c] by simp
  with snoc show ?case by (simp add: algebra_simps)
qed simp

lemma decimal_le:
  "list_all (\<lambda>c. digit_val c \<le> d) s \<Longrightarrow> 9 * decimal s + d \<le> d * 10 ^ length s"
proof (induction s rule: rev_induct)
  case (snoc c s)
  then have "9 * decimal s + d \<le> d * 10 ^ length s" "digit_val c \<le> d" by simp_all
  then show ?case by (simp add: algebra_simps)
qed simp

lemma decimal_Cons: "decimal (c # s) = digit_val c * 10 ^ length s + decimal s"
  using decimal_append [of "[c]" s] decimal_snoc [of "[]" c] by simp

lemma digit_range_val:
  "CHR ''0'' \<le> c \<and> c \<le> CHR ''9'' \<Longrightarrow> digit_val c \<le> 9"
  "CHR ''0'' \<le> c \<and> c \<le> CHR ''5'' \<Longrightarrow> digit_val c \<le> 5"
  "CHR ''0'' \<le> c \<and> c \<le> CHR ''9'' \<Longrightarrow> isdigit c"
  "CHR ''0'' \<le> c \<and> c \<le> CHR ''5'' \<Longrightarrow> isdigit c"
  by (auto simp: digit_val_def isdigit_code less_eq_char_def)

lemma list_all_digits_le:
  "list_all (\<lambda>c. CHR ''0'' \<le> c \<and> c \<le> CHR ''9'') s \<Longrightarrow> list_all (\<lambda>c. digit_val c \<le> 9) s"
  "list_all (\<lambda>c. CHR ''0'' \<le> c \<and> c \<le> CHR ''5'') s \<Longrightarrow> list_all (\<lambda>c. digit_val c \<le> 5) s"
  by (erule list.pred_mono_strong, erule digit_range_val(1))
    (erule list.pred_mono_strong, erule digit_range_val(2))

definition port_text :: "string \<Rightarrow> bool" where
  "port_text s \<longleftrightarrow> s \<noteq> [] \<and> (\<forall>c \<in> set s. isdigit c) \<and> decimal s \<le> 65535"

lemma digits_of_range:
  "list_all (\<lambda>c. CHR ''0'' \<le> c \<and> c \<le> CHR ''9'') s \<Longrightarrow> \<forall>c \<in> set s. isdigit c"
  "list_all (\<lambda>c. CHR ''0'' \<le> c \<and> c \<le> CHR ''5'') s \<Longrightarrow> \<forall>c \<in> set s. isdigit c"
  by (simp add: list_all_iff digit_range_val(3)) (simp add: list_all_iff digit_range_val(4))

lemma port_text_tail:
  assumes "list_all (\<lambda>c. CHR ''0'' \<le> c \<and> c \<le> CHR ''9'') t" "\<forall>c \<in> set w. isdigit c" "w \<noteq> []"
    "decimal w * 10 ^ length t + (10 ^ length t - 1) \<le> 65535"
  shows "port_text (w @ t)"
proof -
  have "9 * decimal t + 9 \<le> 9 * 10 ^ length t"
    using decimal_le [OF list_all_digits_le(1) [OF assms(1)]] by simp
  with assms show ?thesis
    by (auto simp: port_text_def decimal_append digits_of_range)
qed

lemma port_text_single: "CHR ''0'' \<le> c \<and> c \<le> CHR ''5'' \<Longrightarrow> port_text (''6553'' @ [c])"
  using digit_range_val(2,4) [of c]
  by (simp add: port_text_def decimal_Cons digit_val_def isdigit_code)

lemma port_rx_text:
  assumes "s \<in> rx_lang port_rx"
  shows "port_text s"
proof -
  let ?digits = "\<lambda>t. list_all (\<lambda>c. CHR ''0'' \<le> c \<and> c \<le> CHR ''9'') t"
  consider (a) c where "s = ''6553'' @ [c]" "CHR ''0'' \<le> c \<and> c \<le> CHR ''5''"
    | (b) c t where "s = (''655'' @ [c]) @ t" "CHR ''0'' \<le> c \<and> c \<le> CHR ''2''" "?digits t" "length t = 1"
    | (c) c t where "s = (''65'' @ [c]) @ t" "CHR ''0'' \<le> c \<and> c \<le> CHR ''4''" "?digits t" "length t = 2"
    | (d) c t where "s = (''6'' @ [c]) @ t" "CHR ''0'' \<le> c \<and> c \<le> CHR ''4''" "?digits t" "length t = 3"
    | (e) c t where "s = [c] @ t" "CHR ''1'' \<le> c \<and> c \<le> CHR ''5''" "?digits t" "length t = 4"
    | (f) "1 \<le> length s" "length s \<le> 5" "list_all (\<lambda>c. CHR ''0'' \<le> c \<and> c \<le> CHR ''5'') s"
    | (g) "1 \<le> length s" "length s \<le> 4" "?digits s"
    using assms [unfolded port_rx_lang] by (elim disjE exE) (auto simp: digit_rx_lang rx_lang_rep)
  then show ?thesis
  proof cases
    case a
    then show ?thesis using port_text_single by blast
  next
    case b
    then have "digit_val c \<le> 2" "isdigit c" by (auto simp: isdigit_code digit_val_def less_eq_char_def)
    with b show ?thesis unfolding b(1)
      by (intro port_text_tail) (simp_all add: decimal_Cons isdigit_code, simp add: digit_val_def)
  next
    case c
    then have "digit_val c \<le> 4" "isdigit c" by (auto simp: isdigit_code digit_val_def less_eq_char_def)
    with c show ?thesis unfolding c(1)
      by (intro port_text_tail) (simp_all add: decimal_Cons isdigit_code, simp add: digit_val_def)
  next
    case d
    then have "digit_val c \<le> 4" "isdigit c" by (auto simp: isdigit_code digit_val_def less_eq_char_def)
    with d show ?thesis unfolding d(1)
      by (intro port_text_tail) (simp_all add: decimal_Cons isdigit_code, simp add: digit_val_def)
  next
    case e
    then have "digit_val c \<le> 5" "isdigit c" by (auto simp: isdigit_code digit_val_def less_eq_char_def)
    with e show ?thesis unfolding e(1) by (intro port_text_tail) (simp_all add: decimal_Cons)
  next
    case f
    have "(10::nat) ^ length s \<le> 10 ^ 5" using f(2) by (intro power_increasing) auto
    moreover have "9 * decimal s + 5 \<le> 5 * 10 ^ length s"
      using decimal_le [OF list_all_digits_le(2) [OF f(3)]] .
    ultimately show ?thesis using f digits_of_range(2) by (auto simp: port_text_def)
  next
    case g
    have "(10::nat) ^ length s \<le> 10 ^ 4" using g(2) by (intro power_increasing) auto
    moreover have "9 * decimal s + 9 \<le> 9 * 10 ^ length s"
      using decimal_le [OF list_all_digits_le(1) [OF g(3)]] .
    ultimately show ?thesis using g digits_of_range(1) by (auto simp: port_text_def)
  qed
qed

lemma length_to_string: "0 < k \<Longrightarrow> n < 10 ^ k \<Longrightarrow> length (to_string n) \<le> k"
proof (induction k arbitrary: n)
  case (Suc k)
  show ?case
  proof (cases "n < 10")
    case True
    then show ?thesis by (simp add: to_string.simps [of n])
  next
    case False
    with Suc.prems have "0 < k" by (cases k) auto
    with False Suc show ?thesis by (simp add: to_string.simps [of n])
  qed
qed simp

lemma digits_range: "isdigit c \<Longrightarrow> CHR ''0'' \<le> c \<and> c \<le> CHR ''9''"
  by (simp add: isdigit_def)

lemma to_string_step: "10 \<le> n \<Longrightarrow> to_string n = to_string (n div 10) @ [digit_char (n mod 10)]"
  by (simp add: to_string.simps [of n])

lemma to_string_5:
  assumes "10000 \<le> n" "n < 100000"
  obtains e a b c d where "to_string n = [digit_char e, digit_char a, digit_char b, digit_char c, digit_char d]"
    "e < 10" "a < 10" "b < 10" "c < 10" "d < 10" "n = 10000 * e + 1000 * a + 100 * b + 10 * c + d"
proof -
  define m1 where "m1 = n div 10"
  define m2 where "m2 = m1 div 10"
  define m3 where "m3 = m2 div 10"
  define m4 where "m4 = m3 div 10"
  have b1: "1000 \<le> m1" "m1 < 10000" using assms unfolding m1_def by auto
  have b2: "100 \<le> m2" "m2 < 1000" using b1 unfolding m2_def by auto
  have b3: "10 \<le> m3" "m3 < 100" using b2 unfolding m3_def by auto
  have b4: "m4 < 10" using b3 unfolding m4_def by auto
  have "to_string n = to_string m1 @ [digit_char (n mod 10)]"
    using assms(1) unfolding m1_def by (intro to_string_step) simp
  moreover have "to_string m1 = to_string m2 @ [digit_char (m1 mod 10)]"
    using b1 unfolding m2_def by (intro to_string_step) simp
  moreover have "to_string m2 = to_string m3 @ [digit_char (m2 mod 10)]"
    using b2 unfolding m3_def by (intro to_string_step) simp
  moreover have "to_string m3 = to_string m4 @ [digit_char (m3 mod 10)]"
    using b3 unfolding m4_def by (intro to_string_step) simp
  moreover have "to_string m4 = [digit_char m4]" using b4 by (simp add: to_string.simps [of m4])
  ultimately have t: "to_string n = [digit_char m4, digit_char (m3 mod 10), digit_char (m2 mod 10),
    digit_char (m1 mod 10), digit_char (n mod 10)]" by simp
  have "m3 = 10 * m4 + m3 mod 10" "m2 = 10 * m3 + m2 mod 10" "m1 = 10 * m2 + m1 mod 10" "n = 10 * m1 + n mod 10"
    unfolding m1_def m2_def m3_def m4_def by simp_all
  then have "n = 10000 * m4 + 1000 * (m3 mod 10) + 100 * (m2 mod 10) + 10 * (m1 mod 10) + n mod 10"
    by linarith
  with t b4 show ?thesis by (intro that) simp_all
qed

lemma digit_char_range:
  "a \<le> d \<Longrightarrow> d \<le> b \<Longrightarrow> b < 10 \<Longrightarrow> digit_char a \<le> digit_char d \<and> digit_char d \<le> digit_char b"
  by (simp add: less_eq_char_def)

lemma digit_char_5: "digit_char 0 = CHR ''0''" "digit_char 1 = CHR ''1''" "digit_char 2 = CHR ''2''"
  "digit_char 3 = CHR ''3''" "digit_char 4 = CHR ''4''" "digit_char 5 = CHR ''5''"
  "digit_char 6 = CHR ''6''" "digit_char 9 = CHR ''9''"
  by code_simp+

lemma digit_char_9: "d < 10 \<Longrightarrow> CHR ''0'' \<le> digit_char d \<and> digit_char d \<le> CHR ''9''"
  using digit_char_range [of 0 d 9] by (simp add: digit_char_5)

lemma port_rx_6:
  assumes "a < 10" "b < 10" "c < 10" "d < 10" "1000 * a + 100 * b + 10 * c + d \<le> 5535"
  shows "[digit_char 6, digit_char a, digit_char b, digit_char c, digit_char d] \<in> rx_lang port_rx"
proof -
  have r: "e \<le> f \<Longrightarrow> f < 10 \<Longrightarrow> CHR ''0'' \<le> digit_char e \<and> digit_char e \<le> digit_char f" for e f
    using digit_char_range [of 0 e f] by (simp only: digit_char_5)
  have t: "[digit_char b, digit_char c, digit_char d] \<in> rx_lang (rx_rep rx_digit 3 3)"
    "[digit_char c, digit_char d] \<in> rx_lang (rx_rep rx_digit 2 2)" "[digit_char d] \<in> rx_lang rx_digit"
    using assms by (simp_all add: digit_rx_lang digit_char_9 del: rx_lang.simps)
  consider "a \<le> 4" | "a = 5" "b \<le> 4" | "a = 5" "b = 5" "c \<le> 2" | "a = 5" "b = 5" "c = 3" "d \<le> 5"
    using assms by linarith
  then show ?thesis
  proof cases
    case 1
    then show ?thesis using r [of a 4] t(1) unfolding digit_char_5 by (intro port_rx_intros(1)) auto
  next
    case 2
    then show ?thesis using r [of b 4] t(2) unfolding 2(1) digit_char_5 by (intro port_rx_intros(2)) auto
  next
    case 3
    then show ?thesis using r [of c 2] t(3) unfolding 3(1,2) digit_char_5 by (intro port_rx_intros(3)) auto
  next
    case 4
    then show ?thesis using r [of d 5] unfolding 4(1-3) digit_char_5 by (intro port_rx_intros(4)) auto
  qed
qed

lemma port_rx_to_string:
  assumes "n \<le> 65535"
  shows "to_string n \<in> rx_lang port_rx"
proof (cases "n < 10000")
  case True
  have "1 \<le> length (to_string n)" by (simp add: Suc_le_eq)
  moreover have "length (to_string n) \<le> 4" using True by (intro length_to_string) auto
  moreover have "list_all (\<lambda>c. CHR ''0'' \<le> c \<and> c \<le> CHR ''9'') (to_string n)"
    using to_string_digits digits_range unfolding list_all_iff by blast
  ultimately have "to_string n \<in> rx_lang (rx_rep rx_digit 1 4)" by (simp add: digit_rx_lang)
  then show ?thesis unfolding port_rx_lang by blast
next
  case False
  with assms obtain e a b c d where
    t: "to_string n = [digit_char e, digit_char a, digit_char b, digit_char c, digit_char d]"
    and l: "e < 10" "a < 10" "b < 10" "c < 10" "d < 10"
    and n: "n = 10000 * e + 1000 * a + 100 * b + 10 * c + d"
    by (elim to_string_5 [rotated -1]) auto
  show ?thesis
  proof (cases "e = 6")
    case True
    then show ?thesis using port_rx_6 [of a b c d] l n assms t by simp
  next
    case False
    have "1 \<le> e" "e \<le> 5" using False l n assms \<open>\<not> n < 10000\<close> by linarith+
    then have "CHR ''1'' \<le> digit_char e \<and> digit_char e \<le> CHR ''5''"
      using digit_char_range [of 1 e 5] by (simp only: digit_char_5)
    then show ?thesis using l unfolding t
      by (intro port_rx_intros(5)) (simp_all add: digit_rx_lang digit_char_9)
  qed
qed

section \<open>Hosts\<close>

fun rx_ranges :: "rx \<Rightarrow> (char \<times> char) list" where
  "rx_ranges Eps = []"
| "rx_ranges (Rng a b) = [(a, b)]"
| "rx_ranges (Cat r q) = rx_ranges r @ rx_ranges q"
| "rx_ranges (Alt r q) = rx_ranges r @ rx_ranges q"

fun rx_null :: "rx \<Rightarrow> bool" where
  "rx_null Eps \<longleftrightarrow> True"
| "rx_null (Rng a b) \<longleftrightarrow> False"
| "rx_null (Cat r q) \<longleftrightarrow> rx_null r \<and> rx_null q"
| "rx_null (Alt r q) \<longleftrightarrow> rx_null r \<or> rx_null q"

lemma rx_ranges_lang:
  "s \<in> rx_lang r \<Longrightarrow> c \<in> set s \<Longrightarrow> list_ex (\<lambda>(a, b). a \<le> c \<and> c \<le> b) (rx_ranges r)"
proof (induction r arbitrary: s)
  case (Cat r q)
  from Cat.prems obtain u t where "s = u @ t" "u \<in> rx_lang r" "t \<in> rx_lang q" by auto
  with Cat show ?case by (cases "c \<in> set u") auto
next
  case (Alt r q)
  then show ?case by (cases "s \<in> rx_lang r") auto
qed auto

lemma rx_null_lang: "[] \<in> rx_lang r \<longleftrightarrow> rx_null r"
  by (induction r) auto

lemma host_rx_chars:
  assumes "h \<in> rx_lang host_rx"
  shows "CHR '':'' \<notin> set h" "CHR ''['' \<notin> set h" "h \<noteq> []"
proof -
  have "\<not> list_ex (\<lambda>(a, b). a \<le> CHR '':'' \<and> CHR '':'' \<le> b) (rx_ranges host_rx)" by code_simp
  then show "CHR '':'' \<notin> set h" using rx_ranges_lang [OF assms] by blast
  have "\<not> list_ex (\<lambda>(a, b). a \<le> CHR ''['' \<and> CHR ''['' \<le> b) (rx_ranges host_rx)" by code_simp
  then show "CHR ''['' \<notin> set h" using rx_ranges_lang [OF assms] by blast
  have "\<not> rx_null host_rx" by code_simp
  then show "h \<noteq> []" using rx_null_lang assms by blast
qed

section \<open>Parsing reads back what is printed\<close>

definition v4_text :: "string \<Rightarrow> string \<Rightarrow> string" where
  "v4_text h p = h @ CHR '':'' # p"

definition v6_text :: "string \<Rightarrow> string \<Rightarrow> string" where
  "v6_text a p = CHR ''['' # a @ CHR '']'' # CHR '':'' # p"

definition link_local :: "string \<Rightarrow> bool" where
  "link_local a \<longleftrightarrow> (take 4 a = ''fe80'' \<or> take 4 a = ''FE80'') \<and> CHR ''%'' \<notin> set a"

lemma port_text_no_colon: "port_text p \<Longrightarrow> CHR '':'' \<notin> set p" "port_text p \<Longrightarrow> CHR ''%'' \<notin> set p"
  by (auto simp: port_text_def)

lemma stoi_port_text: "port_text p \<Longrightarrow> stoi p = Some (int (decimal p))"
  by (auto simp: port_text_def intro!: stoi_digits)

lemma valid4_iff:
  assumes "re2_semantics re"
  shows "IsValidIPv4HostPortString re s \<longleftrightarrow>
    s = [] \<or> (\<exists>h p. s = v4_text h p \<and> h \<in> rx_lang host_rx \<and> p \<in> rx_lang port_rx)"
proof -
  have "s \<in> rx_lang ipv4_host_port_rx \<longleftrightarrow>
      (\<exists>h t. s = h @ t \<and> h \<in> rx_lang host_rx \<and> t \<in> rx_lang (Cat (Chr (CHR '':'')) port_rx))"
    by (auto simp: ipv4_host_port_rx_def)
  also have "\<dots> \<longleftrightarrow> (\<exists>h p. s = v4_text h p \<and> h \<in> rx_lang host_rx \<and> p \<in> rx_lang port_rx)"
    unfolding rx_lang_Cat_Rng v4_text_def by (metis antisym order_refl)
  finally show ?thesis
    using assms by (auto simp: IsValidIPv4HostPortString_def re2_semantics_def rx_match_lang)
qed

lemma parse_v4:
  assumes "re2_semantics re" "h \<in> rx_lang host_rx" "p \<in> rx_lang port_rx"
  shows "HostPort_ParseString re x (v4_text h p) =
    Inr \<lparr> hp_host = h, hp_port = int (decimal p), hp_isIPv6 = hp_isIPv6 x \<rparr>"
proof -
  have h: "CHR ''['' \<notin> set h" "h \<noteq> []" using host_rx_chars [OF assms(2)] by auto
  then have front: "front_char (v4_text h p) \<noteq> CHR ''[''"
    by (cases h) (auto simp: v4_text_def front_char_def)
  have p: "port_text p" using port_rx_text [OF assms(3)] .
  have pos: "find_last_of (v4_text h p) (CHR '':'') = Some (length h)"
    using port_text_no_colon(1) [OF p] by (simp add: v4_text_def find_last_of_append)
  have "IsValidIPv4HostPortString re (v4_text h p)" using valid4_iff [OF assms(1)] assms(2,3) by blast
  then have "ParseToHostPortString re (v4_text h p) b = Inr (h, p, b)" for b
    using front by (simp add: ParseToHostPortString_def ValidateHostPortString_def pos) (simp add: v4_text_def)
  then show ?thesis
    using stoi_port_text [OF p] by (simp add: HostPort_ParseString_def StringToInt_def)
qed

lemma take_link_local:
  "take 4 (a @ CHR '']'' # t) = ''fe80'' \<longleftrightarrow> take 4 a = ''fe80''"
  "take 4 (a @ CHR '']'' # t) = ''FE80'' \<longleftrightarrow> take 4 a = ''FE80''"
proof -
  consider "a = []" | x where "a = [x]" | x y where "a = [x, y]" | x y z where "a = [x, y, z]"
    | w x y z r where "a = w # x # y # z # r"
    by (metis list.exhaust)
  then show "take 4 (a @ CHR '']'' # t) = ''fe80'' \<longleftrightarrow> take 4 a = ''fe80''"
    "take 4 (a @ CHR '']'' # t) = ''FE80'' \<longleftrightarrow> take 4 a = ''FE80''"
    by (cases; simp)+
qed

lemma valid6_text:
  assumes "CHR '':'' \<notin> set p"
  shows "IsValidIPv6HostPortString re (v6_text a p) \<longleftrightarrow>
    \<not> ((take 4 a = ''fe80'' \<or> take 4 a = ''FE80'') \<and> CHR ''%'' \<notin> set a \<union> set p) \<and> p \<noteq> [] \<and> re p PORT_RE"
proof -
  have pos: "find_last_of (v6_text a p) (CHR '':'') = Some (length a + 2)"
    using find_last_of_append [OF assms, of "CHR ''['' # a @ [CHR '']'']"] by (simp add: v6_text_def)
  have br: "v6_text a p ! (length a + 2 - 1) = CHR '']''" by (simp add: v6_text_def nth_append)
  have fr: "front_char (v6_text a p) = CHR ''[''" by (simp add: v6_text_def front_char_def)
  have dr: "drop (length a + 2 + 1) (v6_text a p) = p" by (simp add: v6_text_def)
  have pc: "CHR ''%'' \<notin> set (v6_text a p) \<longleftrightarrow> CHR ''%'' \<notin> set a \<union> set p" by (simp add: v6_text_def)
  have pre: "drop 1 (v6_text a p) = a @ CHR '']'' # CHR '':'' # p" by (simp add: v6_text_def)
  show ?thesis
    unfolding IsValidIPv6HostPortString_def fr pos option.case br Let_def IsInPortRange_def pc dr pre take_link_local
    by (simp only: simp_thms if_True if_False) auto
qed

lemma valid6_form:
  assumes "front_char s = CHR ''[''" "IsValidIPv6HostPortString re s"
  obtains a p where "s = v6_text a p" "CHR '':'' \<notin> set p"
proof -
  from assms obtain pos where pos: "find_last_of s (CHR '':'') = Some pos" and br: "s ! (pos - 1) = CHR '']''"
    by (auto simp: IsValidIPv6HostPortString_def split: option.splits if_splits)
  from pos obtain p where p: "s = take pos s @ CHR '':'' # p" "CHR '':'' \<notin> set p" "pos < length s"
    by (elim find_last_of_SomeD)
  obtain r where r: "s = CHR ''['' # r" using assms(1) by (auto simp: front_char_def split: list.splits)
  have pos0: "pos \<noteq> 0" "pos \<noteq> 1" using br r by (auto intro: ccontr)
  then obtain k where k: "pos = Suc (Suc k)" by (metis One_nat_def old.nat.exhaust)
  have "r ! k = CHR '']''" using br r k by simp
  moreover have "take (Suc k) r = take k r @ [r ! k]" using p(3) r k by (simp add: take_Suc_conv_app_nth)
  ultimately have a: "take pos s = CHR ''['' # take k r @ [CHR '']'']" using r k by simp
  with p that show ?thesis by (auto simp: v6_text_def)
qed

lemma parse_v6:
  assumes "CHR '':'' \<notin> set p" "IsValidIPv6HostPortString re (v6_text a p)"
  shows "HostPort_ParseString re x (v6_text a p) =
    Inr \<lparr> hp_host = a, hp_port = snd (StringToInt p (hp_port x)), hp_isIPv6 = True \<rparr>"
proof -
  have pos: "find_last_of (v6_text a p) (CHR '':'') = Some (length a + 2)"
    using find_last_of_append [OF assms(1), of "CHR ''['' # a @ [CHR '']'']"] by (simp add: v6_text_def)
  have fr: "front_char (v6_text a p) = CHR ''[''" by (simp add: v6_text_def front_char_def)
  have "drop (length a + 2 + 1) (v6_text a p) = p" "take (length a + 2 - 2) (drop 1 (v6_text a p)) = a"
    by (simp_all add: v6_text_def)
  then show ?thesis
    using assms(2) by (simp add: HostPort_ParseString_def ParseToHostPortString_def ValidateHostPortString_def fr pos)
qed

lemma ParseString_cases:
  assumes "re2_semantics re" "s \<noteq> []" "HostPort_ParseString re x s = Inr h"
  obtains (v4) a p where "s = v4_text a p" "a \<in> rx_lang host_rx" "p \<in> rx_lang port_rx"
      "h = \<lparr> hp_host = a, hp_port = int (decimal p), hp_isIPv6 = hp_isIPv6 x \<rparr>"
    | (v6) a p where "s = v6_text a p" "p \<in> rx_lang port_rx" "\<not> link_local a"
      "h = \<lparr> hp_host = a, hp_port = int (decimal p), hp_isIPv6 = True \<rparr>"
proof (cases "front_char s = CHR ''[''")
  case False
  have "IsValidIPv4HostPortString re s"
    using assms(3) False
    by (auto simp: HostPort_ParseString_def ParseToHostPortString_def ValidateHostPortString_def split: if_splits)
  then obtain a p where "s = v4_text a p" "a \<in> rx_lang host_rx" "p \<in> rx_lang port_rx"
    using valid4_iff [OF assms(1)] assms(2) by blast
  with parse_v4 [OF assms(1)] assms(3) v4 show ?thesis by force
next
  case True
  have valid: "IsValidIPv6HostPortString re s"
    using assms(3) True
    by (auto simp: HostPort_ParseString_def ParseToHostPortString_def ValidateHostPortString_def split: if_splits)
  then obtain a p where s: "s = v6_text a p" "CHR '':'' \<notin> set p" using valid6_form [OF True] by blast
  from valid have re: "re p PORT_RE" and ll: "\<not> ((take 4 a = ''fe80'' \<or> take 4 a = ''FE80'') \<and> CHR ''%'' \<notin> set a \<union> set p)"
    unfolding s(1) valid6_text [OF s(2)] by blast+
  from re have p: "p \<in> rx_lang port_rx" using assms(1) by (simp add: re2_semantics_def rx_match_lang)
  then have pt: "port_text p" by (rule port_rx_text)
  have "\<not> link_local a" using ll port_text_no_colon(2) [OF pt] unfolding link_local_def by blast
  moreover have "h = \<lparr> hp_host = a, hp_port = int (decimal p), hp_isIPv6 = True \<rparr>"
    using parse_v6 [OF s(2) valid [unfolded s(1)], of x] assms(3) stoi_port_text [OF pt]
    unfolding s(1) by (simp add: StringToInt_def)
  ultimately show ?thesis using v6 s(1) p by blast
qed

lemma parse_v6_port:
  assumes "re2_semantics re" "p \<in> rx_lang port_rx" "\<not> link_local a"
  shows "HostPort_ParseString re x (v6_text a p) =
    Inr \<lparr> hp_host = a, hp_port = int (decimal p), hp_isIPv6 = True \<rparr>"
proof -
  have pt: "port_text p" using port_rx_text [OF assms(2)] .
  note no = port_text_no_colon [OF pt]
  have "re p PORT_RE" using assms(1,2) by (simp add: re2_semantics_def rx_match_lang)
  then have "IsValidIPv6HostPortString re (v6_text a p)"
    unfolding valid6_text [OF no(1)] using assms(3) no(2) pt by (auto simp: link_local_def port_text_def)
  from parse_v6 [OF no(1) this, of x] show ?thesis
    using stoi_port_text [OF pt] by (simp add: StringToInt_def)
qed

lemma HostPort_ToString_v4:
  "a \<noteq> [] \<Longrightarrow> HostPort_ToString \<lparr> hp_host = a, hp_port = int n, hp_isIPv6 = False \<rparr> = v4_text a (to_string n)"
  by (simp add: HostPort_ToString_def v4_text_def to_string_int_def)

lemma HostPort_ToString_v6:
  "HostPort_ToString \<lparr> hp_host = a, hp_port = int n, hp_isIPv6 = True \<rparr> = v6_text a (to_string n)"
  by (simp add: HostPort_ToString_def v6_text_def to_string_int_def)

text \<open>
  C22. Endpoint text round trip: a non-empty text that a fresh \<^verbatim>\<open>HostPort\<close> accepts gives a port between
  0 and 65535, and printing the endpoint and parsing it again gives the same host, port and address
  family, for IPv4, \<^verbatim>\<open>localhost\<close> and bracketed IPv6 text. So the printed form is a canonical name of
  the endpoint, which is what the topology code compares addresses by.
\<close>

theorem HostPort_roundtrip:
  assumes "re2_semantics re" "s \<noteq> []" "HostPort_ParseString re HostPort_default s = Inr h"
  shows "0 \<le> hp_port h \<and> hp_port h \<le> 65535 \<and>
    HostPort_ParseString re HostPort_default (HostPort_ToString h) = Inr h"
  using assms
proof (cases rule: ParseString_cases)
  case (v4 a p)
  have "decimal p \<le> 65535" using port_rx_text [OF v4(3)] by (simp add: port_text_def)
  then show ?thesis
    using v4 host_rx_chars(3) [OF v4(2)] parse_v4 [OF assms(1) v4(2) port_rx_to_string, of "decimal p" HostPort_default]
    by (simp add: HostPort_default_def HostPort_make_def HostPort_ToString_v4)
next
  case (v6 a p)
  have "decimal p \<le> 65535" using port_rx_text [OF v6(2)] by (simp add: port_text_def)
  then show ?thesis
    using v6 parse_v6_port [OF assms(1) port_rx_to_string v6(3), of "decimal p" HostPort_default]
    by (simp add: HostPort_ToString_v6)
qed

definition re2_model :: re2 where
  "re2_model v p =
     (if p = IPV4_HOST_PORT_RE then rx_match ipv4_host_port_rx v
      else if p = PORT_RE then rx_match port_rx v
      else False)"

lemma re2_model_semantics: "re2_semantics re2_model"
proof -
  have "IPV4_HOST_PORT_RE \<noteq> PORT_RE" by (simp add: IPV4_HOST_PORT_RE_def PORT_RE_def)
  then show ?thesis by (simp add: re2_semantics_def re2_model_def)
qed

theorem HostPort_roundtrip_witness:
  "re2_semantics re2_model \<and>
   HostPort_ParseString re2_model HostPort_default ''[fe80::1%eth0]:00531'' =
     Inr \<lparr> hp_host = ''fe80::1%eth0'', hp_port = 531, hp_isIPv6 = True \<rparr> \<and>
   HostPort_ParseString re2_model HostPort_default
     (HostPort_ToString \<lparr> hp_host = ''fe80::1%eth0'', hp_port = 531, hp_isIPv6 = True \<rparr>) =
     Inr \<lparr> hp_host = ''fe80::1%eth0'', hp_port = 531, hp_isIPv6 = True \<rparr>"
proof -
  have "HostPort_ParseString re2_model HostPort_default ''[fe80::1%eth0]:00531'' =
     Inr \<lparr> hp_host = ''fe80::1%eth0'', hp_port = 531, hp_isIPv6 = True \<rparr>" by code_simp
  then show ?thesis
    using HostPort_roundtrip [OF re2_model_semantics, of "''[fe80::1%eth0]:00531''"] re2_model_semantics
    by simp
qed

text \<open>
  \<^verbatim>\<open>ParseString\<close> sets the address family of an IPv6 text and never resets it: an object that has parsed
  an IPv6 endpoint and then an IPv4 one prints the IPv4 host in brackets.
\<close>

theorem ParseString_keeps_family:
  "HostPort_ParseString re2_model HostPort_default ''[::1]:80'' = Inr \<lparr> hp_host = ''::1'', hp_port = 80, hp_isIPv6 = True \<rparr>"
  "HostPort_ParseString re2_model \<lparr> hp_host = ''::1'', hp_port = 80, hp_isIPv6 = True \<rparr> ''10.0.0.1:80'' =
     Inr \<lparr> hp_host = ''10.0.0.1'', hp_port = 80, hp_isIPv6 = True \<rparr>"
  "HostPort_ToString \<lparr> hp_host = ''10.0.0.1'', hp_port = 80, hp_isIPv6 = True \<rparr> = ''[10.0.0.1]:80''"
  by code_simp+

section \<open>Splitting\<close>

lemma find_from_char: "c \<notin> set u \<Longrightarrow> find_from [c] (u @ c # v) = Some (length u)"
  by (induction u) auto

lemma Split_loop_step: "c \<notin> set u \<Longrightarrow> Split_loop [c] (u @ c # v) = u # Split_loop [c] v"
  using find_from_char [of c u v] Split_loop.simps(3) [of c "[]" "hd (u @ c # v)" "tl (u @ c # v)"]
  by (cases u) simp_all

lemma Split_loop_char:
  "concat (map (\<lambda>x. x @ [c]) (Split_loop [c] (s @ [c]))) = s @ [c] \<and>
   (\<forall>x \<in> set (Split_loop [c] (s @ [c])). c \<notin> set x)"
proof (induction s rule: length_induct)
  case (1 s)
  show ?case
  proof (cases "c \<in> set s")
    case True
    then obtain u v where s: "s = u @ c # v" "c \<notin> set u" by (meson split_list_first)
    with 1 [rule_format, of v] Split_loop_step [of c u "v @ [c]"] show ?thesis by simp
  next
    case False
    with Split_loop_step [of c s "[]"] show ?thesis by simp
  qed
qed

lemma Split_char:
  "concat (map (\<lambda>x. x @ [c]) (Split s [c])) = s @ [c]" "x \<in> set (Split s [c]) \<Longrightarrow> c \<notin> set x"
  using Split_loop_char [of c s] by (auto simp: Split_def)

end
