(* ===== verification/Topology_Types.thy ===== *)
theory Topology_Types
  imports Prelude
begin

text \<open>
  The cluster topology values of \<^verbatim>\<open>cluster/model/topology_types.h\<close>: member and change states,
  identities, token ranges, the topology state, tasks, notifications, fences and plans. A struct is a
  record, \<^verbatim>\<open>std::optional\<close> is \<open>option\<close>, \<^verbatim>\<open>uint64_t\<close> and \<^verbatim>\<open>uint32_t\<close> are words, an \<^verbatim>\<open>int64_t\<close>
  timestamp is an \<open>int\<close>, and the variant of the two task kinds is a datatype.
\<close>

datatype MemberState = INITIAL | JOINING | ACTIVE | PRE_LEAVING | LEAVING | FAILED

datatype TopologyChangeType = SCALE_OUT | SCALE_IN | FAILURE

datatype TopologyTaskKind = MIGRATE | DELETE_MEMBER

datatype TopologyCallbackPhase = PHASE_SCALE_OUT | PHASE_SCALE_IN | PHASE_SCALE_IN_CLEANUP | PHASE_FAILURE

definition MAX_MEMBER_ADDRESS_BYTES :: nat where
  "MAX_MEMBER_ADDRESS_BYTES = 1024"

definition MAX_TOPOLOGY_TASK_RANGES :: nat where
  "MAX_TOPOLOGY_TASK_RANGES = 4096"

definition IsCommittedMemberState :: "MemberState \<Rightarrow> bool" where
  "IsCommittedMemberState state \<longleftrightarrow> state = ACTIVE \<or> state = PRE_LEAVING \<or> state = LEAVING"

definition IsAdmittedScaleInMigrationTargetState :: "MemberState \<Rightarrow> bool" where
  "IsAdmittedScaleInMigrationTargetState state \<longleftrightarrow> state = ACTIVE \<or> state = PRE_LEAVING"

record MemberIdentity =
  mi_id :: string
  mi_address :: string

record TokenRange =
  tr_from :: "32 word"
  tr_end :: "32 word"

record Member =
  m_identity :: MemberIdentity
  m_state :: MemberState
  m_tokens :: "32 word list"

record ActiveBatch =
  ab_type :: TopologyChangeType
  ab_epoch :: "64 word"

record TopologyMigrationFence =
  mf_topologyVersion :: "64 word"
  mf_batchEpoch :: "64 word"
  mf_source :: MemberIdentity
  mf_target :: MemberIdentity

record TopologyState =
  ts_clusterHasInit :: bool
  ts_version :: "64 word"
  ts_members :: "Member list"
  ts_activeBatch :: "ActiveBatch option"

record TopologyTaskRange =
  ttr_ownerAddress :: string
  ttr_range :: TokenRange
  ttr_finished :: bool

record TopologyMigrateTask =
  mt_taskId :: string
  mt_type :: TopologyChangeType
  mt_epoch :: "64 word"
  mt_executorAddress :: string
  mt_targetAddress :: string
  mt_sourceRanges :: "TopologyTaskRange list"

record TopologyDeleteTask =
  dt_taskId :: string
  dt_epoch :: "64 word"
  dt_executorAddress :: string
  dt_failedAddress :: string
  dt_recoveryRanges :: "TopologyTaskRange list"

datatype TopologyTask = MigrateTask TopologyMigrateTask | DeleteTask TopologyDeleteTask

fun TaskKind :: "TopologyTask \<Rightarrow> TopologyTaskKind" where
  "TaskKind (MigrateTask _) = MIGRATE"
| "TaskKind (DeleteTask _) = DELETE_MEMBER"

record TopologyTaskNotify =
  tn_activeBatch :: "ActiveBatch option"
  tn_taskIds :: "string list"
  tn_restartTimestampsByAddress :: "(string, int) omap"

record TopologyExecutionFence =
  ef_taskId :: string
  ef_taskKind :: TopologyTaskKind
  ef_batchType :: TopologyChangeType
  ef_batchEpoch :: "64 word"
  ef_phase :: TopologyCallbackPhase
  ef_executor :: MemberIdentity
  ef_source :: "MemberIdentity option"
  ef_target :: "MemberIdentity option"
  ef_failed :: "MemberIdentity option"
  ef_ranges :: "TokenRange list"

record TopologyOwnerChange =
  oc_source :: "MemberIdentity option"
  oc_target :: MemberIdentity
  oc_ranges :: "TokenRange list"

record TopologyPlan =
  tp_next :: TopologyState
  tp_ownerChanges :: "TopologyOwnerChange list"

abbreviation m_address :: "Member \<Rightarrow> string" where
  "m_address m \<equiv> mi_address (m_identity m)"

abbreviation m_id :: "Member \<Rightarrow> string" where
  "m_id m \<equiv> mi_id (m_identity m)"

definition in_range :: "32 word \<Rightarrow> TokenRange \<Rightarrow> bool" where
  "in_range t r \<longleftrightarrow> tr_from r \<le> t \<and> t \<le> tr_end r"

end
