(* ===== verification/Topology_Snapshot.thy ===== *)
theory Topology_Snapshot
  imports Net_Util Topology_Types
begin

text \<open>
  The validated, immutable topology snapshot of \<^verbatim>\<open>cluster/model/topology_snapshot.{h,cpp}\<close>.

  Validation walks the members in address order; the sets of seen ids and tokens are lists. The
  indexes of a snapshot are the two hash maps from addresses and ids to positions (partial functions,
  where \<^verbatim>\<open>emplace\<close> keeps an existing entry), the member views and the two token rings. A pointer
  into the member vector of an immutable snapshot is the member it points to. \<^verbatim>\<open>std::sort\<close> is the
  stable sort of HOL; validation rejects the inputs on which the order of equal keys could be seen.

  \<open>valid_topology\<close> and \<open>canonical\<close> are the declarative counterparts of the validation loop.
\<close>

section \<open>Batches\<close>

definition MEMBER_ID_SIZE :: nat where
  "MEMBER_ID_SIZE = 16"

definition IsProspective :: "MemberState \<Rightarrow> ActiveBatch option \<Rightarrow> bool" where
  "IsProspective state batch =
     (case batch of
        None \<Rightarrow> False
      | Some b \<Rightarrow>
          if ab_type b = SCALE_OUT then IsCommittedMemberState state \<or> state = JOINING
          else if ab_type b = SCALE_IN then IsCommittedMemberState state \<and> state \<noteq> LEAVING
          else False)"

definition MatchesBatch :: "MemberState \<Rightarrow> TopologyChangeType \<Rightarrow> bool" where
  "MatchesBatch state type =
     (if type = SCALE_OUT then state \<noteq> LEAVING \<and> state \<noteq> FAILED
      else if type = SCALE_IN then state \<noteq> JOINING \<and> state \<noteq> FAILED
      else True)"

definition is_participant :: "MemberState \<Rightarrow> TopologyChangeType \<Rightarrow> bool" where
  "is_participant state type \<longleftrightarrow>
     (type = SCALE_OUT \<and> state = JOINING) \<or> (type = SCALE_IN \<and> state = LEAVING) \<or>
     (type = FAILURE \<and> state = FAILED)"

fun batch_loop :: "TopologyChangeType \<Rightarrow> Member list \<Rightarrow> bool \<Rightarrow> bool result" where
  "batch_loop type [] hasParticipant = Inr hasParticipant"
| "batch_loop type (m # ms) hasParticipant =
     (if \<not> MatchesBatch (m_state m) type then Inl K_INVALID
      else batch_loop type ms (hasParticipant \<or> is_participant (m_state m) type))"

definition ValidateBatchStates :: "TopologyState \<Rightarrow> unit result" where
  "ValidateBatchStates state =
     (case ts_activeBatch state of
        None \<Rightarrow>
          if list_ex (\<lambda>m. m_state m = JOINING \<or> m_state m = LEAVING \<or> m_state m = FAILED) (ts_members state)
          then Inl K_INVALID else Inr ()
      | Some b \<Rightarrow>
          (case batch_loop (ab_type b) (ts_members state) False of
             Inl e \<Rightarrow> Inl e
           | Inr hasParticipant \<Rightarrow> if \<not> hasParticipant then Inl K_INVALID else Inr ()))"

section \<open>Validation\<close>

definition ValidateAddress :: "re2 \<Rightarrow> string \<Rightarrow> unit result" where
  "ValidateAddress re address =
     (if address \<noteq> [] \<and> length address \<le> MAX_MEMBER_ADDRESS_BYTES
       \<and> (case HostPort_ParseString re HostPort_default address of
            Inl _ \<Rightarrow> False
          | Inr hostPort \<Rightarrow> HostPort_ToString hostPort = address)
      then Inr () else Inl K_INVALID)"

fun emplace_tokens :: "32 word list \<Rightarrow> 32 word list \<Rightarrow> 32 word list result" where
  "emplace_tokens [] tokens = Inr tokens"
| "emplace_tokens (ringPoint # ps) tokens =
     (if ringPoint \<in> set tokens then Inl K_INVALID else emplace_tokens ps (ringPoint # tokens))"

fun member_loop ::
  "re2 \<Rightarrow> Member list \<Rightarrow> string option \<Rightarrow> string list \<Rightarrow> 32 word list \<Rightarrow> bool \<Rightarrow> bool \<Rightarrow> (Member list \<times> bool \<times> bool) result" where
  "member_loop re [] prev ids tokens hasCommittedMember hasCommittedToken =
     Inr ([], hasCommittedMember, hasCommittedToken)"
| "member_loop re (m # ms) prev ids tokens hasCommittedMember hasCommittedToken =
     (case ValidateAddress re (m_address m) of
        Inl e \<Rightarrow> Inl e
      | Inr _ \<Rightarrow>
          if length (m_id m) \<noteq> MEMBER_ID_SIZE then Inl K_INVALID
          else if prev = Some (m_address m) then Inl K_INVALID
          else if m_id m \<in> set ids then Inl K_INVALID
          else
            let m' = m \<lparr> m_tokens := sort (m_tokens m) \<rparr>
            in case emplace_tokens (m_tokens m') tokens of
                 Inl e \<Rightarrow> Inl e
               | Inr tokens' \<Rightarrow>
                   let committed = IsCommittedMemberState (m_state m)
                   in case member_loop re ms (Some (m_address m)) (m_id m # ids) tokens'
                             (hasCommittedMember \<or> committed)
                             (hasCommittedToken \<or> (committed \<and> m_tokens m' \<noteq> [])) of
                        Inl e \<Rightarrow> Inl e
                      | Inr (ms', hm, ht) \<Rightarrow> Inr (m' # ms', hm, ht))"

definition ValidateAndCanonicalizeTopologyState :: "re2 \<Rightarrow> TopologyState \<Rightarrow> TopologyState result" where
  "ValidateAndCanonicalizeTopologyState re state =
     (if \<not> (ts_version state > 0 \<and> ts_version state \<le> 0x7FFFFFFFFFFFFFFF) then Inl K_INVALID
      else if (case ts_activeBatch state of
                 None \<Rightarrow> False
               | Some b \<Rightarrow> \<not> (ab_epoch b > 0 \<and> ab_epoch b \<le> ts_version state)) then Inl K_INVALID
      else case ValidateBatchStates state of
             Inl e \<Rightarrow> Inl e
           | Inr _ \<Rightarrow>
               (case member_loop re (sort_key m_address (ts_members state)) None [] [] False False of
                  Inl e \<Rightarrow> Inl e
                | Inr (members, hasCommittedMember, hasCommittedToken) \<Rightarrow>
                    if \<not> (\<not> hasCommittedMember \<or> hasCommittedToken) then Inl K_INVALID
                    else Inr (state \<lparr> ts_members := members \<rparr>)))"

definition IsSha256Hex :: "string \<Rightarrow> bool" where
  "IsSha256Hex digest \<longleftrightarrow>
     length digest = 64 \<and>
     list_all (\<lambda>v. (CHR ''0'' \<le> v \<and> v \<le> CHR ''9'') \<or> (CHR ''a'' \<le> v \<and> v \<le> CHR ''f'')) digest"

section \<open>The snapshot and its indexes\<close>

record TopologySnapshot =
  sn_state :: TopologyState
  sn_authorityRevision :: int
  sn_canonicalDigest :: string
  sn_addressIndex :: "string \<rightharpoonup> nat"
  sn_idIndex :: "string \<rightharpoonup> nat"
  sn_committedMembers :: "Member list"
  sn_activeMembers :: "Member list"
  sn_failedMembers :: "Member list"
  sn_committedTokenOwners :: "(32 word \<times> Member) list"
  sn_prospectiveTokenOwners :: "(32 word \<times> Member) list"

definition emplace_index :: "'k \<Rightarrow> nat \<Rightarrow> ('k \<rightharpoonup> nat) \<Rightarrow> ('k \<rightharpoonup> nat)" where
  "emplace_index k i m = (if m k = None then m(k \<mapsto> i) else m)"

definition index_member :: "TopologySnapshot \<Rightarrow> nat \<times> Member \<Rightarrow> TopologySnapshot" where
  "index_member s im =
     (let index = fst im;
          member = snd im;
          s = s \<lparr> sn_addressIndex := emplace_index (m_address member) index (sn_addressIndex s),
                  sn_idIndex := emplace_index (m_id member) index (sn_idIndex s) \<rparr>;
          s = (if IsCommittedMemberState (m_state member)
               then s \<lparr> sn_committedMembers := sn_committedMembers s @ [member],
                        sn_committedTokenOwners :=
                          sn_committedTokenOwners s @ map (\<lambda>p. (p, member)) (m_tokens member) \<rparr>
               else s);
          s = (if m_state member = ACTIVE then s \<lparr> sn_activeMembers := sn_activeMembers s @ [member] \<rparr>
               else if m_state member = FAILED then s \<lparr> sn_failedMembers := sn_failedMembers s @ [member] \<rparr>
               else s)
      in if IsProspective (m_state member) (ts_activeBatch (sn_state s))
         then s \<lparr> sn_prospectiveTokenOwners :=
                    sn_prospectiveTokenOwners s @ map (\<lambda>p. (p, member)) (m_tokens member) \<rparr>
         else s)"

definition BuildIndexes :: "TopologySnapshot \<Rightarrow> TopologySnapshot" where
  "BuildIndexes s =
     (let s = foldl index_member s (enumerate 0 (ts_members (sn_state s)))
      in s \<lparr> sn_committedTokenOwners := sort_key fst (sn_committedTokenOwners s),
             sn_prospectiveTokenOwners := sort_key fst (sn_prospectiveTokenOwners s) \<rparr>)"

definition TopologySnapshot_make :: "TopologyState \<Rightarrow> int \<Rightarrow> string \<Rightarrow> TopologySnapshot" where
  "TopologySnapshot_make state authorityRevision canonicalDigest =
     \<lparr> sn_state = state, sn_authorityRevision = authorityRevision, sn_canonicalDigest = canonicalDigest,
       sn_addressIndex = Map.empty, sn_idIndex = Map.empty, sn_committedMembers = [], sn_activeMembers = [],
       sn_failedMembers = [], sn_committedTokenOwners = [], sn_prospectiveTokenOwners = [] \<rparr>"

definition Create :: "re2 \<Rightarrow> TopologyState \<Rightarrow> int \<Rightarrow> string \<Rightarrow> TopologySnapshot result" where
  "Create re state authorityRevision canonicalDigest =
     (if \<not> (authorityRevision \<ge> 0 \<and> IsSha256Hex canonicalDigest) then Inl K_INVALID
      else case ValidateAndCanonicalizeTopologyState re state of
             Inl e \<Rightarrow> Inl e
           | Inr state' \<Rightarrow> Inr (BuildIndexes (TopologySnapshot_make state' authorityRevision canonicalDigest)))"

section \<open>Lookups\<close>

definition FindMemberByAddress :: "TopologySnapshot \<Rightarrow> string \<Rightarrow> Member result" where
  "FindMemberByAddress s address =
     (case sn_addressIndex s address of
        None \<Rightarrow> Inl K_NOT_FOUND
      | Some i \<Rightarrow> Inr (ts_members (sn_state s) ! i))"

definition FindMemberById :: "TopologySnapshot \<Rightarrow> string \<Rightarrow> Member result" where
  "FindMemberById s i =
     (if length i \<noteq> MEMBER_ID_SIZE then Inl K_INVALID
      else case sn_idIndex s i of
             None \<Rightarrow> Inl K_NOT_FOUND
           | Some n \<Rightarrow> Inr (ts_members (sn_state s) ! n))"

definition upper_member :: "Member list \<Rightarrow> string \<Rightarrow> Member" where
  "upper_member ms address =
     (case dropWhile (\<lambda>m. \<not> address < m_address m) ms of [] \<Rightarrow> hd ms | m # _ \<Rightarrow> m)"

definition FindNextCommittedMember :: "TopologySnapshot \<Rightarrow> string \<Rightarrow> Member result" where
  "FindNextCommittedMember s address =
     (case FindMemberByAddress s address of
        Inl _ \<Rightarrow> Inl K_NOT_FOUND
      | Inr current \<Rightarrow>
          if \<not> IsCommittedMemberState (m_state current) then Inl K_NOT_FOUND
          else if \<not> 1 < length (sn_committedMembers s) then Inl K_NOT_FOUND
          else let candidate = upper_member (sn_committedMembers s) address
               in if m_address candidate = address then Inl K_NOT_FOUND else Inr candidate)"

definition FindNextActiveMember :: "TopologySnapshot \<Rightarrow> string \<Rightarrow> Member result" where
  "FindNextActiveMember s address =
     (if sn_activeMembers s = [] then Inl K_NOT_FOUND
      else let candidate = upper_member (sn_activeMembers s) address
           in if m_address candidate = address then Inl K_NOT_FOUND else Inr candidate)"

definition FindExactMember :: "TopologySnapshot \<Rightarrow> MemberIdentity \<Rightarrow> Member result" where
  "FindExactMember s identity =
     (if mi_id identity = [] \<or> mi_address identity = [] then Inl K_INVALID
      else case FindMemberByAddress s (mi_address identity) of
             Inl _ \<Rightarrow> Inl K_INVALID
           | Inr candidate \<Rightarrow> if m_identity candidate = identity then Inr candidate else Inl K_INVALID)"

definition ValidateMigrationFence :: "TopologySnapshot \<Rightarrow> TopologyMigrationFence \<Rightarrow> unit result" where
  "ValidateMigrationFence s fence =
     (if mf_topologyVersion fence > ts_version (sn_state s) then Inl K_TRY_AGAIN
      else if mf_topologyVersion fence = 0 then Inl K_INVALID
      else case ts_activeBatch (sn_state s) of
             None \<Rightarrow> Inl K_INVALID
           | Some b \<Rightarrow>
               if \<not> (mf_batchEpoch fence \<noteq> 0 \<and> ab_epoch b = mf_batchEpoch fence) then Inl K_INVALID
               else case FindExactMember s (mf_source fence) of
                      Inl e \<Rightarrow> Inl e
                    | Inr source \<Rightarrow>
                        (case FindExactMember s (mf_target fence) of
                           Inl e \<Rightarrow> Inl e
                         | Inr target \<Rightarrow>
                             let scaleOut = (ab_type b = SCALE_OUT \<and> IsCommittedMemberState (m_state source)
                                             \<and> m_state target = JOINING);
                                 scaleIn = (ab_type b = SCALE_IN \<and> m_state source = LEAVING
                                            \<and> IsAdmittedScaleInMigrationTargetState (m_state target)
                                            \<and> m_identity source \<noteq> m_identity target)
                             in if scaleOut \<or> scaleIn then Inr () else Inl K_INVALID))"

section \<open>Validation against its specification\<close>

definition canonical_address :: "re2 \<Rightarrow> string \<Rightarrow> bool" where
  "canonical_address re a \<longleftrightarrow>
     a \<noteq> [] \<and> length a \<le> MAX_MEMBER_ADDRESS_BYTES \<and>
     (\<exists>h. HostPort_ParseString re HostPort_default a = Inr h \<and> HostPort_ToString h = a)"

definition valid_member :: "re2 \<Rightarrow> Member \<Rightarrow> bool" where
  "valid_member re m \<longleftrightarrow> canonical_address re (m_address m) \<and> length (m_id m) = MEMBER_ID_SIZE"

definition batch_states_ok :: "TopologyState \<Rightarrow> bool" where
  "batch_states_ok s \<longleftrightarrow>
     (case ts_activeBatch s of
        None \<Rightarrow> \<forall>m \<in> set (ts_members s). m_state m \<noteq> JOINING \<and> m_state m \<noteq> LEAVING \<and> m_state m \<noteq> FAILED
      | Some b \<Rightarrow>
          ab_epoch b > 0 \<and> ab_epoch b \<le> ts_version s \<and>
          (\<forall>m \<in> set (ts_members s). MatchesBatch (m_state m) (ab_type b)) \<and>
          (\<exists>m \<in> set (ts_members s). is_participant (m_state m) (ab_type b)))"

definition valid_topology :: "re2 \<Rightarrow> TopologyState \<Rightarrow> bool" where
  "valid_topology re s \<longleftrightarrow>
     ts_version s > 0 \<and> ts_version s \<le> 0x7FFFFFFFFFFFFFFF \<and> batch_states_ok s \<and>
     (\<forall>m \<in> set (ts_members s). valid_member re m) \<and>
     distinct (map m_address (ts_members s)) \<and> distinct (map m_id (ts_members s)) \<and>
     distinct (concat (map m_tokens (ts_members s))) \<and>
     ((\<exists>m \<in> set (ts_members s). IsCommittedMemberState (m_state m)) \<longrightarrow>
      (\<exists>m \<in> set (ts_members s). IsCommittedMemberState (m_state m) \<and> m_tokens m \<noteq> []))"

definition sort_tokens :: "Member \<Rightarrow> Member" where
  "sort_tokens m = m \<lparr> m_tokens := sort (m_tokens m) \<rparr>"

definition canonical :: "TopologyState \<Rightarrow> TopologyState" where
  "canonical s = s \<lparr> ts_members := map sort_tokens (sort_key m_address (ts_members s)) \<rparr>"

lemma sort_tokens_simps [simp]:
  "m_address (sort_tokens m) = m_address m" "m_id (sort_tokens m) = m_id m" "m_state (sort_tokens m) = m_state m"
  "m_identity (sort_tokens m) = m_identity m" "m_tokens (sort_tokens m) = sort (m_tokens m)"
  "sort_tokens (sort_tokens m) = sort_tokens m"
  by (simp_all add: sort_tokens_def sorted_sort_id)

lemma ValidateAddress_eq: "ValidateAddress re a = (if canonical_address re a then Inr () else Inl K_INVALID)"
  by (auto simp: ValidateAddress_def canonical_address_def split: sum.splits)

lemma batch_loop_eq:
  "batch_loop type ms h =
     (if \<forall>m \<in> set ms. MatchesBatch (m_state m) type
      then Inr (h \<or> (\<exists>m \<in> set ms. is_participant (m_state m) type)) else Inl K_INVALID)"
  by (induction ms arbitrary: h) auto

lemma emplace_tokens_eq:
  "emplace_tokens ps toks =
     (if distinct ps \<and> set ps \<inter> set toks = {} then Inr (rev ps @ toks) else Inl K_INVALID)"
  by (induction ps arbitrary: toks) auto

definition loop_ok :: "re2 \<Rightarrow> Member list \<Rightarrow> string option \<Rightarrow> string list \<Rightarrow> 32 word list \<Rightarrow> bool" where
  "loop_ok re ms prev ids toks \<longleftrightarrow>
     (\<forall>m \<in> set ms. valid_member re m) \<and> distinct (map m_address ms) \<and>
     (case prev of None \<Rightarrow> True | Some a \<Rightarrow> a \<notin> m_address ` set ms) \<and>
     (distinct (map m_id ms) \<and> set ids \<inter> m_id ` set ms = {}) \<and>
     (distinct (concat (map m_tokens ms)) \<and> set toks \<inter> set (concat (map m_tokens ms)) = {})"

lemma loop_ok_Cons:
  assumes "sorted (map m_address (m # ms))" "\<And>a. prev = Some a \<Longrightarrow> a \<le> m_address m"
  shows "loop_ok re (m # ms) prev ids toks \<longleftrightarrow>
     valid_member re m \<and> prev \<noteq> Some (m_address m) \<and> m_id m \<notin> set ids \<and>
     distinct (m_tokens m) \<and> set (m_tokens m) \<inter> set toks = {} \<and>
     loop_ok re ms (Some (m_address m)) (m_id m # ids) (rev (sort (m_tokens m)) @ toks)"
proof -
  have prev: "(case prev of None \<Rightarrow> True | Some a \<Rightarrow> a \<notin> m_address ` set (m # ms)) \<longleftrightarrow> prev \<noteq> Some (m_address m)"
  proof (cases prev)
    case (Some a)
    have "m_address m = a" if "a \<in> m_address ` set ms"
    proof -
      have "m_address m \<le> a" using that assms(1) by auto
      with assms(2) Some show ?thesis by (simp add: antisym)
    qed
    then show ?thesis using Some by auto
  qed simp
  have ids: "distinct (map m_id (m # ms)) \<and> set ids \<inter> m_id ` set (m # ms) = {} \<longleftrightarrow>
      m_id m \<notin> set ids \<and> distinct (map m_id ms) \<and> set (m_id m # ids) \<inter> m_id ` set ms = {}"
    by auto
  have toks: "distinct (concat (map m_tokens (m # ms))) \<and> set toks \<inter> set (concat (map m_tokens (m # ms))) = {} \<longleftrightarrow>
      distinct (m_tokens m) \<and> set (m_tokens m) \<inter> set toks = {} \<and> distinct (concat (map m_tokens ms)) \<and>
      set (rev (sort (m_tokens m)) @ toks) \<inter> set (concat (map m_tokens ms)) = {}"
    unfolding list.map concat.simps distinct_append set_append set_rev set_sort by blast
  have adr: "distinct (map m_address (m # ms)) \<longleftrightarrow>
      distinct (map m_address ms) \<and> m_address m \<notin> m_address ` set ms" by auto
  have ok: "(\<forall>x \<in> set (m # ms). valid_member re x) \<longleftrightarrow> valid_member re m \<and> (\<forall>x \<in> set ms. valid_member re x)"
    by simp
  show ?thesis unfolding loop_ok_def prev ids toks adr ok option.case by blast
qed

lemma member_loop_eq:
  "sorted (map m_address ms) \<Longrightarrow> (\<And>a. prev = Some a \<Longrightarrow> \<forall>m \<in> set ms. a \<le> m_address m) \<Longrightarrow>
   member_loop re ms prev ids toks hm ht =
     (if loop_ok re ms prev ids toks
      then Inr (map sort_tokens ms, hm \<or> (\<exists>m \<in> set ms. IsCommittedMemberState (m_state m)),
             ht \<or> (\<exists>m \<in> set ms. IsCommittedMemberState (m_state m) \<and> m_tokens m \<noteq> []))
      else Inl K_INVALID)"
proof (induction ms arbitrary: prev ids toks hm ht)
  case Nil
  show ?case by (simp add: loop_ok_def split: option.splits)
next
  case (Cons m ms)
  have s: "sorted (map m_address ms)" "\<And>a. Some (m_address m) = Some a \<Longrightarrow> \<forall>m \<in> set ms. a \<le> m_address m"
    using Cons.prems(1) by auto
  note IH = Cons.IH [OF s]
  have ne: "sort (m_tokens m) = [] \<longleftrightarrow> m_tokens m = []" by (metis set_empty set_sort)
  have ok: "loop_ok re (m # ms) prev ids toks \<longleftrightarrow>
     valid_member re m \<and> prev \<noteq> Some (m_address m) \<and> m_id m \<notin> set ids \<and>
     distinct (m_tokens m) \<and> set (m_tokens m) \<inter> set toks = {} \<and>
     loop_ok re ms (Some (m_address m)) (m_id m # ids) (rev (sort (m_tokens m)) @ toks)"
    using Cons.prems by (intro loop_ok_Cons) auto
  show ?case
    unfolding ok member_loop.simps ValidateAddress_eq emplace_tokens_eq Let_def
    by (cases "valid_member re m"; cases "prev = Some (m_address m)"; cases "m_id m \<in> set ids";
        cases "distinct (m_tokens m)"; cases "set (m_tokens m) \<inter> set toks = {}")
      (simp_all add: valid_member_def ne sort_tokens_def IH disj_assoc)
qed

lemma ValidateBatchStates_eq:
  "(case ts_activeBatch s of None \<Rightarrow> True | Some b \<Rightarrow> ab_epoch b > 0 \<and> ab_epoch b \<le> ts_version s) \<Longrightarrow>
   ValidateBatchStates s = (if batch_states_ok s then Inr () else Inl K_INVALID)"
  by (auto simp: ValidateBatchStates_def batch_states_ok_def batch_loop_eq list_ex_iff split: option.splits)

lemma distinct_concat_sort_key:
  "distinct (concat (map f (sort_key g xs))) \<longleftrightarrow> distinct (concat (map f xs))"
proof (rule mset_eq_imp_distinct_iff)
  have "mset (concat (map f ys)) = sum_mset (image_mset (mset \<circ> f) (mset ys))" for ys
    unfolding mset_concat map_map sum_mset_sum_list [symmetric] mset_map ..
  then show "mset (concat (map f (sort_key g xs))) = mset (concat (map f xs))" by simp
qed

lemma distinct_map_sort_key: "distinct (map f (sort_key g xs)) \<longleftrightarrow> distinct (map f xs)"
  by (rule mset_eq_imp_distinct_iff) simp

lemma validate_eq:
  "ValidateAndCanonicalizeTopologyState re s =
     (if valid_topology re s then Inr (canonical s) else Inl K_INVALID)"
proof (cases "ts_version s > 0 \<and> ts_version s \<le> 0x7FFFFFFFFFFFFFFF \<and>
    (case ts_activeBatch s of None \<Rightarrow> True | Some b \<Rightarrow> ab_epoch b > 0 \<and> ab_epoch b \<le> ts_version s)")
  case False
  then show ?thesis
    by (auto simp: ValidateAndCanonicalizeTopologyState_def valid_topology_def batch_states_ok_def split: option.splits)
next
  case True
  let ?ms = "sort_key m_address (ts_members s)"
  have loop: "member_loop re ?ms None [] [] False False =
     (if loop_ok re ?ms None [] []
      then Inr (map sort_tokens ?ms, \<exists>m \<in> set ?ms. IsCommittedMemberState (m_state m),
             \<exists>m \<in> set ?ms. IsCommittedMemberState (m_state m) \<and> m_tokens m \<noteq> [])
      else Inl K_INVALID)"
    using member_loop_eq [of ?ms None] by simp
  have ok: "loop_ok re ?ms None [] [] \<longleftrightarrow>
     (\<forall>m \<in> set (ts_members s). valid_member re m) \<and> distinct (map m_address (ts_members s)) \<and>
     distinct (map m_id (ts_members s)) \<and> distinct (concat (map m_tokens (ts_members s)))"
    by (simp add: loop_ok_def distinct_map_sort_key distinct_concat_sort_key)
  show ?thesis
    using True
    by (auto simp: ValidateAndCanonicalizeTopologyState_def loop ok valid_topology_def canonical_def
        ValidateBatchStates_eq split: option.splits)
qed

text \<open>
  C24. Topology validation decides its specification: \<^verbatim>\<open>ValidateAndCanonicalizeTopologyState\<close> accepts exactly
  the states with a version in range, member states that fit the active batch (and a participant of it),
  canonical addresses, 16-byte ids, no duplicate address, id or token, and a token owner whenever a member
  is committed; on them it returns the state with members in address order and tokens in ascending order,
  and every other state is refused with \<^verbatim>\<open>K_INVALID\<close>.
\<close>

theorem validate_topology_exact:
  "ValidateAndCanonicalizeTopologyState re s =
     (if valid_topology re s then Inr (canonical s) else Inl K_INVALID)"
  by (rule validate_eq)

section \<open>The indexes describe the members\<close>

definition token_owners :: "(MemberState \<Rightarrow> bool) \<Rightarrow> Member list \<Rightarrow> (32 word \<times> Member) list" where
  "token_owners P ms = concat (map (\<lambda>m. map (\<lambda>p. (p, m)) (m_tokens m)) (filter (\<lambda>m. P (m_state m)) ms))"

lemma set_token_owners: "(p, m) \<in> set (token_owners P ms) \<longleftrightarrow> m \<in> set ms \<and> P (m_state m) \<and> p \<in> set (m_tokens m)"
  by (auto simp: token_owners_def)

lemma map_fst_token_owners:
  "map fst (token_owners P ms) = concat (map m_tokens (filter (\<lambda>m. P (m_state m)) ms))"
  by (induction ms) (auto simp: token_owners_def comp_def)

lemma distinct_concat_filter: "distinct (concat (map f ms)) \<Longrightarrow> distinct (concat (map f (filter P ms)))"
  by (induction ms) auto

lemma emplace_index_map_add: "emplace_index k i m = [k \<mapsto> i] ++ m"
  by (auto simp: emplace_index_def fun_eq_iff map_add_def split: option.splits)

lemma index_member_simps [simp]:
  "sn_state (index_member s im) = sn_state s"
  "sn_addressIndex (index_member s im) = [m_address (snd im) \<mapsto> fst im] ++ sn_addressIndex s"
  "sn_idIndex (index_member s im) = [m_id (snd im) \<mapsto> fst im] ++ sn_idIndex s"
  "sn_committedMembers (index_member s im) =
     sn_committedMembers s @ filter (\<lambda>m. IsCommittedMemberState (m_state m)) [snd im]"
  "sn_activeMembers (index_member s im) = sn_activeMembers s @ filter (\<lambda>m. m_state m = ACTIVE) [snd im]"
  "sn_failedMembers (index_member s im) = sn_failedMembers s @ filter (\<lambda>m. m_state m = FAILED) [snd im]"
  "sn_committedTokenOwners (index_member s im) =
     sn_committedTokenOwners s @ token_owners IsCommittedMemberState [snd im]"
  "sn_prospectiveTokenOwners (index_member s im) =
     sn_prospectiveTokenOwners s @ token_owners (\<lambda>st. IsProspective st (ts_activeBatch (sn_state s))) [snd im]"
  by (simp_all add: index_member_def Let_def emplace_index_map_add token_owners_def)

lemma token_owners_Cons: "token_owners P (m # ms) = token_owners P [m] @ token_owners P ms"
  by (simp add: token_owners_def)

lemma foldl_index_member:
  fixes s :: TopologySnapshot
  defines "F \<equiv> \<lambda>s n ms. foldl index_member s (enumerate n ms)"
  shows "sn_state (F s n ms) = sn_state s"
    and "sn_addressIndex (F s n ms) = map_of (zip (map m_address ms) [n..<n + length ms]) ++ sn_addressIndex s"
    and "sn_idIndex (F s n ms) = map_of (zip (map m_id ms) [n..<n + length ms]) ++ sn_idIndex s"
    and "sn_committedMembers (F s n ms) =
      sn_committedMembers s @ filter (\<lambda>m. IsCommittedMemberState (m_state m)) ms"
    and "sn_activeMembers (F s n ms) = sn_activeMembers s @ filter (\<lambda>m. m_state m = ACTIVE) ms"
    and "sn_failedMembers (F s n ms) = sn_failedMembers s @ filter (\<lambda>m. m_state m = FAILED) ms"
    and "sn_committedTokenOwners (F s n ms) = sn_committedTokenOwners s @ token_owners IsCommittedMemberState ms"
    and "sn_prospectiveTokenOwners (F s n ms) =
      sn_prospectiveTokenOwners s @ token_owners (\<lambda>st. IsProspective st (ts_activeBatch (sn_state s))) ms"
proof -
  have upt: "[n..<n + length (m # ms)] = n # [Suc n..<Suc n + length ms]" for n and m :: Member and ms
    by (simp add: upt_rec)
  show "sn_state (F s n ms) = sn_state s"
    unfolding F_def by (induction ms arbitrary: s n) simp_all
  show "sn_addressIndex (F s n ms) = map_of (zip (map m_address ms) [n..<n + length ms]) ++ sn_addressIndex s"
    unfolding F_def
  proof (induction ms arbitrary: s n)
    case (Cons m ms)
    then show ?case unfolding upt by (auto simp: fun_eq_iff map_add_def split: option.splits)
  qed simp
  show "sn_idIndex (F s n ms) = map_of (zip (map m_id ms) [n..<n + length ms]) ++ sn_idIndex s"
    unfolding F_def
  proof (induction ms arbitrary: s n)
    case (Cons m ms)
    then show ?case unfolding upt by (auto simp: fun_eq_iff map_add_def split: option.splits)
  qed simp
  show "sn_committedMembers (F s n ms) =
      sn_committedMembers s @ filter (\<lambda>m. IsCommittedMemberState (m_state m)) ms"
    unfolding F_def by (induction ms arbitrary: s n) simp_all
  show "sn_activeMembers (F s n ms) = sn_activeMembers s @ filter (\<lambda>m. m_state m = ACTIVE) ms"
    unfolding F_def by (induction ms arbitrary: s n) simp_all
  show "sn_failedMembers (F s n ms) = sn_failedMembers s @ filter (\<lambda>m. m_state m = FAILED) ms"
    unfolding F_def by (induction ms arbitrary: s n) simp_all
  show "sn_committedTokenOwners (F s n ms) = sn_committedTokenOwners s @ token_owners IsCommittedMemberState ms"
    unfolding F_def by (induction ms arbitrary: s n) (simp_all add: token_owners_Cons [of _ _ "_ # _"] token_owners_def)
  show "sn_prospectiveTokenOwners (F s n ms) =
      sn_prospectiveTokenOwners s @ token_owners (\<lambda>st. IsProspective st (ts_activeBatch (sn_state s))) ms"
    unfolding F_def by (induction ms arbitrary: s n) (simp_all add: token_owners_def)
qed

definition snapshot_of :: "TopologyState \<Rightarrow> int \<Rightarrow> string \<Rightarrow> TopologySnapshot" where
  "snapshot_of st rv dig =
     \<lparr> sn_state = st, sn_authorityRevision = rv, sn_canonicalDigest = dig,
       sn_addressIndex = map_of (zip (map m_address (ts_members st)) [0..<length (ts_members st)]),
       sn_idIndex = map_of (zip (map m_id (ts_members st)) [0..<length (ts_members st)]),
       sn_committedMembers = filter (\<lambda>m. IsCommittedMemberState (m_state m)) (ts_members st),
       sn_activeMembers = filter (\<lambda>m. m_state m = ACTIVE) (ts_members st),
       sn_failedMembers = filter (\<lambda>m. m_state m = FAILED) (ts_members st),
       sn_committedTokenOwners = sort_key fst (token_owners IsCommittedMemberState (ts_members st)),
       sn_prospectiveTokenOwners =
         sort_key fst (token_owners (\<lambda>s. IsProspective s (ts_activeBatch st)) (ts_members st)) \<rparr>"

lemma index_member_more [simp]:
  "sn_authorityRevision (index_member s im) = sn_authorityRevision s"
  "sn_canonicalDigest (index_member s im) = sn_canonicalDigest s"
  "TopologySnapshot.more (index_member s im) = TopologySnapshot.more s"
  by (simp_all add: index_member_def Let_def)

lemma foldl_index_more:
  "sn_authorityRevision (foldl index_member s ims) = sn_authorityRevision s"
  "sn_canonicalDigest (foldl index_member s ims) = sn_canonicalDigest s"
  by (induction ims arbitrary: s) simp_all

lemma BuildIndexes_eq: "BuildIndexes (TopologySnapshot_make st rv dig) = snapshot_of st rv dig"
  by (rule TopologySnapshot.equality)
    (simp_all add: BuildIndexes_def Let_def foldl_index_member foldl_index_more snapshot_of_def TopologySnapshot_make_def)

lemma Create_eq:
  "Create re st rv dig =
     (if 0 \<le> rv \<and> IsSha256Hex dig \<and> valid_topology re st then Inr (snapshot_of (canonical st) rv dig)
      else Inl K_INVALID)"
  by (auto simp: Create_def validate_eq BuildIndexes_eq)

lemma Create_Inr:
  "Create re st rv dig = Inr s \<longleftrightarrow>
     0 \<le> rv \<and> IsSha256Hex dig \<and> valid_topology re st \<and> s = snapshot_of (canonical st) rv dig"
  unfolding Create_eq by (simp split: if_split) blast

lemma snapshot_of_simps [simp]:
  "sn_state (snapshot_of st rv dig) = st" "sn_authorityRevision (snapshot_of st rv dig) = rv"
  "sn_canonicalDigest (snapshot_of st rv dig) = dig"
  by (simp_all add: snapshot_of_def)

lemma canonical_simps [simp]:
  "ts_version (canonical s) = ts_version s" "ts_activeBatch (canonical s) = ts_activeBatch s"
  "ts_clusterHasInit (canonical s) = ts_clusterHasInit s"
  "set (ts_members (canonical s)) = sort_tokens ` set (ts_members s)"
  "map m_address (ts_members (canonical s)) = map m_address (sort_key m_address (ts_members s))"
  "map m_id (ts_members (canonical s)) = map m_id (sort_key m_address (ts_members s))"
  by (simp_all add: canonical_def)

lemma mset_concat_sort_tokens: "mset (concat (map m_tokens (map sort_tokens ms))) = mset (concat (map m_tokens ms))"
  by (induction ms) simp_all

lemma valid_canonical: "valid_topology re s \<Longrightarrow> valid_topology re (canonical s)"
proof -
  assume v: "valid_topology re s"
  have "ts_members (canonical s) = map sort_tokens (sort_key m_address (ts_members s))" by (simp add: canonical_def)
  then have "mset (concat (map m_tokens (ts_members (canonical s)))) =
      mset (concat (map m_tokens (sort_key m_address (ts_members s))))"
    by (simp only: mset_concat_sort_tokens)
  then have "distinct (concat (map m_tokens (ts_members (canonical s))))"
    using v mset_eq_imp_distinct_iff distinct_concat_sort_key unfolding valid_topology_def by metis
  moreover have "sort (m_tokens m) = [] \<longleftrightarrow> m_tokens m = []" for m :: Member by (metis set_empty set_sort)
  ultimately show ?thesis
    using v unfolding valid_topology_def batch_states_ok_def valid_member_def
    by (auto simp: distinct_map_sort_key split: option.splits)
qed

lemma canonical_idem: "canonical (canonical s) = canonical s"
proof -
  have "sorted (map m_address (ts_members (canonical s)))" by simp
  then have "sort_key m_address (ts_members (canonical s)) = ts_members (canonical s)" by (rule sort_key_id_if_sorted)
  then show ?thesis by (simp add: canonical_def comp_def)
qed

text \<open>
  C25. A snapshot is a normal form: building a snapshot from the state held by a snapshot, with the same
  revision and digest, succeeds and gives the same snapshot, indexes included.
\<close>

theorem snapshot_roundtrip:
  assumes "Create re st rv dig = Inr s"
  shows "Create re (sn_state s) (sn_authorityRevision s) (sn_canonicalDigest s) = Inr s"
  using assms valid_canonical [of re st] unfolding Create_Inr by (simp add: canonical_idem)

lemma map_of_zip_index:
  assumes "distinct ks"
  shows "map_of (zip ks [0..<length ks]) k = Some i \<longleftrightarrow> i < length ks \<and> ks ! i = k"
proof -
  have "distinct (map fst (zip ks [0..<length ks]))" using assms by simp
  then have "map_of (zip ks [0..<length ks]) k = Some i \<longleftrightarrow> (k, i) \<in> set (zip ks [0..<length ks])"
    by (rule map_of_eq_Some_iff)
  also have "\<dots> \<longleftrightarrow> i < length ks \<and> ks ! i = k" by (auto simp: set_zip)
  finally show ?thesis .
qed

lemma map_of_zip_None: "map_of (zip ks [0..<length ks]) k = None \<longleftrightarrow> k \<notin> set ks"
  by simp

lemma lookup_by_key:
  assumes "distinct (map f ms)"
  shows "(case map_of (zip (map f ms) [0..<length ms]) k of None \<Rightarrow> Inl e | Some i \<Rightarrow> Inr (ms ! i)) = Inr m
      \<longleftrightarrow> m \<in> set ms \<and> f m = k" (is "?L = Inr m \<longleftrightarrow> _")
    and "k \<notin> f ` set ms \<Longrightarrow> (case map_of (zip (map f ms) [0..<length ms]) k of None \<Rightarrow> Inl e | Some i \<Rightarrow> Inr (ms ! i)) = Inl e"
proof -
  note ix = map_of_zip_index [OF assms, of k]
  have inj: "inj_on f (set ms)" using assms by (simp add: distinct_map)
  show "?L = Inr m \<longleftrightarrow> m \<in> set ms \<and> f m = k"
  proof
    assume l: "?L = Inr m"
    then obtain i where "map_of (zip (map f ms) [0..<length (map f ms)]) k = Some i" "ms ! i = m"
      by (auto split: option.splits)
    then show "m \<in> set ms \<and> f m = k" using ix [of i] by auto
  next
    assume m: "m \<in> set ms \<and> f m = k"
    then obtain i where i: "i < length ms" "ms ! i = m" by (auto simp: in_set_conv_nth)
    then have "map_of (zip (map f ms) [0..<length (map f ms)]) k = Some i" using m ix by simp
    then show "?L = Inr m" using i by simp
  qed
  assume "k \<notin> f ` set ms"
  then have "map_of (zip (map f ms) [0..<length (map f ms)]) k = None" by (subst map_of_zip_None) simp
  then show "?L = Inl e" by (simp only: length_map option.case)
qed

lemma FindMemberByAddress_iff:
  assumes "distinct (map m_address (ts_members st))"
  shows "FindMemberByAddress (snapshot_of st rv dig) a = Inr m \<longleftrightarrow> m \<in> set (ts_members st) \<and> m_address m = a"
    and "a \<notin> m_address ` set (ts_members st) \<Longrightarrow> FindMemberByAddress (snapshot_of st rv dig) a = Inl K_NOT_FOUND"
  using lookup_by_key [OF assms, where k = a and e = K_NOT_FOUND]
  by (simp_all only: FindMemberByAddress_def snapshot_of_def TopologySnapshot.select_convs simp_thms)

lemma FindMemberById_iff:
  assumes "distinct (map m_id (ts_members st))" "length i = MEMBER_ID_SIZE"
  shows "FindMemberById (snapshot_of st rv dig) i = Inr m \<longleftrightarrow> m \<in> set (ts_members st) \<and> m_id m = i"
    and "i \<notin> m_id ` set (ts_members st) \<Longrightarrow> FindMemberById (snapshot_of st rv dig) i = Inl K_NOT_FOUND"
  using lookup_by_key [OF assms(1), where k = i and e = K_NOT_FOUND] assms(2)
  by (simp_all only: FindMemberById_def snapshot_of_def TopologySnapshot.select_convs simp_thms if_False)

lemma created_snapshot:
  assumes "Create re st rv dig = Inr s"
  obtains "s = snapshot_of (canonical st) rv dig" "valid_topology re (canonical st)"
    "sorted (map m_address (ts_members (canonical st)))" "sn_state s = canonical st"
proof -
  from assms have v: "valid_topology re st" and s: "s = snapshot_of (canonical st) rv dig"
    unfolding Create_Inr by blast+
  show ?thesis
    by (rule that [OF s valid_canonical [OF v]]) (simp_all add: s)
qed

text \<open>
  C26. Snapshot lookups are exact: in a created snapshot a member is found under an address or under a
  16-byte id exactly when it is a member of the validated state with that address or id, a missing key is
  reported as \<^verbatim>\<open>K_NOT_FOUND\<close>, and the committed token ring is sorted, has no duplicate token and consists
  exactly of the tokens of the committed members.
\<close>

theorem snapshot_lookup_exact:
  assumes "Create re st rv dig = Inr s"
  shows "(FindMemberByAddress s a = Inr m \<longleftrightarrow> m \<in> set (ts_members (sn_state s)) \<and> m_address m = a) \<and>
    (FindMemberByAddress s a = Inl K_NOT_FOUND \<longleftrightarrow> a \<notin> m_address ` set (ts_members (sn_state s))) \<and>
    (FindMemberById s i = Inr m \<longleftrightarrow> m \<in> set (ts_members (sn_state s)) \<and> m_id m = i) \<and>
    sorted (map fst (sn_committedTokenOwners s)) \<and> distinct (map fst (sn_committedTokenOwners s)) \<and>
    set (sn_committedTokenOwners s) =
      {(p, m). m \<in> set (ts_members (sn_state s)) \<and> IsCommittedMemberState (m_state m) \<and> p \<in> set (m_tokens m)}"
proof (intro conjI)
  obtain s: "s = snapshot_of (canonical st) rv dig" and v: "valid_topology re (canonical st)"
    and st: "sn_state s = canonical st"
    by (rule created_snapshot [OF assms])
  have d: "distinct (map m_address (ts_members (canonical st)))" "distinct (map m_id (ts_members (canonical st)))"
    "distinct (concat (map m_tokens (ts_members (canonical st))))"
    and len: "\<And>m. m \<in> set (ts_members (canonical st)) \<Longrightarrow> length (m_id m) = MEMBER_ID_SIZE"
    using v unfolding valid_topology_def valid_member_def by blast+
  show found: "FindMemberByAddress s a = Inr m \<longleftrightarrow> m \<in> set (ts_members (sn_state s)) \<and> m_address m = a" for m
    unfolding st unfolding s by (rule FindMemberByAddress_iff(1) [OF d(1)])
  show "FindMemberByAddress s a = Inl K_NOT_FOUND \<longleftrightarrow> a \<notin> m_address ` set (ts_members (sn_state s))"
  proof (cases "a \<in> m_address ` set (ts_members (sn_state s))")
    case True
    then obtain m' where "FindMemberByAddress s a = Inr m'" using found by blast
    with True show ?thesis by simp
  next
    case False
    then show ?thesis unfolding st unfolding s using FindMemberByAddress_iff(2) [OF d(1)] by blast
  qed
  show "FindMemberById s i = Inr m \<longleftrightarrow> m \<in> set (ts_members (sn_state s)) \<and> m_id m = i"
  proof (cases "length i = MEMBER_ID_SIZE")
    case True
    then show ?thesis unfolding st unfolding s by (rule FindMemberById_iff(1) [OF d(2)])
  next
    case False
    then have "FindMemberById s i = Inl K_INVALID" by (simp add: FindMemberById_def)
    with False len show ?thesis unfolding st by auto
  qed
  have "distinct (map fst (token_owners IsCommittedMemberState (ts_members (canonical st))))"
    unfolding map_fst_token_owners by (rule distinct_concat_filter [OF d(3)])
  then show "distinct (map fst (sn_committedTokenOwners s))"
    unfolding s by (simp add: snapshot_of_def distinct_map_sort_key)
  show "sorted (map fst (sn_committedTokenOwners s))" unfolding s by (simp add: snapshot_of_def)
  show "set (sn_committedTokenOwners s) =
      {(p, m). m \<in> set (ts_members (sn_state s)) \<and> IsCommittedMemberState (m_state m) \<and> p \<in> set (m_tokens m)}"
    unfolding st unfolding s by (auto simp: snapshot_of_def set_token_owners)
qed

section \<open>The next member in address order\<close>

definition cyclic_between :: "string \<Rightarrow> string \<Rightarrow> string \<Rightarrow> bool" where
  "cyclic_between a x b \<longleftrightarrow> (if a < b then a < x \<and> x < b else a < x \<or> x < b)"

lemma dropWhile_first:
  assumes "sorted (map f ms)" "dropWhile (\<lambda>m. \<not> a < f m) ms = m # r"
  shows "m \<in> set ms \<and> a < f m \<and> (\<forall>x \<in> set ms. a < f x \<longrightarrow> f m \<le> f x)"
  using assms by (induction ms) (auto split: if_splits)

lemma upper_member_spec:
  assumes "sorted (map m_address ms)" "ms \<noteq> []"
  shows "upper_member ms a \<in> set ms \<and> (\<forall>x \<in> set ms. \<not> cyclic_between a (m_address x) (m_address (upper_member ms a)))
    \<and> (m_address (upper_member ms a) = a \<longrightarrow> (\<forall>x \<in> set ms. m_address x = a))"
proof (cases "dropWhile (\<lambda>m. \<not> a < m_address m) ms")
  case Nil
  have none: "\<not> a < m_address x" if "x \<in> set ms" for x using Nil that by (auto simp: dropWhile_eq_Nil_conv)
  obtain y r where ms: "ms = y # r" using assms(2) by (cases ms) auto
  have up: "upper_member ms a = y" using Nil by (simp add: upper_member_def ms)
  have first: "m_address y \<le> m_address x" if "x \<in> set ms" for x using that assms(1) by (auto simp: ms)
  have "\<not> cyclic_between a (m_address x) (m_address y)" if "x \<in> set ms" for x
    using none [OF that] first [OF that] none [of y] by (simp add: cyclic_between_def ms)
  moreover have "m_address x = a" if "m_address y = a" "x \<in> set ms" for x
    using that none [OF that(2)] first [OF that(2)] by simp
  ultimately show ?thesis unfolding up by (simp add: ms)
next
  case (Cons m r)
  note f = dropWhile_first [OF assms(1) Cons]
  have up: "upper_member ms a = m" using Cons by (simp add: upper_member_def)
  have "\<not> cyclic_between a (m_address x) (m_address m)" if "x \<in> set ms" for x
    using f that by (auto simp: cyclic_between_def)
  then show ?thesis unfolding up using f by auto
qed

lemma sorted_map_filter: "sorted (map f xs) \<Longrightarrow> sorted (map f (filter P xs))"
  by (induction xs) auto

text \<open>
  The next active member: in a created snapshot \<^verbatim>\<open>FindNextActiveMember\<close> returns an \<^verbatim>\<open>ACTIVE\<close> member at
  another address such that no \<^verbatim>\<open>ACTIVE\<close> member lies strictly between in the cyclic order of addresses, and
  it answers \<^verbatim>\<open>K_NOT_FOUND\<close> only when no other address has an \<^verbatim>\<open>ACTIVE\<close> member.
\<close>

lemma next_active_exact:
  assumes "Create re st rv dig = Inr s"
  shows "case FindNextActiveMember s a of
      Inl e \<Rightarrow> e = K_NOT_FOUND \<and> (\<forall>x \<in> set (ts_members (sn_state s)). m_state x = ACTIVE \<longrightarrow> m_address x = a)
    | Inr m \<Rightarrow> m \<in> set (ts_members (sn_state s)) \<and> m_state m = ACTIVE \<and> m_address m \<noteq> a \<and>
        (\<forall>x \<in> set (ts_members (sn_state s)).
           m_state x = ACTIVE \<longrightarrow> \<not> cyclic_between a (m_address x) (m_address m))"
proof -
  obtain s: "s = snapshot_of (canonical st) rv dig"
    and sorted: "sorted (map m_address (ts_members (canonical st)))" and st: "sn_state s = canonical st"
    by (rule created_snapshot [OF assms])
  define act where "act = filter (\<lambda>m. m_state m = ACTIVE) (ts_members (sn_state s))"
  have act: "sn_activeMembers s = act" unfolding act_def st unfolding s by (simp add: snapshot_of_def)
  have srt: "sorted (map m_address act)" unfolding act_def st by (rule sorted_map_filter [OF sorted])
  have mem: "x \<in> set act \<longleftrightarrow> x \<in> set (ts_members (sn_state s)) \<and> m_state x = ACTIVE" for x by (auto simp: act_def)
  show ?thesis
  proof (cases "act = []")
    case True
    then have "FindNextActiveMember s a = Inl K_NOT_FOUND" by (simp add: FindNextActiveMember_def act)
    moreover have "\<not> (x \<in> set (ts_members (sn_state s)) \<and> m_state x = ACTIVE)" for x using mem [of x] True by simp
    ultimately show ?thesis by auto
  next
    case False
    note up = upper_member_spec [OF srt False, of a]
    show ?thesis
    proof (cases "m_address (upper_member act a) = a")
      case True
      then have "FindNextActiveMember s a = Inl K_NOT_FOUND" by (simp add: FindNextActiveMember_def act False Let_def)
      with True up mem show ?thesis by auto
    next
      case neq: False
      then have "FindNextActiveMember s a = Inr (upper_member act a)"
        by (simp add: FindNextActiveMember_def act False Let_def)
      with neq up mem show ?thesis by auto
    qed
  qed
qed

lemma FindExactMember_iff:
  assumes "Create re st rv dig = Inr s"
  shows "FindExactMember s x = Inr m \<longleftrightarrow> m \<in> set (ts_members (sn_state s)) \<and> m_identity m = x"
proof -
  obtain s: "s = snapshot_of (canonical st) rv dig" and v: "valid_topology re (canonical st)"
    and st: "sn_state s = canonical st"
    by (rule created_snapshot [OF assms])
  have d: "distinct (map m_address (ts_members (canonical st)))"
    and ok: "\<And>m. m \<in> set (ts_members (sn_state s)) \<Longrightarrow> valid_member re m"
    using v unfolding valid_topology_def st by blast+
  have find: "FindMemberByAddress s a = Inr m \<longleftrightarrow> m \<in> set (ts_members (sn_state s)) \<and> m_address m = a" for a m
    unfolding st unfolding s by (rule FindMemberByAddress_iff(1) [OF d])
  show ?thesis
  proof (cases "mi_id x = [] \<or> mi_address x = []")
    case True
    then have "\<not> (m \<in> set (ts_members (sn_state s)) \<and> m_identity m = x)"
      using ok [of m] by (auto simp: valid_member_def canonical_address_def MEMBER_ID_SIZE_def)
    with True show ?thesis by (simp add: FindExactMember_def)
  next
    case False
    then show ?thesis
    proof (cases "FindMemberByAddress s (mi_address x)")
      case (Inl e)
      then have "\<not> (m \<in> set (ts_members (sn_state s)) \<and> m_identity m = x)" using find [of "mi_address x" m] by auto
      with Inl False show ?thesis by (simp add: FindExactMember_def)
    next
      case (Inr c)
      have "m \<in> set (ts_members (sn_state s)) \<and> m_identity m = x \<longleftrightarrow> m = c \<and> m_identity c = x"
        using find [of "mi_address x" m] find [of "mi_address x" c] Inr by auto
      with Inr False show ?thesis by (auto simp: FindExactMember_def)
    qed
  qed
qed

text \<open>
  C27. The migration fence: a created snapshot admits a metadata migration exactly when the sender's topology
  version is positive and not newer than the snapshot, the epoch is that of the running batch, both
  participants are members with exactly the claimed identity, and their states fit the batch: from a
  committed member to a joining one in a scale-out, from a leaving member to an active or pre-leaving one
  in a scale-in. A sender that is ahead is told to retry.
\<close>

theorem migration_fence_exact:
  assumes "Create re st rv dig = Inr s"
  shows "(ValidateMigrationFence s f = Inr () \<longleftrightarrow>
      0 < mf_topologyVersion f \<and> mf_topologyVersion f \<le> ts_version (sn_state s) \<and>
      (\<exists>b src tgt. ts_activeBatch (sn_state s) = Some b \<and> ab_epoch b = mf_batchEpoch f \<and>
         src \<in> set (ts_members (sn_state s)) \<and> m_identity src = mf_source f \<and>
         tgt \<in> set (ts_members (sn_state s)) \<and> m_identity tgt = mf_target f \<and>
         (ab_type b = SCALE_OUT \<and> IsCommittedMemberState (m_state src) \<and> m_state tgt = JOINING \<or>
          ab_type b = SCALE_IN \<and> m_state src = LEAVING \<and> IsAdmittedScaleInMigrationTargetState (m_state tgt)))) \<and>
    (ValidateMigrationFence s f = Inl K_TRY_AGAIN \<longleftrightarrow> ts_version (sn_state s) < mf_topologyVersion f)"
proof -
  obtain v: "valid_topology re (canonical st)" and st: "sn_state s = canonical st"
    by (rule created_snapshot [OF assms])
  have epoch: "ab_epoch b \<noteq> 0" if "ts_activeBatch (sn_state s) = Some b" for b
    using v that unfolding st valid_topology_def batch_states_ok_def by auto
  note find = FindExactMember_iff [OF assms]
  have uniq: "x = y" if "x \<in> set (ts_members (sn_state s))" "y \<in> set (ts_members (sn_state s))"
    "m_identity x = m_identity y" for x y
    using that find [of "m_identity y" x] find [of "m_identity y" y] by simp
  have err: "FindExactMember s x = Inl e \<Longrightarrow> e = K_INVALID" for x e
    by (auto simp: FindExactMember_def split: if_splits sum.splits)
  have miss: "\<not> (m \<in> set (ts_members (sn_state s)) \<and> m_identity m = x)" if "FindExactMember s x = Inl e" for x e m
    using find [of x m] that by auto
  have hit: "m \<in> set (ts_members (sn_state s)) \<and> m_identity m = x" if "FindExactMember s x = Inr m" for x m
    using find [of x m] that by auto
  show ?thesis
  proof (cases "ts_version (sn_state s) < mf_topologyVersion f \<or> mf_topologyVersion f = 0 \<or> ts_activeBatch (sn_state s) = None")
    case True
    then show ?thesis by (auto simp: ValidateMigrationFence_def not_less word_gt_0)
  next
    case False
    then obtain b where b: "ts_activeBatch (sn_state s) = Some b" by auto
    have ver: "\<not> ts_version (sn_state s) < mf_topologyVersion f" "mf_topologyVersion f \<noteq> 0" using False by auto
    show ?thesis
    proof (cases "mf_batchEpoch f \<noteq> 0 \<and> ab_epoch b = mf_batchEpoch f")
      case bad: False
      then show ?thesis using epoch [OF b] b ver by (auto simp: ValidateMigrationFence_def)
    next
      case ep: True
      show ?thesis
      proof (cases "FindExactMember s (mf_source f)")
        case (Inl e)
        then show ?thesis using b ver ep err [OF Inl] miss [OF Inl] by (auto simp: ValidateMigrationFence_def)
      next
        case src: (Inr src)
        show ?thesis
        proof (cases "FindExactMember s (mf_target f)")
          case (Inl e)
          then show ?thesis using b ver ep src err [OF Inl] miss [OF Inl] by (auto simp: ValidateMigrationFence_def)
        next
          case tgt: (Inr tgt)
          have ne: "m_identity src \<noteq> m_identity tgt" if "m_state src = LEAVING" "IsAdmittedScaleInMigrationTargetState (m_state tgt)"
            using that uniq [of src tgt] hit [OF src] hit [OF tgt] by (auto simp: IsAdmittedScaleInMigrationTargetState_def)
          have only: "x = src" if "x \<in> set (ts_members (sn_state s))" "m_identity x = mf_source f" for x
            using uniq [of x src] that hit [OF src] by simp
          have only': "x = tgt" if "x \<in> set (ts_members (sn_state s))" "m_identity x = mf_target f" for x
            using uniq [of x tgt] that hit [OF tgt] by simp
          have "ValidateMigrationFence s f = Inr () \<longleftrightarrow>
              (ab_type b = SCALE_OUT \<and> IsCommittedMemberState (m_state src) \<and> m_state tgt = JOINING \<or>
               ab_type b = SCALE_IN \<and> m_state src = LEAVING \<and> IsAdmittedScaleInMigrationTargetState (m_state tgt))"
            "ValidateMigrationFence s f \<noteq> Inl K_TRY_AGAIN"
            using b ver ep src tgt ne by (auto simp: ValidateMigrationFence_def Let_def)
          then show ?thesis using b ver ep hit [OF src] hit [OF tgt] only only'
            by (auto simp: not_less word_gt_0)
        qed
      qed
    qed
  qed
qed

section \<open>A sample topology\<close>

definition sample_id :: "char \<Rightarrow> string" where
  "sample_id c = replicate 16 c"

definition sample_member :: "char \<Rightarrow> string \<Rightarrow> MemberState \<Rightarrow> 32 word list \<Rightarrow> Member" where
  "sample_member c a st toks =
     \<lparr> m_identity = \<lparr> mi_id = sample_id c, mi_address = a \<rparr>, m_state = st, m_tokens = toks \<rparr>"

definition sample_state :: TopologyState where
  "sample_state =
     \<lparr> ts_clusterHasInit = True, ts_version = 3,
       ts_members = [sample_member (CHR ''c'') ''10.0.0.3:80'' JOINING [30, 6],
                     sample_member (CHR ''a'') ''10.0.0.1:80'' ACTIVE [20, 10],
                     sample_member (CHR ''b'') ''10.0.0.2:80'' ACTIVE [25]],
       ts_activeBatch = Some \<lparr> ab_type = SCALE_OUT, ab_epoch = 2 \<rparr> \<rparr>"

abbreviation sample_snapshot :: "TopologySnapshot result" where
  "sample_snapshot \<equiv> Create re2_model sample_state 5 (replicate 64 (CHR ''a''))"

lemma sample_created: "sample_snapshot = Inr (snapshot_of (canonical sample_state) 5 (replicate 64 (CHR ''a'')))"
proof -
  have "isl (ValidateAndCanonicalizeTopologyState re2_model sample_state) = False" by code_simp
  then have "valid_topology re2_model sample_state" unfolding validate_eq by (simp split: if_splits)
  moreover have "IsSha256Hex (replicate 64 (CHR ''a''))" by code_simp
  ultimately show ?thesis unfolding Create_Inr by simp
qed

theorem snapshot_roundtrip_witness:
  "\<exists>s. sample_snapshot = Inr s \<and>
     Create re2_model (sn_state s) (sn_authorityRevision s) (sn_canonicalDigest s) = Inr s"
  using sample_created snapshot_roundtrip [OF sample_created] by blast

lemma sample_members:
  "ts_members (canonical sample_state) =
     [sample_member (CHR ''a'') ''10.0.0.1:80'' ACTIVE [10, 20], sample_member (CHR ''b'') ''10.0.0.2:80'' ACTIVE [25],
      sample_member (CHR ''c'') ''10.0.0.3:80'' JOINING [6, 30]]"
  by code_simp

theorem snapshot_lookup_exact_witness:
  "\<exists>s. sample_snapshot = Inr s \<and>
     FindMemberByAddress s ''10.0.0.3:80'' = Inr (sample_member (CHR ''c'') ''10.0.0.3:80'' JOINING [6, 30]) \<and>
     FindMemberByAddress s ''10.0.0.4:80'' = Inl K_NOT_FOUND"
proof -
  note e = snapshot_lookup_exact [OF sample_created]
  have "FindMemberByAddress (snapshot_of (canonical sample_state) 5 (replicate 64 (CHR ''a''))) ''10.0.0.3:80'' =
      Inr (sample_member (CHR ''c'') ''10.0.0.3:80'' JOINING [6, 30])"
    using e unfolding snapshot_of_simps sample_members by (simp add: sample_member_def)
  moreover have "FindMemberByAddress (snapshot_of (canonical sample_state) 5 (replicate 64 (CHR ''a''))) ''10.0.0.4:80'' =
      Inl K_NOT_FOUND"
    using e unfolding snapshot_of_simps sample_members by (simp add: sample_member_def)
  ultimately show ?thesis using sample_created by blast
qed

lemma next_active_exact_witness:
  "\<exists>s m. sample_snapshot = Inr s \<and> FindNextActiveMember s ''10.0.0.2:80'' = Inr m \<and> m_address m \<noteq> ''10.0.0.2:80''"
proof -
  let ?s = "snapshot_of (canonical sample_state) 5 (replicate 64 (CHR ''a''))"
  have "\<exists>m. FindNextActiveMember ?s ''10.0.0.2:80'' = Inr m \<and> m_address m \<noteq> ''10.0.0.2:80''"
    using next_active_exact [OF sample_created, of "''10.0.0.2:80''"]
    unfolding snapshot_of_simps sample_members by (auto simp: sample_member_def split: sum.splits)
  then show ?thesis using sample_created by blast
qed

theorem migration_fence_exact_witness:
  "\<exists>s. sample_snapshot = Inr s \<and>
     ValidateMigrationFence s \<lparr> mf_topologyVersion = 3, mf_batchEpoch = 2,
       mf_source = \<lparr> mi_id = sample_id (CHR ''a''), mi_address = ''10.0.0.1:80'' \<rparr>,
       mf_target = \<lparr> mi_id = sample_id (CHR ''c''), mi_address = ''10.0.0.3:80'' \<rparr> \<rparr> = Inr () \<and>
     ValidateMigrationFence s \<lparr> mf_topologyVersion = 4, mf_batchEpoch = 2,
       mf_source = \<lparr> mi_id = sample_id (CHR ''a''), mi_address = ''10.0.0.1:80'' \<rparr>,
       mf_target = \<lparr> mi_id = sample_id (CHR ''c''), mi_address = ''10.0.0.3:80'' \<rparr> \<rparr> = Inl K_TRY_AGAIN"
proof -
  have st: "ts_version (canonical sample_state) = 3" "ts_activeBatch (canonical sample_state) = Some \<lparr> ab_type = SCALE_OUT, ab_epoch = 2 \<rparr>"
    by (simp_all add: sample_state_def)
  show ?thesis
    using sample_created
      migration_fence_exact [OF sample_created, unfolded snapshot_of_simps sample_members st,
        of "\<lparr> mf_topologyVersion = 3, mf_batchEpoch = 2,
          mf_source = \<lparr> mi_id = sample_id (CHR ''a''), mi_address = ''10.0.0.1:80'' \<rparr>,
          mf_target = \<lparr> mi_id = sample_id (CHR ''c''), mi_address = ''10.0.0.3:80'' \<rparr> \<rparr>"]
      migration_fence_exact [OF sample_created, unfolded snapshot_of_simps sample_members st,
        of "\<lparr> mf_topologyVersion = 4, mf_batchEpoch = 2,
          mf_source = \<lparr> mi_id = sample_id (CHR ''a''), mi_address = ''10.0.0.1:80'' \<rparr>,
          mf_target = \<lparr> mi_id = sample_id (CHR ''c''), mi_address = ''10.0.0.3:80'' \<rparr> \<rparr>"]
    by (simp add: sample_member_def IsCommittedMemberState_def conj_disj_distribR ex_disj_distrib)
qed

end
