(* ===== verification/Murmur_Hash.thy ===== *)
theory Murmur_Hash
  imports Prelude
begin

text \<open>
  The 32-bit MurmurHash3 of \<^verbatim>\<open>common/util/hash_algorithm.cpp\<close>, on machine words. A buffer is the
  list of its bytes; the four bytes of a block are read in little-endian order, which is what the
  pointer cast of the source does on the little-endian targets the repository supports. The fault
  injection points compiled in under \<^verbatim>\<open>WITH_TESTS\<close> are left out.

  The lemmas show that the finaliser and every step of the body are injective, so that two keys of
  the same length that differ in one aligned block never hash to the same token.
\<close>

unbundle bit_operations_syntax

section \<open>The hash\<close>

definition C1 :: "32 word" where
  "C1 = 0xcc9e2d51"

definition C2 :: "32 word" where
  "C2 = 0x1b873593"

definition Rotl :: "32 word \<Rightarrow> nat \<Rightarrow> 32 word" where
  "Rotl val r = (if val = 0 then val else push_bit r val OR drop_bit (32 - r) val)"

definition Fmix :: "32 word \<Rightarrow> 32 word" where
  "Fmix val =
     (let val = val XOR drop_bit 16 val;
          val = val * 0x85ebca6b;
          val = val XOR drop_bit 13 val;
          val = val * 0xc2b2ae35;
          val = val XOR drop_bit 16 val
      in val)"

definition byte :: "char \<Rightarrow> 32 word" where
  "byte c = of_nat (of_char c)"

fun GetRemain :: "string \<Rightarrow> nat \<Rightarrow> 32 word \<Rightarrow> 32 word" where
  "GetRemain remain 0 k = k"
| "GetRemain remain (Suc index) k = GetRemain remain index (k XOR push_bit (index * 8) (byte (remain ! index)))"

definition load_block :: "string \<Rightarrow> 32 word" where
  "load_block bs =
     byte (bs ! 0) OR push_bit 8 (byte (bs ! 1)) OR push_bit 16 (byte (bs ! 2)) OR push_bit 24 (byte (bs ! 3))"

definition mix_k :: "32 word \<Rightarrow> 32 word" where
  "mix_k k = Rotl (k * C1) 15 * C2"

definition body_step :: "32 word \<Rightarrow> 32 word \<Rightarrow> 32 word" where
  "body_step result k = Rotl (result XOR mix_k k) 13 * 5 + 0xe6546b64"

fun body_loop :: "nat \<Rightarrow> string \<Rightarrow> 32 word \<Rightarrow> 32 word" where
  "body_loop 0 block result = result"
| "body_loop (Suc n) block result = body_loop n (drop 4 block) (body_step result (load_block block))"

definition MurmurHash3_32 :: "string option \<Rightarrow> 32 word \<Rightarrow> 32 word" where
  "MurmurHash3_32 data seed =
     (case data of
        None \<Rightarrow> 0
      | Some bytes \<Rightarrow>
          let len = length bytes;
              blockNum = len div 4;
              result = body_loop blockNum bytes seed;
              m = len mod 4;
              result = (if m \<noteq> 0 then result XOR mix_k (GetRemain (drop (4 * blockNum) bytes) m 0) else result);
              result = result XOR of_nat len
          in Fmix result)"

definition murmur :: "string \<Rightarrow> 32 word" where
  "murmur data = MurmurHash3_32 (Some data) 0"

section \<open>Every step is injective\<close>

lemma bit_word32: "bit (v :: 32 word) i \<Longrightarrow> i < 32"
  by (auto dest: bit_imp_le_length)

lemma bit_Rotl:
  assumes "r < 32" "i < 32"
  shows "bit (Rotl v r) i \<longleftrightarrow> (if i < r then bit v (i + (32 - r)) else bit v (i - r))"
proof (cases "v = 0")
  case False
  have "\<not> bit v (i + (32 - r))" if "r \<le> i"
    using that assms bit_word32 [of v "i + (32 - r)"] by auto
  then show ?thesis
    using False assms by (auto simp: Rotl_def bit_or_iff bit_push_bit_iff bit_drop_bit_eq add.commute)
qed (simp add: Rotl_def)

lemma word32_eqI: "(\<And>i. i < 32 \<Longrightarrow> bit x i = bit y i) \<Longrightarrow> x = (y :: 32 word)"
  by (rule bit_word_eqI) simp

lemma inj_Rotl:
  assumes "r < 32"
  shows "Rotl x r = Rotl y r \<longleftrightarrow> x = y"
proof
  assume eq: "Rotl x r = Rotl y r"
  show "x = y"
  proof (rule word32_eqI)
    fix i :: nat assume i: "i < 32"
    show "bit x i = bit y i"
    proof (cases "i + r < 32")
      case True
      then show ?thesis using bit_Rotl [OF assms True, of x] bit_Rotl [OF assms True, of y] eq by simp
    next
      case False
      then have j: "i + r - 32 < 32" "i + r - 32 < r" "i + r - 32 + (32 - r) = i" using i assms by auto
      then show ?thesis using bit_Rotl [OF assms j(1), of x] bit_Rotl [OF assms j(1), of y] eq by simp
    qed
  qed
qed simp

lemma inj_mult:
  fixes a b :: "32 word"
  assumes "b * a = 1"
  shows "x * a = y * a \<longleftrightarrow> x = y"
proof
  assume "x * a = y * a"
  then have "x * (b * a) = y * (b * a)" by (simp add: mult.left_commute)
  then show "x = y" using assms by simp
qed simp

lemma inj_C1: "x * C1 = y * C1 \<longleftrightarrow> x = y"
proof -
  have "0xdee13bb1 * C1 = 1" by (simp add: C1_def)
  then show ?thesis by (rule inj_mult)
qed

lemma inj_C2: "x * C2 = y * C2 \<longleftrightarrow> x = y"
proof -
  have "0x56ed309b * C2 = 1" by (simp add: C2_def)
  then show ?thesis by (rule inj_mult)
qed

lemma inj_5: "x * 5 = y * 5 \<longleftrightarrow> x = (y :: 32 word)"
proof -
  have "(0xcccccccd :: 32 word) * 5 = 1" by simp
  then show ?thesis by (rule inj_mult)
qed

lemma inj_avalanche:
  "x * 0x85ebca6b = y * 0x85ebca6b \<longleftrightarrow> x = (y :: 32 word)"
  "x * 0xc2b2ae35 = y * 0xc2b2ae35 \<longleftrightarrow> x = (y :: 32 word)"
proof -
  have "(0xa5cb9243 :: 32 word) * 0x85ebca6b = 1" by simp
  then show "x * 0x85ebca6b = y * 0x85ebca6b \<longleftrightarrow> x = y" by (rule inj_mult)
  have "(0x7ed1b41d :: 32 word) * 0xc2b2ae35 = 1" by simp
  then show "x * 0xc2b2ae35 = y * 0xc2b2ae35 \<longleftrightarrow> x = y" by (rule inj_mult)
qed

lemma inj_xor_shift:
  fixes x y :: "32 word"
  assumes "0 < n"
  shows "x XOR drop_bit n x = y XOR drop_bit n y \<longleftrightarrow> x = y"
proof
  assume eq: "x XOR drop_bit n x = y XOR drop_bit n y"
  have "bit x (32 - j) = bit y (32 - j)" if "j \<le> 32" for j
    using that
  proof (induction j rule: less_induct)
    case (less j)
    have "bit x (32 - j + n) = bit y (32 - j + n)"
    proof (cases "n < j")
      case True
      then show ?thesis using less.IH [of "j - n"] less.prems assms by (simp add: Nat.diff_diff_right)
    next
      case False
      then show ?thesis using bit_word32 [of x "32 - j + n"] bit_word32 [of y "32 - j + n"] less.prems by auto
    qed
    moreover have "bit (x XOR drop_bit n x) (32 - j) = bit (y XOR drop_bit n y) (32 - j)" using eq by simp
    ultimately show ?case by (auto simp: bit_xor_iff bit_drop_bit_eq add.commute)
  qed
  note bits = this
  show "x = y"
  proof (rule word32_eqI)
    fix i :: nat assume "i < 32"
    then show "bit x i = bit y i" using bits [of "32 - i"] by simp
  qed
qed simp

lemma inj_Fmix: "Fmix x = Fmix y \<longleftrightarrow> x = y"
  by (simp add: Fmix_def Let_def inj_xor_shift inj_avalanche)

lemma inj_xor: "(x :: 32 word) XOR a = y XOR a \<longleftrightarrow> x = y" "a XOR (x :: 32 word) = a XOR y \<longleftrightarrow> x = y"
proof -
  have *: "x = y" if "a XOR x = a XOR y" for x y :: "32 word"
  proof -
    from that have "a XOR (a XOR x) = a XOR (a XOR y)" by (rule arg_cong)
    then show ?thesis by (simp add: xor.assoc [symmetric])
  qed
  then show "x XOR a = y XOR a \<longleftrightarrow> x = y" "a XOR x = a XOR y \<longleftrightarrow> x = y" by (auto simp: xor.commute)
qed

lemma inj_mix_k: "mix_k x = mix_k y \<longleftrightarrow> x = y"
  by (simp add: mix_k_def inj_C1 inj_C2 inj_Rotl)

lemma inj_body_step: "body_step r x = body_step r y \<longleftrightarrow> x = y" "body_step r x = body_step s x \<longleftrightarrow> r = s"
  by (simp_all add: body_step_def inj_5 inj_Rotl inj_xor inj_mix_k)

lemma inj_body_loop: "body_loop n b x = body_loop n b y \<longleftrightarrow> x = y"
  by (induction n arbitrary: b x y) (simp_all add: inj_body_step)

section \<open>Blocks\<close>

lemma of_char_less: "of_char c < (256 :: nat)"
  using nat_of_char_less_256 [of c] by simp

lemma bit_byte: "bit (byte c) j \<Longrightarrow> j < 8"
proof -
  assume b: "bit (byte c) j"
  have "take_bit 8 (of_char c :: nat) = of_char c" using of_char_less [of c] by (simp add: take_bit_nat_eq_self)
  moreover have "bit (of_char c :: nat) j" using b by (auto simp: byte_def bit_of_nat_iff)
  ultimately have "bit (take_bit 8 (of_char c :: nat)) j" by simp
  then show "j < 8" by (simp add: bit_take_bit_iff)
qed

lemma inj_byte: "byte c = byte d \<longleftrightarrow> c = d"
proof
  assume "byte c = byte d"
  then have "(of_char c :: nat) = of_char d"
    using of_char_less [of c] of_char_less [of d] by (simp add: byte_def word_of_nat_eq_iff take_bit_nat_eq_self)
  then show "c = d" by simp
qed simp

lemma bit_load_block:
  assumes "i < 4" "j < 8"
  shows "bit (load_block bs) (8 * i + j) \<longleftrightarrow> bit (byte (bs ! i)) j"
proof -
  have no: "\<not> bit (byte c) (n + 8)" for c n using bit_byte [of c "n + 8"] by auto
  have shift: "bit (load_block bs) n \<longleftrightarrow> bit (byte (bs ! 0)) n \<or> 8 \<le> n \<and> bit (byte (bs ! 1)) (n - 8) \<or>
      16 \<le> n \<and> bit (byte (bs ! 2)) (n - 16) \<or> 24 \<le> n \<and> bit (byte (bs ! 3)) (n - 24)" if "n < 32" for n
    unfolding load_block_def bit_or_iff bit_push_bit_iff using that by simp
  have n: "8 * i + j < 32" using assms by simp
  consider "i = 0" | "i = 1" | "i = 2" | "i = 3" using assms(1) by linarith
  then show ?thesis
    using shift [OF n] assms(2) no [of "bs ! 0" "8 * (i - 1) + j"] no [of "bs ! 1" "8 * (i - 2) + j"]
      no [of "bs ! 2" "8 * (i - 3) + j"]
    by cases (simp_all add: add.commute)
qed

lemma inj_load_block:
  assumes "length x = 4" "length y = 4" "load_block x = load_block y"
  shows "x = y"
proof (rule nth_equalityI)
  fix i assume "i < length x"
  then have i: "i < 4" using assms(1) by simp
  have "byte (x ! i) = byte (y ! i)"
  proof (rule word32_eqI)
    fix j :: nat assume "j < 32"
    show "bit (byte (x ! i)) j = bit (byte (y ! i)) j"
    proof (cases "j < 8")
      case True
      then show ?thesis using bit_load_block [OF i True, of x] bit_load_block [OF i True, of y] assms(3) by simp
    next
      case False
      then show ?thesis using bit_byte by blast
    qed
  qed
  then show "x ! i = y ! i" by (simp add: inj_byte)
qed (use assms in simp)

lemma load_block_append: "length u = 4 \<Longrightarrow> load_block (u @ v) = load_block u"
  by (simp add: load_block_def nth_append)

lemma body_loop_add: "body_loop (m + n) b r = body_loop n (drop (4 * m) b) (body_loop m b r)"
  by (induction m arbitrary: b r) (simp_all add: add.commute)

lemma body_loop_append: "length u = 4 * m \<Longrightarrow> body_loop m (u @ v) r = body_loop m u r"
proof (induction m arbitrary: u r)
  case (Suc m)
  have "load_block (u @ v) = load_block u"
    using Suc.prems by (simp add: load_block_def nth_append)
  then show ?case using Suc.IH [of "drop 4 u"] Suc.prems by simp
qed simp

text \<open>
  C23. The key hash keeps apart keys that differ in one aligned block: replacing one four-byte block of
  a key, at an offset that is a multiple of four, by a different block always changes its 32-bit
  MurmurHash3 token, whatever precedes and follows the block.
\<close>

theorem murmur_block_change:
  assumes "4 dvd length u" "length x = 4" "length y = 4" "x \<noteq> y"
  shows "murmur (u @ x @ v) \<noteq> murmur (u @ y @ v)"
proof -
  obtain m where m: "length u = 4 * m" using assms(1) by (elim dvdE)
  define n where "n = length v div 4"
  have len: "length (u @ z @ v) div 4 = m + Suc n" "length (u @ z @ v) mod 4 = length v mod 4"
    "drop (4 * (m + Suc n)) (u @ z @ v) = drop (4 * n) v" "length (u @ z @ v) = 4 * m + 4 + length v"
    if "length z = 4" for z :: string
    using that m by (simp_all add: n_def)
  have body: "body_loop (m + Suc n) (u @ z @ v) 0 = body_loop n v (body_step (body_loop m u 0) (load_block z))"
    if "length z = 4" for z
    using that m unfolding body_loop_add by (simp add: body_loop_append load_block_append)
  have "load_block x \<noteq> load_block y" using inj_load_block assms(2-4) by blast
  then have "body_loop (m + Suc n) (u @ x @ v) 0 \<noteq> body_loop (m + Suc n) (u @ y @ v) 0"
    unfolding body [OF assms(2)] body [OF assms(3)] by (simp add: inj_body_loop inj_body_step)
  moreover have "murmur (u @ z @ v) =
      (let r = body_loop (m + Suc n) (u @ z @ v) 0
       in Fmix ((if length v mod 4 \<noteq> 0 then r XOR mix_k (GetRemain (drop (4 * n) v) (length v mod 4) 0) else r)
            XOR of_nat (4 * m + 4 + length v)))" if "length z = 4" for z
    unfolding murmur_def MurmurHash3_32_def option.case Let_def len(1-3) [OF that] by (simp only: len(4) [OF that])
  note this [OF assms(2)] this [OF assms(3)]
  ultimately show ?thesis unfolding Let_def by (cases "length v mod 4 = 0") (simp_all only: inj_Fmix inj_xor simp_thms if_True if_False)
qed

theorem murmur_block_change_witness:
  "murmur (''10.0'' @ ''.0.1'' @ '':80'') \<noteq> murmur (''10.0'' @ ''.0.2'' @ '':80'')"
  by (rule murmur_block_change) (simp_all add: numeral_eq_Suc)

lemma murmur_vectors: "murmur [] = 0" "murmur ''hello'' = 0x248bfa47" "MurmurHash3_32 None s = 0"
  by code_simp+

end
