(* ===== verification/Hash_Ring.thy ===== *)
theory Hash_Ring
  imports Topology_Snapshot Murmur_Hash "HOL-Library.Product_Lexorder"
begin

text \<open>
  The consistent-hashing algorithm of \<^verbatim>\<open>cluster/algorithm/hash_algorithm.cpp\<close>: token generation, the
  token rings, owner lookup, the difference of two rings as ranges that change owner, and the plans for
  bootstrap, scale-out, scale-in and failure.

  A ring is a list of token owners in token order. \<^verbatim>\<open>std::lower_bound\<close> on it is the first element whose
  token is not smaller. The sets of occupied tokens and seen names are lists, the hash map of allocated
  tokens is a partial function, and the ordered map of grouped changes is the ordered association list of
  the prelude, keyed by the pair of source and target address.
\<close>

section \<open>Identities\<close>

definition MAX_TOKEN_PROBES :: nat where
  "MAX_TOKEN_PROBES = 1024"

definition MAX_TOKENS_PER_MEMBER :: nat where
  "MAX_TOKENS_PER_MEMBER = 4096"

definition UUID_SIZE :: nat where
  "UUID_SIZE = 16"

record TokenOwner =
  to_token :: "32 word"
  to_identity :: MemberIdentity

fun identity_loop :: "re2 \<Rightarrow> MemberIdentity list \<Rightarrow> string list \<Rightarrow> string list \<Rightarrow> unit result" where
  "identity_loop re [] ids addresses = Inr ()"
| "identity_loop re (identity # rest) ids addresses =
     (if \<not> (length (mi_id identity) = UUID_SIZE \<and> mi_address identity \<noteq> []
            \<and> length (mi_address identity) \<le> MAX_MEMBER_ADDRESS_BYTES) then Inl K_INVALID
      else if \<not> (case HostPort_ParseString re HostPort_default (mi_address identity) of
                   Inl _ \<Rightarrow> False
                 | Inr endpoint \<Rightarrow> HostPort_ToString endpoint = mi_address identity) then Inl K_INVALID
      else if \<not> (mi_id identity \<notin> set ids \<and> mi_address identity \<notin> set addresses) then Inl K_INVALID
      else identity_loop re rest (mi_id identity # ids) (mi_address identity # addresses))"

definition ValidateIdentities :: "re2 \<Rightarrow> MemberIdentity list \<Rightarrow> unit result" where
  "ValidateIdentities re identities = identity_loop re identities [] []"

fun ValidateSelectedMembers :: "TopologyState \<Rightarrow> MemberIdentity list \<Rightarrow> unit result" where
  "ValidateSelectedMembers current [] = Inr ()"
| "ValidateSelectedMembers current (identity # rest) =
     (if (case find (\<lambda>m. m_address m = mi_address identity) (ts_members current) of
            None \<Rightarrow> False
          | Some m \<Rightarrow> m_identity m = identity \<and> IsCommittedMemberState (m_state m))
      then ValidateSelectedMembers current rest
      else Inl K_INVALID)"

section \<open>Tokens\<close>

definition MakeToken :: "string \<Rightarrow> nat \<Rightarrow> nat \<Rightarrow> 32 word" where
  "MakeToken address index probe =
     (let seed = address @ ''#'' @ to_string index;
          seed = (if probe > 0 then seed @ ''#'' @ to_string probe else seed)
      in murmur seed)"

fun probe_loop :: "string \<Rightarrow> nat \<Rightarrow> nat \<Rightarrow> nat \<Rightarrow> 32 word list \<Rightarrow> 32 word option" where
  "probe_loop address index probe 0 occupied = None"
| "probe_loop address index probe (Suc left) occupied =
     (let token = MakeToken address index probe
      in if token \<notin> set occupied then Some token
         else probe_loop address index (probe + 1) left occupied)"

fun token_loop :: "string \<Rightarrow> nat \<Rightarrow> nat \<Rightarrow> 32 word list \<Rightarrow> 32 word list \<Rightarrow> (32 word list \<times> 32 word list) result" where
  "token_loop address index 0 occupied tokens = Inr (tokens, occupied)"
| "token_loop address index (Suc left) occupied tokens =
     (case probe_loop address index 0 MAX_TOKEN_PROBES occupied of
        None \<Rightarrow> Inl K_INVALID
      | Some token \<Rightarrow> token_loop address (index + 1) left (token # occupied) (tokens @ [token]))"

definition GenerateTokens :: "MemberIdentity \<Rightarrow> nat \<Rightarrow> 32 word list \<Rightarrow> (32 word list \<times> 32 word list) result" where
  "GenerateTokens identity cnt occupied =
     (case token_loop (mi_address identity) 0 cnt occupied [] of
        Inl e \<Rightarrow> Inl e
      | Inr (tokens, occupied') \<Rightarrow> Inr (sort tokens, occupied'))"

section \<open>Rings\<close>

definition eligible_owner :: "bool \<Rightarrow> string list \<Rightarrow> bool \<Rightarrow> Member \<Rightarrow> bool" where
  "eligible_owner includeJoining excluded activeOnly member \<longleftrightarrow>
     (if activeOnly then m_state member = ACTIVE
      else IsCommittedMemberState (m_state member) \<or> (includeJoining \<and> m_state member = JOINING))
     \<and> m_address member \<notin> set excluded"

definition BuildOwners :: "Member list \<Rightarrow> bool \<Rightarrow> string list \<Rightarrow> bool \<Rightarrow> TokenOwner list result" where
  "BuildOwners members includeJoining excluded activeOnly =
     (let owners = concat (map (\<lambda>member. map (\<lambda>p. \<lparr> to_token = p, to_identity = m_identity member \<rparr>) (m_tokens member))
                     (filter (eligible_owner includeJoining excluded activeOnly) members))
      in if owners = [] then Inl K_NOT_READY else Inr (sort_key to_token owners))"

definition FindOwner :: "TokenOwner list \<Rightarrow> 32 word \<Rightarrow> TokenOwner" where
  "FindOwner owners token =
     (case dropWhile (\<lambda>owner. to_token owner < token) owners of [] \<Rightarrow> hd owners | owner # _ \<Rightarrow> owner)"

definition LocateIndexedOwner :: "(32 word \<times> Member) list \<Rightarrow> 32 word \<Rightarrow> Member result" where
  "LocateIndexedOwner owners token =
     (if owners = [] then Inl K_NOT_READY
      else case dropWhile (\<lambda>entry. fst entry < token) owners of
             [] \<Rightarrow> Inr (snd (hd owners))
           | entry # _ \<Rightarrow> Inr (snd entry))"

definition Hash :: "string \<Rightarrow> 32 word" where
  "Hash placementKey = MurmurHash3_32 (Some placementKey) 0"

definition LocateOwner :: "TopologySnapshot \<Rightarrow> 32 word \<Rightarrow> Member result" where
  "LocateOwner snapshot token = LocateIndexedOwner (sn_committedTokenOwners snapshot) token"

definition LocateProspectiveOwner :: "TopologySnapshot \<Rightarrow> 32 word \<Rightarrow> Member result" where
  "LocateProspectiveOwner snapshot token =
     LocateIndexedOwner
       (if sn_prospectiveTokenOwners snapshot = [] then sn_committedTokenOwners snapshot
        else sn_prospectiveTokenOwners snapshot) token"

section \<open>The difference of two rings\<close>

definition AppendRange :: "TokenRange list \<Rightarrow> 32 word \<Rightarrow> 32 word \<Rightarrow> TokenRange list" where
  "AppendRange ranges from to =
     (if ranges \<noteq> [] \<and> tr_end (last ranges) \<noteq> - 1 \<and> tr_end (last ranges) + 1 = from
      then butlast ranges @ [(last ranges) \<lparr> tr_end := to \<rparr>]
      else ranges @ [\<lparr> tr_from = from, tr_end = to \<rparr>])"

definition ring_boundaries :: "TokenOwner list \<Rightarrow> 32 word list" where
  "ring_boundaries owners = map (\<lambda>w. to_token w + 1) (filter (\<lambda>w. to_token w \<noteq> - 1) owners)"

definition diff_boundaries :: "TokenOwner list \<Rightarrow> TokenOwner list \<Rightarrow> 32 word list" where
  "diff_boundaries fromOwners toOwners =
     remdups_adj (sort (0 # ring_boundaries fromOwners @ ring_boundaries toOwners))"

type_synonym grouped = "(string \<times> string, TopologyOwnerChange) omap"

definition group_change :: "MemberIdentity \<Rightarrow> MemberIdentity \<Rightarrow> 32 word \<Rightarrow> 32 word \<Rightarrow> grouped \<Rightarrow> grouped" where
  "group_change source target from to grouped =
     (let key = (mi_address source, mi_address target);
          ranges = (case map_of grouped key of None \<Rightarrow> [] | Some change \<Rightarrow> oc_ranges change)
      in om_put key \<lparr> oc_source = Some source, oc_target = target, oc_ranges = AppendRange ranges from to \<rparr> grouped)"

fun diff_loop :: "TokenOwner list \<Rightarrow> TokenOwner list \<Rightarrow> 32 word list \<Rightarrow> grouped \<Rightarrow> grouped" where
  "diff_loop fromOwners toOwners [] grouped = grouped"
| "diff_loop fromOwners toOwners (from # rest) grouped =
     (let to = (case rest of [] \<Rightarrow> - 1 | b # _ \<Rightarrow> b - 1);
          source = to_identity (FindOwner fromOwners from);
          target = to_identity (FindOwner toOwners from)
      in if source = target then diff_loop fromOwners toOwners rest grouped
         else diff_loop fromOwners toOwners rest (group_change source target from to grouped))"

definition DiffOwners :: "TokenOwner list \<Rightarrow> TokenOwner list \<Rightarrow> TopologyOwnerChange list" where
  "DiffOwners fromOwners toOwners =
     map snd (diff_loop fromOwners toOwners (diff_boundaries fromOwners toOwners) [])"

section \<open>Plans\<close>

record ScaleOutPlanInput =
  so_current :: TopologyState
  so_joining :: "MemberIdentity list"
  so_tokensPerMember :: nat

record ScaleInPlanInput =
  si_current :: TopologyState
  si_leaving :: "MemberIdentity list"

record FailurePlanInput =
  fp_current :: TopologyState
  fp_failed :: "MemberIdentity list"

fun allocate_loop ::
  "nat \<Rightarrow> MemberIdentity list \<Rightarrow> 32 word list \<Rightarrow> (string \<rightharpoonup> 32 word list) \<Rightarrow> (string \<rightharpoonup> 32 word list) result" where
  "allocate_loop tokensPerMember [] occupied allocated = Inr allocated"
| "allocate_loop tokensPerMember (identity # rest) occupied allocated =
     (case GenerateTokens identity tokensPerMember occupied of
        Inl e \<Rightarrow> Inl e
      | Inr (tokens, occupied') \<Rightarrow>
          allocate_loop tokensPerMember rest occupied' (allocated(mi_address identity \<mapsto> tokens)))"

definition AllocateTokens :: "re2 \<Rightarrow> MemberIdentity list \<Rightarrow> nat \<Rightarrow> (string \<rightharpoonup> 32 word list) result" where
  "AllocateTokens re members tokensPerMember =
     (if \<not> (tokensPerMember > 0 \<and> tokensPerMember \<le> MAX_TOKENS_PER_MEMBER) then Inl K_INVALID
      else case ValidateIdentities re members of
             Inl e \<Rightarrow> Inl e
           | Inr _ \<Rightarrow> allocate_loop tokensPerMember (sort_key mi_address members) [] Map.empty)"

definition BuildInitialPlacement :: "re2 \<Rightarrow> ScaleOutPlanInput \<Rightarrow> TopologyPlan result" where
  "BuildInitialPlacement re input =
     (if \<not> (ts_members (so_current input) = [] \<and> so_joining input \<noteq> []) then Inl K_INVALID
      else case AllocateTokens re (so_joining input) (so_tokensPerMember input) of
             Inl e \<Rightarrow> Inl e
           | Inr tokens \<Rightarrow>
               let joined = map (\<lambda>identity. \<lparr> m_identity = identity, m_state = ACTIVE,
                       m_tokens = (case tokens (mi_address identity) of None \<Rightarrow> [] | Some ts \<Rightarrow> ts) \<rparr>)
                     (sort_key mi_address (so_joining input))
               in Inr \<lparr> tp_next = (so_current input) \<lparr> ts_clusterHasInit := True,
                          ts_members := ts_members (so_current input) @ joined \<rparr>,
                        tp_ownerChanges = [] \<rparr>)"

fun validate_loop :: "Member list \<Rightarrow> string list \<Rightarrow> string list \<Rightarrow> 32 word list \<Rightarrow> bool \<Rightarrow> bool result" where
  "validate_loop [] ids addresses tokens hasCommitted = Inr hasCommitted"
| "validate_loop (m # ms) ids addresses tokens hasCommitted =
     (if \<not> (length (m_id m) = UUID_SIZE \<and> m_address m \<noteq> []) then Inl K_INVALID
      else if \<not> (m_id m \<notin> set ids \<and> m_address m \<notin> set addresses) then Inl K_INVALID
      else case emplace_tokens (m_tokens m) tokens of
             Inl e \<Rightarrow> Inl e
           | Inr tokens' \<Rightarrow>
               validate_loop ms (m_id m # ids) (m_address m # addresses) tokens'
                 (hasCommitted \<or> IsCommittedMemberState (m_state m)))"

definition Validate :: "TopologyState \<Rightarrow> unit result" where
  "Validate state =
     (case validate_loop (ts_members state) [] [] [] False of
        Inl e \<Rightarrow> Inl e
      | Inr hasCommitted \<Rightarrow> if ts_members state = [] \<or> hasCommitted then Inr () else Inl K_INVALID)"

fun join_loop :: "nat \<Rightarrow> MemberIdentity list \<Rightarrow> Member list \<Rightarrow> 32 word list \<Rightarrow> Member list result" where
  "join_loop tokensPerMember [] members occupied = Inr members"
| "join_loop tokensPerMember (identity # rest) members occupied =
     (case find (\<lambda>m. m_address m = mi_address identity) members of
        Some m \<Rightarrow>
          if m_identity m = identity \<and> m_state m = JOINING then join_loop tokensPerMember rest members occupied
          else Inl K_INVALID
      | None \<Rightarrow>
          if \<not> list_all (\<lambda>m. m_id m \<noteq> mi_id identity) members then Inl K_INVALID
          else case GenerateTokens identity tokensPerMember occupied of
                 Inl e \<Rightarrow> Inl e
               | Inr (memberTokens, occupied') \<Rightarrow>
                   join_loop tokensPerMember rest
                     (members @ [\<lparr> m_identity = identity, m_state = JOINING, m_tokens = memberTokens \<rparr>]) occupied')"

definition PlanScaleOut :: "re2 \<Rightarrow> ScaleOutPlanInput \<Rightarrow> TopologyPlan result" where
  "PlanScaleOut re input =
     (case Validate (so_current input) of
        Inl e \<Rightarrow> Inl e
      | Inr _ \<Rightarrow>
      (case ValidateIdentities re (so_joining input) of
        Inl e \<Rightarrow> Inl e
      | Inr _ \<Rightarrow>
        if \<not> (so_joining input \<noteq> [] \<and> so_tokensPerMember input > 0 \<and> so_tokensPerMember input \<le> MAX_TOKENS_PER_MEMBER)
        then Inl K_INVALID
        else
      (case join_loop (so_tokensPerMember input) (sort_key mi_address (so_joining input))
              (ts_members (so_current input)) (concat (map m_tokens (ts_members (so_current input)))) of
        Inl e \<Rightarrow> Inl e
      | Inr members \<Rightarrow>
      (case BuildOwners (ts_members (so_current input)) False [] False of
        Inl e \<Rightarrow> Inl e
      | Inr fromOwners \<Rightarrow>
      (case BuildOwners members True [] False of
        Inl e \<Rightarrow> Inl e
      | Inr toOwners \<Rightarrow>
          Inr \<lparr> tp_next = (so_current input) \<lparr> ts_members := members \<rparr>,
                tp_ownerChanges = DiffOwners fromOwners toOwners \<rparr>)))))"

definition set_member_state :: "string list \<Rightarrow> MemberState \<Rightarrow> Member \<Rightarrow> Member" where
  "set_member_state excluded st m = (if m_address m \<in> set excluded then m \<lparr> m_state := st \<rparr> else m)"

definition PlanScaleIn :: "re2 \<Rightarrow> ScaleInPlanInput \<Rightarrow> TopologyPlan result" where
  "PlanScaleIn re input =
     (case Validate (si_current input) of
        Inl e \<Rightarrow> Inl e
      | Inr _ \<Rightarrow>
      (case ValidateIdentities re (si_leaving input) of
        Inl e \<Rightarrow> Inl e
      | Inr _ \<Rightarrow>
      (case ValidateSelectedMembers (si_current input) (si_leaving input) of
        Inl e \<Rightarrow> Inl e
      | Inr _ \<Rightarrow>
        if si_leaving input = [] then Inl K_INVALID
        else
        let excluded = map mi_address (si_leaving input);
            members = ts_members (si_current input)
        in
      (case BuildOwners members False [] False of
        Inl e \<Rightarrow> Inl e
      | Inr fromOwners \<Rightarrow>
      (case BuildOwners members False excluded False of
        Inl e \<Rightarrow> Inl e
      | Inr toOwners \<Rightarrow>
          Inr \<lparr> tp_next = (si_current input) \<lparr> ts_members := map (set_member_state excluded PRE_LEAVING) members \<rparr>,
                tp_ownerChanges = DiffOwners fromOwners toOwners \<rparr>)))))"

definition PlanFailure :: "re2 \<Rightarrow> FailurePlanInput \<Rightarrow> TopologyPlan result" where
  "PlanFailure re input =
     (case Validate (fp_current input) of
        Inl e \<Rightarrow> Inl e
      | Inr _ \<Rightarrow>
      (case ValidateIdentities re (fp_failed input) of
        Inl e \<Rightarrow> Inl e
      | Inr _ \<Rightarrow>
      (case ValidateSelectedMembers (fp_current input) (fp_failed input) of
        Inl e \<Rightarrow> Inl e
      | Inr _ \<Rightarrow>
        if fp_failed input = [] then Inl K_INVALID
        else
        let excluded = map mi_address (fp_failed input);
            members = ts_members (fp_current input)
        in
      (case BuildOwners members False [] False of
        Inl e \<Rightarrow> Inl e
      | Inr fromOwners \<Rightarrow>
      (case BuildOwners members False excluded True of
        Inl e \<Rightarrow> Inl e
      | Inr toOwners \<Rightarrow>
          Inr \<lparr> tp_next = (fp_current input) \<lparr> ts_members := map (set_member_state excluded FAILED) members \<rparr>,
                tp_ownerChanges =
                  filter (\<lambda>change. \<not> (case oc_source change of
                                        None \<Rightarrow> True
                                      | Some source \<Rightarrow> mi_address source \<notin> set excluded))
                    (DiffOwners fromOwners toOwners) \<rparr>)))))"

section \<open>The owner of a token is its successor on the ring\<close>

definition ring_ok :: "TokenOwner list \<Rightarrow> bool" where
  "ring_ok owners \<longleftrightarrow> owners \<noteq> [] \<and> sorted_wrt (<) (map to_token owners)"

definition successor :: "TokenOwner set \<Rightarrow> 32 word \<Rightarrow> TokenOwner \<Rightarrow> bool" where
  "successor owners t w \<longleftrightarrow> w \<in> owners \<and> (\<forall>x \<in> owners. to_token w - t \<le> to_token x - t)"

lemma unat_minus32: "unat (x - y :: 32 word) = (if y \<le> x then unat x - unat y else unat x + 2 ^ 32 - unat y)"
  using unat_sub_if' [of x y] by (simp add: word_le_nat_alt)

lemma ring_distance:
  fixes t x y :: "32 word"
  shows "t \<le> x \<Longrightarrow> x \<le> y \<Longrightarrow> x - t \<le> y - t" "t \<le> x \<Longrightarrow> y < t \<Longrightarrow> x - t \<le> y - t"
    "y < t \<Longrightarrow> x \<le> y \<Longrightarrow> x - t \<le> y - t"
proof -
  have lt: "unat z < 2 ^ 32" for z :: "32 word"
  proof -
    have "unat z < 2 ^ LENGTH(32)" by (rule unsigned_less)
    then show ?thesis by simp
  qed
  show "t \<le> x \<Longrightarrow> x \<le> y \<Longrightarrow> x - t \<le> y - t" "t \<le> x \<Longrightarrow> y < t \<Longrightarrow> x - t \<le> y - t"
    "y < t \<Longrightarrow> x \<le> y \<Longrightarrow> x - t \<le> y - t"
    using lt [of x] lt [of y] lt [of t]
    by (simp_all add: word_le_nat_alt [of "_ - _"] unat_minus32 word_le_nat_alt word_less_nat_alt)
qed

lemma dropWhile_less_first:
  fixes f :: "'a \<Rightarrow> 'b :: linorder"
  assumes "sorted_wrt (<) (map f ws)" "dropWhile (\<lambda>w. f w < t) ws = w # r"
  shows "w \<in> set ws \<and> t \<le> f w \<and> (\<forall>x \<in> set ws. f x < t \<or> f w \<le> f x)"
  using assms by (induction ws) (auto split: if_splits intro: less_imp_le)

lemma FindOwner_successor:
  assumes "ring_ok owners"
  shows "successor (set owners) t (FindOwner owners t)"
proof (cases "dropWhile (\<lambda>w. to_token w < t) owners")
  case Nil
  have all: "to_token x < t" if "x \<in> set owners" for x using Nil that by (auto simp: dropWhile_eq_Nil_conv)
  obtain y r where ys: "owners = y # r" using assms by (cases owners) (auto simp: ring_ok_def)
  have "to_token y \<le> to_token x" if "x \<in> set owners" for x
    using that assms by (auto simp: ring_ok_def ys intro: less_imp_le)
  then have "to_token y - t \<le> to_token x - t" if "x \<in> set owners" for x
    using ring_distance(3) all that by blast
  then show ?thesis using Nil by (simp add: FindOwner_def successor_def ys)
next
  case (Cons w r)
  have "sorted_wrt (<) (map to_token owners)" using assms by (simp add: ring_ok_def)
  note f = dropWhile_less_first [OF this Cons]
  have "to_token w - t \<le> to_token x - t" if "x \<in> set owners" for x
    using f that ring_distance(1,2) [of t "to_token w"] by blast
  then show ?thesis using f Cons by (simp add: FindOwner_def successor_def)
qed

lemma ring_ok_inj: "ring_ok owners \<Longrightarrow> inj_on to_token (set owners)"
  by (auto simp: ring_ok_def strict_sorted_iff distinct_map)

lemma successor_unique:
  assumes "inj_on to_token A" "successor A t v" "successor A t w"
  shows "v = w"
proof -
  have "to_token v - t \<le> to_token w - t" "to_token w - t \<le> to_token v - t"
    using assms(2,3) by (auto simp: successor_def)
  then have "to_token v - t = to_token w - t" by (rule antisym)
  then have "to_token v = to_token w" by simp
  then show ?thesis using assms by (auto simp: successor_def dest: inj_onD)
qed

lemma FindOwner_eqI:
  assumes "ring_ok owners" "successor (set owners) t w"
  shows "FindOwner owners t = w"
  using successor_unique [OF ring_ok_inj [OF assms(1)] FindOwner_successor [OF assms(1)] assms(2)] .

lemma successor_subset: "successor B t w \<Longrightarrow> A \<subseteq> B \<Longrightarrow> w \<in> A \<Longrightarrow> successor A t w"
  by (auto simp: successor_def)

section \<open>Segments between boundaries\<close>

fun segs :: "32 word list \<Rightarrow> (32 word \<times> 32 word) list" where
  "segs [] = []"
| "segs (b # rest) = (b, case rest of [] \<Rightarrow> - 1 | c # _ \<Rightarrow> c - 1) # segs rest"

definition seg_ok :: "(32 word \<times> 32 word) list \<Rightarrow> bool" where
  "seg_ok ss \<longleftrightarrow> (\<forall>(a, e) \<in> set ss. a \<le> e) \<and> sorted_wrt (\<lambda>p q. snd p < fst q) ss"

lemma word_pred: "(b :: 32 word) < c \<Longrightarrow> b \<le> c - 1 \<and> c - 1 < c"
proof -
  assume "b < c"
  then have "unat c \<noteq> 0" "unat b < unat c" by (auto simp: word_less_nat_alt)
  then have "unat (c - 1) = unat c - 1" by (auto simp: unat_minus32 word_le_nat_alt)
  with \<open>unat b < unat c\<close> show ?thesis by (simp add: word_le_nat_alt word_less_nat_alt)
qed

lemma segs_fst: "p \<in> set (segs bs) \<Longrightarrow> fst p \<in> set bs"
  by (induction bs) auto

lemma segs_ok: "sorted_wrt (<) bs \<Longrightarrow> seg_ok (segs bs)"
proof (induction bs)
  case (Cons b bs)
  show ?case
  proof (cases bs)
    case Nil
    then show ?thesis by (simp add: seg_ok_def)
  next
    case (Cons c cs)
    have "b < c" using Cons.prems \<open>bs = c # cs\<close> by simp
    note p = word_pred [OF this]
    have "c - 1 < fst q" if "q \<in> set (segs bs)" for q
      using segs_fst [OF that] p Cons.prems \<open>bs = c # cs\<close> by auto
    with Cons.IH Cons.prems p \<open>bs = c # cs\<close> show ?thesis by (auto simp: seg_ok_def)
  qed
qed (simp add: seg_ok_def)

lemma segs_gap:
  assumes "sorted_wrt (<) bs" "(a, e) \<in> set (segs bs)" "b \<in> set bs"
  shows "b \<le> a \<or> e < b"
  using assms
proof (induction bs)
  case (Cons d bs)
  then show ?case
  proof (cases "(a, e) = hd (segs (d # bs))")
    case True
    then have a: "a = d" by simp
    show ?thesis
    proof (cases bs)
      case Nil
      then show ?thesis using Cons.prems a by simp
    next
      case (Cons c cs)
      then have e: "e = c - 1" using True by simp
      have "d < c" using Cons.prems \<open>bs = c # cs\<close> by simp
      then have "c - 1 < c" using word_pred by blast
      then have "e < x" if "x \<in> set bs" for x using that Cons.prems \<open>bs = c # cs\<close> e by auto
      then show ?thesis using Cons.prems a by auto
    qed
  next
    case False
    then have m: "(a, e) \<in> set (segs bs)" using Cons.prems by auto
    then have "d < a" using segs_fst [OF m] Cons.prems by auto
    with Cons m show ?thesis by auto
  qed
qed simp

lemma segs_cover: "sorted_wrt (<) bs \<Longrightarrow> bs \<noteq> [] \<Longrightarrow> hd bs \<le> t \<Longrightarrow> \<exists>(a, e) \<in> set (segs bs). a \<le> t \<and> t \<le> e"
proof (induction bs)
  case (Cons b bs)
  show ?case
  proof (cases bs)
    case Nil
    then show ?thesis using Cons.prems by simp
  next
    case (Cons c cs)
    show ?thesis
    proof (cases "c \<le> t")
      case True
      then show ?thesis using Cons.IH Cons.prems \<open>bs = c # cs\<close> by auto
    next
      case False
      then have "t < c" by simp
      then have "t \<le> c - 1" using word_pred by blast
      then show ?thesis using Cons.prems \<open>bs = c # cs\<close> by auto
    qed
  qed
qed simp

section \<open>Ranges\<close>

definition ranges_ok :: "TokenRange list \<Rightarrow> bool" where
  "ranges_ok rs \<longleftrightarrow>
     (\<forall>r \<in> set rs. tr_from r \<le> tr_end r) \<and>
     sorted_wrt (\<lambda>r s. tr_end r < tr_from s \<and> tr_end r + 1 \<noteq> tr_from s) rs"

definition append_ranges :: "(32 word \<times> 32 word) list \<Rightarrow> TokenRange list" where
  "append_ranges ss = foldl (\<lambda>rs p. AppendRange rs (fst p) (snd p)) [] ss"

lemma append_ranges_snoc: "append_ranges (ss @ [p]) = AppendRange (append_ranges ss) (fst p) (snd p)"
  by (simp add: append_ranges_def)

lemma ranges_ok_append:
  "ranges_ok (rs @ [r]) \<longleftrightarrow> ranges_ok rs \<and> tr_from r \<le> tr_end r \<and>
     (\<forall>q \<in> set rs. tr_end q < tr_from r \<and> tr_end q + 1 \<noteq> tr_from r)"
  by (auto simp: ranges_ok_def sorted_wrt_append)

lemma word_succ: "(e :: 32 word) \<noteq> - 1 \<Longrightarrow> e < e + 1 \<and> (t < e + 1 \<longleftrightarrow> t \<le> e) \<and> (e + 1 \<le> t \<longleftrightarrow> e < t)"
proof -
  assume ne: "e \<noteq> - 1"
  then have "unat (e + 1) = Suc (unat e)"
    by (metis add.inverse_inverse add_eq_0_iff unatSuc word_succ_p1 add.commute)
  then show ?thesis by (auto simp: word_less_nat_alt word_le_nat_alt)
qed

lemma AppendRange_step:
  assumes "ranges_ok rs" "a \<le> e" "rs \<noteq> [] \<Longrightarrow> tr_end (last rs) < a"
  shows "ranges_ok (AppendRange rs a e)" "AppendRange rs a e \<noteq> []" "tr_end (last (AppendRange rs a e)) = e"
    "list_ex (in_range t) (AppendRange rs a e) \<longleftrightarrow> list_ex (in_range t) rs \<or> a \<le> t \<and> t \<le> e"
proof -
  have all: "tr_end q < a" if q: "q \<in> set rs" for q
  proof -
    obtain qs r where rs: "rs = qs @ [r]" using q by (cases rs rule: rev_cases) auto
    then have "tr_end r < a" using assms(3) by simp
    moreover have "q = r \<or> tr_end q < tr_from r \<and> tr_from r \<le> tr_end r"
      using assms(1) q by (auto simp: rs ranges_ok_append)
    ultimately show ?thesis by auto
  qed
  have "ranges_ok (AppendRange rs a e) \<and> AppendRange rs a e \<noteq> [] \<and> tr_end (last (AppendRange rs a e)) = e \<and>
    (list_ex (in_range t) (AppendRange rs a e) \<longleftrightarrow> list_ex (in_range t) rs \<or> a \<le> t \<and> t \<le> e)"
  proof (cases "rs \<noteq> [] \<and> tr_end (last rs) \<noteq> - 1 \<and> tr_end (last rs) + 1 = a")
    case True
    then obtain qs r where rs: "rs = qs @ [r]" by (cases rs rule: rev_cases) auto
    have app: "AppendRange rs a e = qs @ [r \<lparr> tr_end := e \<rparr>]" using True by (simp add: AppendRange_def rs)
    have r: "tr_from r \<le> tr_end r" "tr_end r \<noteq> - 1" "a = tr_end r + 1"
      using assms(1) True by (auto simp: rs ranges_ok_append)
    note s = word_succ [OF r(2)]
    have "tr_from r \<le> e" using r s assms(2) by (metis order.strict_implies_order order.trans)
    then have "ranges_ok (qs @ [r \<lparr> tr_end := e \<rparr>])" using assms(1) by (simp add: rs ranges_ok_append)
    moreover have "in_range t (r \<lparr> tr_end := e \<rparr>) \<longleftrightarrow> in_range t r \<or> a \<le> t \<and> t \<le> e"
      using r s [of t] assms(2) by (auto simp: in_range_def)
    moreover have "list_ex (in_range t) rs \<longleftrightarrow> list_ex (in_range t) qs \<or> in_range t r" by (simp add: rs)
    ultimately show ?thesis unfolding app by simp
  next
    case False
    have app: "AppendRange rs a e = rs @ [\<lparr> tr_from = a, tr_end = e \<rparr>]" using False by (auto simp: AppendRange_def)
    have "tr_end q + 1 \<noteq> a" if q: "q \<in> set rs" for q
    proof
      assume eq: "tr_end q + 1 = a"
      obtain qs r where rs: "rs = qs @ [r]" using q by (cases rs rule: rev_cases) auto
      have ne: "tr_end q \<noteq> - 1" using all [OF q] by auto
      show False
      proof (cases "q = r")
        case True
        then show False using False eq ne by (simp add: rs)
      next
        case neq: False
        then have "tr_end q < tr_from r" "tr_from r \<le> tr_end r" using assms(1) q by (auto simp: rs ranges_ok_append)
        then have "tr_end q < tr_end r" by simp
        then have "tr_end q + 1 \<le> tr_end r" using word_succ [OF ne] by blast
        moreover have "tr_end r < a" using all [of r] by (simp add: rs)
        ultimately show False using eq by simp
      qed
    qed
    then have "ranges_ok (rs @ [\<lparr> tr_from = a, tr_end = e \<rparr>])"
      using assms(1,2) all by (simp add: ranges_ok_append)
    then show ?thesis unfolding app by (simp add: in_range_def)
  qed
  then show "ranges_ok (AppendRange rs a e)" "AppendRange rs a e \<noteq> []" "tr_end (last (AppendRange rs a e)) = e"
    "list_ex (in_range t) (AppendRange rs a e) \<longleftrightarrow> list_ex (in_range t) rs \<or> a \<le> t \<and> t \<le> e"
    by blast+
qed

lemma seg_ok_snoc: "seg_ok (ss @ [p]) \<longleftrightarrow> seg_ok ss \<and> fst p \<le> snd p \<and> (\<forall>q \<in> set ss. snd q < fst p)"
  by (auto simp: seg_ok_def sorted_wrt_append)

lemma append_ranges_spec:
  assumes "seg_ok ss"
  shows "ranges_ok (append_ranges ss) \<and>
    (ss \<noteq> [] \<longrightarrow> append_ranges ss \<noteq> [] \<and> tr_end (last (append_ranges ss)) = snd (last ss)) \<and>
    (list_ex (in_range t) (append_ranges ss) \<longleftrightarrow> list_ex (\<lambda>p. fst p \<le> t \<and> t \<le> snd p) ss)"
  using assms
proof (induction ss rule: rev_induct)
  case Nil
  then show ?case by (simp add: append_ranges_def ranges_ok_def)
next
  case (snoc p ss)
  have ok: "seg_ok ss" "fst p \<le> snd p" "\<forall>q \<in> set ss. snd q < fst p" using snoc.prems by (auto simp: seg_ok_snoc)
  note IH = snoc.IH [OF ok(1)]
  have "append_ranges ss \<noteq> [] \<Longrightarrow> tr_end (last (append_ranges ss)) < fst p"
  proof -
    assume ne: "append_ranges ss \<noteq> []"
    then have "ss \<noteq> []" by (auto simp: append_ranges_def)
    with IH ok(3) show ?thesis by simp
  qed
  note step = AppendRange_step [OF conjunct1 [OF IH] ok(2) this]
  show ?case unfolding append_ranges_snoc using step IH by simp
qed

section \<open>The difference of two rings is exact\<close>

abbreviation owner_at :: "TokenOwner list \<Rightarrow> 32 word \<Rightarrow> MemberIdentity" where
  "owner_at owners t \<equiv> to_identity (FindOwner owners t)"

definition seg_change :: "TokenOwner list \<Rightarrow> TokenOwner list \<Rightarrow> grouped \<Rightarrow> 32 word \<times> 32 word \<Rightarrow> grouped" where
  "seg_change fo to g p =
     (if owner_at fo (fst p) = owner_at to (fst p) then g
      else group_change (owner_at fo (fst p)) (owner_at to (fst p)) (fst p) (snd p) g)"

lemma diff_loop_segs: "diff_loop fo to bs g = foldl (seg_change fo to) g (segs bs)"
  by (induction bs arbitrary: g) (simp_all add: seg_change_def Let_def)

definition moved_segs ::
  "TokenOwner list \<Rightarrow> TokenOwner list \<Rightarrow> string \<times> string \<Rightarrow> (32 word \<times> 32 word) list \<Rightarrow> (32 word \<times> 32 word) list" where
  "moved_segs fo to k ss =
     filter (\<lambda>p. owner_at fo (fst p) \<noteq> owner_at to (fst p) \<and>
                 (mi_address (owner_at fo (fst p)), mi_address (owner_at to (fst p))) = k) ss"

lemma moved_segs_snoc:
  "moved_segs fo to k (ss @ [p]) = moved_segs fo to k ss @ moved_segs fo to k [p]"
  by (simp add: moved_segs_def)

lemma grouped_map:
  "map_of (foldl (seg_change fo to) [] ss) k =
     (case rev (moved_segs fo to k ss) of
        [] \<Rightarrow> None
      | p # _ \<Rightarrow> Some \<lparr> oc_source = Some (owner_at fo (fst p)), oc_target = owner_at to (fst p),
                      oc_ranges = append_ranges (moved_segs fo to k ss) \<rparr>)"
proof (induction ss rule: rev_induct)
  case Nil
  then show ?case by (simp add: moved_segs_def)
next
  case (snoc p ss)
  let ?g = "foldl (seg_change fo to) [] ss"
  let ?k = "(mi_address (owner_at fo (fst p)), mi_address (owner_at to (fst p)))"
  show ?case
  proof (cases "owner_at fo (fst p) \<noteq> owner_at to (fst p) \<and> ?k = k")
    case True
    have ranges: "(case map_of ?g k of None \<Rightarrow> [] | Some c \<Rightarrow> oc_ranges c) = append_ranges (moved_segs fo to k ss)"
      by (simp add: snoc append_ranges_def split: list.split)
    have m: "moved_segs fo to k (ss @ [p]) = moved_segs fo to k ss @ [p]" using True by (simp add: moved_segs_def)
    have g: "foldl (seg_change fo to) [] (ss @ [p]) =
        group_change (owner_at fo (fst p)) (owner_at to (fst p)) (fst p) (snd p) ?g"
      using True by (simp add: seg_change_def)
    show ?thesis
      unfolding m g group_change_def Let_def conjunct2 [OF True] ranges
      by (simp add: map_of_om_put append_ranges_snoc)
  next
    case False
    then have m: "moved_segs fo to k (ss @ [p]) = moved_segs fo to k ss" by (auto simp: moved_segs_def)
    have "map_of (foldl (seg_change fo to) [] (ss @ [p])) k = map_of ?g k"
      using False by (auto simp: seg_change_def group_change_def Let_def map_of_om_put)
    then show ?thesis unfolding m snoc .
  qed
qed

lemma grouped_ok: "om_ok (foldl (seg_change fo to) g ss)" if "om_ok g"
  using that by (induction ss arbitrary: g) (simp_all add: seg_change_def group_change_def Let_def om_ok_put)

lemma strict_sorted_remdups_adj:
  fixes xs :: "'a :: linorder list"
  shows "sorted xs \<Longrightarrow> sorted_wrt (<) (remdups_adj xs)"
proof (induction xs rule: remdups_adj.induct)
  case (3 x y xs)
  show ?case
  proof (cases "x = y")
    case True
    with 3 show ?thesis by simp
  next
    case False
    then have "x < y" using "3.prems" by (simp add: less_le)
    then have "x < z" if "z \<in> set (y # xs)" for z using that "3.prems" by auto
    with False 3 show ?thesis by simp
  qed
qed simp_all

lemma boundaries_sorted: "sorted_wrt (<) (diff_boundaries fo to)"
  unfolding diff_boundaries_def by (rule strict_sorted_remdups_adj) (rule sorted_sort)

lemma set_boundaries: "set (diff_boundaries fo to) = insert 0 (set (ring_boundaries fo) \<union> set (ring_boundaries to))"
  unfolding diff_boundaries_def remdups_adj_set set_sort by simp

lemma boundaries_hd: "diff_boundaries fo to \<noteq> []" "hd (diff_boundaries fo to) = 0"
proof -
  have m: "0 \<in> set (diff_boundaries fo to)" by (simp add: set_boundaries)
  then show "diff_boundaries fo to \<noteq> []" by auto
  then obtain b bs where b: "diff_boundaries fo to = b # bs" by (cases "diff_boundaries fo to") auto
  then have "b \<le> 0" using m boundaries_sorted [of fo to] by (auto intro: less_imp_le)
  then show "hd (diff_boundaries fo to) = 0" using b by simp
qed

lemma FindOwner_segment:
  assumes "set (ring_boundaries owners) \<subseteq> set bs" "sorted_wrt (<) bs" "(a, e) \<in> set (segs bs)" "a \<le> t" "t \<le> e"
  shows "FindOwner owners t = FindOwner owners a"
proof -
  have "to_token w < t \<longleftrightarrow> to_token w < a" if w: "w \<in> set owners" for w
  proof
    assume lt: "to_token w < t"
    then have ne: "to_token w \<noteq> - 1" by auto
    with w have "to_token w + 1 \<in> set bs" using assms(1) by (auto simp: ring_boundaries_def)
    then have "to_token w + 1 \<le> a \<or> e < to_token w + 1" using segs_gap [OF assms(2,3)] by blast
    moreover have "to_token w + 1 \<le> e" using lt word_succ [OF ne, of t] assms(5) by auto
    ultimately have "to_token w + 1 \<le> a" by auto
    then show "to_token w < a" using word_succ [OF ne] by blast
  next
    assume "to_token w < a"
    with assms(4) show "to_token w < t" by simp
  qed
  then have "dropWhile (\<lambda>w. to_token w < t) owners = dropWhile (\<lambda>w. to_token w < a) owners"
    by (intro dropWhile_cong) auto
  then show ?thesis by (simp add: FindOwner_def)
qed

definition same_identity :: "TokenOwner list \<Rightarrow> bool" where
  "same_identity ws \<longleftrightarrow>
     (\<forall>v \<in> set ws. \<forall>w \<in> set ws. mi_address (to_identity v) = mi_address (to_identity w) \<longrightarrow> to_identity v = to_identity w)"

lemma FindOwner_in: "ring_ok owners \<Longrightarrow> FindOwner owners t \<in> set owners"
  using FindOwner_successor by (auto simp: successor_def)

lemma seg_ok_filter: "seg_ok ss \<Longrightarrow> seg_ok (filter P ss)"
  unfolding seg_ok_def by (auto intro: sorted_wrt_filter)

lemma DiffOwners_changes:
  fixes fo to :: "TokenOwner list"
  defines "ss \<equiv> segs (diff_boundaries fo to)"
  shows "c \<in> set (DiffOwners fo to) \<longleftrightarrow>
    (\<exists>k p. p = last (moved_segs fo to k ss) \<and> moved_segs fo to k ss \<noteq> [] \<and>
       c = \<lparr> oc_source = Some (owner_at fo (fst p)), oc_target = owner_at to (fst p),
            oc_ranges = append_ranges (moved_segs fo to k ss) \<rparr>)"
proof -
  let ?g = "foldl (seg_change fo to) [] ss"
  have ok: "om_ok ?g" by (rule grouped_ok) simp
  have "c \<in> set (DiffOwners fo to) \<longleftrightarrow> (\<exists>k. (k, c) \<in> set ?g)"
    by (force simp: DiffOwners_def diff_loop_segs ss_def)
  also have "\<dots> \<longleftrightarrow> (\<exists>k. map_of ?g k = Some c)" using om_set_iff [OF ok] by simp
  also have "\<dots> \<longleftrightarrow> (\<exists>k p. p = last (moved_segs fo to k ss) \<and> moved_segs fo to k ss \<noteq> [] \<and>
       c = \<lparr> oc_source = Some (owner_at fo (fst p)), oc_target = owner_at to (fst p),
            oc_ranges = append_ranges (moved_segs fo to k ss) \<rparr>)"
    unfolding grouped_map
    by (rule ex_cong1) (auto simp: hd_rev [symmetric] split: list.splits)
  finally show ?thesis .
qed

lemma moved_segs_in:
  assumes "p \<in> set (moved_segs fo to k ss)"
  shows "p \<in> set ss \<and> owner_at fo (fst p) \<noteq> owner_at to (fst p) \<and>
    k = (mi_address (owner_at fo (fst p)), mi_address (owner_at to (fst p)))"
  using assms by (auto simp: moved_segs_def)

lemma DiffOwners_iff:
  assumes "ring_ok fo" "ring_ok to" "same_identity (fo @ to)"
  shows "(\<exists>c \<in> set (DiffOwners fo to). oc_source c = Some S \<and> oc_target c = T \<and> list_ex (in_range t) (oc_ranges c)) \<longleftrightarrow>
    S = owner_at fo t \<and> T = owner_at to t \<and> S \<noteq> T"
proof -
  define ss where "ss = segs (diff_boundaries fo to)"
  have sg: "seg_ok ss" unfolding ss_def by (rule segs_ok [OF boundaries_sorted])
  have sub: "set (ring_boundaries fo) \<subseteq> set (diff_boundaries fo to)" "set (ring_boundaries to) \<subseteq> set (diff_boundaries fo to)"
    by (auto simp: set_boundaries)
  have own: "owner_at fo u = owner_at fo a" "owner_at to u = owner_at to a"
    if "(a, e) \<in> set ss" "a \<le> u" "u \<le> e" for a e u
    using FindOwner_segment [OF sub(1) boundaries_sorted that(1) [unfolded ss_def] that(2,3)]
      FindOwner_segment [OF sub(2) boundaries_sorted that(1) [unfolded ss_def] that(2,3)]
    by simp_all
  have id: "owner_at fo u = owner_at fo v" if "mi_address (owner_at fo u) = mi_address (owner_at fo v)" for u v
    using assms that FindOwner_in [OF assms(1)] unfolding same_identity_def by (metis Un_iff set_append)
  have id': "owner_at to u = owner_at to v" if "mi_address (owner_at to u) = mi_address (owner_at to v)" for u v
    using assms that FindOwner_in [OF assms(2)] unfolding same_identity_def by (metis Un_iff set_append)
  have cover: "list_ex (in_range t) (append_ranges (moved_segs fo to k ss)) \<longleftrightarrow>
      list_ex (\<lambda>p. fst p \<le> t \<and> t \<le> snd p) (moved_segs fo to k ss)" for k
    using append_ranges_spec [of "moved_segs fo to k ss" t] seg_ok_filter [OF sg] by (simp add: moved_segs_def)
  show ?thesis
  proof
    assume "\<exists>c \<in> set (DiffOwners fo to). oc_source c = Some S \<and> oc_target c = T \<and> list_ex (in_range t) (oc_ranges c)"
    then obtain c where c: "c \<in> set (DiffOwners fo to)" "oc_source c = Some S" "oc_target c = T"
      "list_ex (in_range t) (oc_ranges c)" by blast
    from c(1) obtain k p where p: "p = last (moved_segs fo to k ss)" "moved_segs fo to k ss \<noteq> []"
      and ceq: "c = \<lparr> oc_source = Some (owner_at fo (fst p)), oc_target = owner_at to (fst p),
            oc_ranges = append_ranges (moved_segs fo to k ss) \<rparr>"
      unfolding DiffOwners_changes ss_def [symmetric] by blast
    have S: "S = owner_at fo (fst p)" "T = owner_at to (fst p)" using c ceq by simp_all
    have ex: "list_ex (\<lambda>p. fst p \<le> t \<and> t \<le> snd p) (moved_segs fo to k ss)"
      using c(4) ceq cover [of k] by simp
    from p have pm: "p \<in> set (moved_segs fo to k ss)" by simp
    from ex obtain q where q: "q \<in> set (moved_segs fo to k ss)" "fst q \<le> t" "t \<le> snd q" by (auto simp: list_ex_iff)
    note mp = moved_segs_in [OF pm] and mq = moved_segs_in [OF q(1)]
    have "owner_at fo t = owner_at fo (fst q)" "owner_at to t = owner_at to (fst q)"
      using own [of "fst q" "snd q" t] mq q by simp_all
    moreover have "owner_at fo (fst q) = owner_at fo (fst p)" "owner_at to (fst q) = owner_at to (fst p)"
      using mp mq id id' by auto
    ultimately show "S = owner_at fo t \<and> T = owner_at to t \<and> S \<noteq> T" using S mp by simp
  next
    assume S: "S = owner_at fo t \<and> T = owner_at to t \<and> S \<noteq> T"
    obtain a e where ae: "(a, e) \<in> set ss" "a \<le> t" "t \<le> e"
      using segs_cover [OF boundaries_sorted boundaries_hd(1), of fo to t] boundaries_hd(2) [of fo to]
      unfolding ss_def by auto
    define k where "k = (mi_address S, mi_address T)"
    have m: "(a, e) \<in> set (moved_segs fo to k ss)"
      using S ae own [OF ae] by (auto simp: moved_segs_def k_def)
    define p where "p = last (moved_segs fo to k ss)"
    have ne: "moved_segs fo to k ss \<noteq> []" using m by auto
    then have pm: "p \<in> set (moved_segs fo to k ss)" by (simp add: p_def)
    have "owner_at fo (fst p) = S" "owner_at to (fst p) = T"
      using moved_segs_in [OF pm] S id id' by (auto simp: k_def)
    moreover have "list_ex (\<lambda>p. fst p \<le> t \<and> t \<le> snd p) (moved_segs fo to k ss)"
      unfolding list_ex_iff using ae by (intro bexI [OF _ m]) simp
    then have "list_ex (in_range t) (append_ranges (moved_segs fo to k ss))" unfolding cover .
    moreover have "\<lparr> oc_source = Some (owner_at fo (fst p)), oc_target = owner_at to (fst p),
        oc_ranges = append_ranges (moved_segs fo to k ss) \<rparr> \<in> set (DiffOwners fo to)"
      unfolding DiffOwners_changes ss_def [symmetric] using ne p_def by blast
    ultimately show "\<exists>c \<in> set (DiffOwners fo to). oc_source c = Some S \<and> oc_target c = T \<and> list_ex (in_range t) (oc_ranges c)"
      by (intro bexI [of _ "\<lparr> oc_source = Some (owner_at fo (fst p)), oc_target = owner_at to (fst p),
        oc_ranges = append_ranges (moved_segs fo to k ss) \<rparr>"]) simp_all
  qed
qed

text \<open>
  C28. The difference of two token rings is exact: for every token, some reported change moves it from source
  \<open>S\<close> to target \<open>T\<close> if and only if \<open>S\<close> owns it in the old ring, \<open>T\<close> owns it in the new ring and they differ.
  No token that changes owner is missed, and no token is migrated that keeps its owner.
\<close>

theorem DiffOwners_exact:
  assumes "ring_ok fo" "ring_ok to" "same_identity (fo @ to)"
  shows "(\<exists>c \<in> set (DiffOwners fo to). oc_source c = Some S \<and> oc_target c = T \<and> list_ex (in_range t) (oc_ranges c)) \<longleftrightarrow>
    S = owner_at fo t \<and> T = owner_at to t \<and> S \<noteq> T"
  by (rule DiffOwners_iff [OF assms])

lemma DiffOwners_normal:
  assumes "c \<in> set (DiffOwners fo to)"
  shows "ranges_ok (oc_ranges c)" "oc_ranges c \<noteq> []" "\<exists>S. oc_source c = Some S \<and> S \<noteq> oc_target c"
proof -
  define ss where "ss = segs (diff_boundaries fo to)"
  obtain k p where p: "p = last (moved_segs fo to k ss)" "moved_segs fo to k ss \<noteq> []"
    and c: "c = \<lparr> oc_source = Some (owner_at fo (fst p)), oc_target = owner_at to (fst p),
            oc_ranges = append_ranges (moved_segs fo to k ss) \<rparr>"
    using assms unfolding DiffOwners_changes ss_def [symmetric] by blast
  have "seg_ok (moved_segs fo to k ss)"
    unfolding moved_segs_def ss_def by (rule seg_ok_filter [OF segs_ok [OF boundaries_sorted]])
  note a = append_ranges_spec [OF this]
  show "ranges_ok (oc_ranges c)" "oc_ranges c \<noteq> []" using a p(2) c by simp_all
  have "p \<in> set (moved_segs fo to k ss)" using p by simp
  then show "\<exists>S. oc_source c = Some S \<and> S \<noteq> oc_target c" using moved_segs_in c by simp
qed

lemma change_moves_token:
  assumes "ring_ok fo" "ring_ok to" "same_identity (fo @ to)" "c \<in> set (DiffOwners fo to)"
  obtains t where "oc_source c = Some (owner_at fo t)" "oc_target c = owner_at to t" "owner_at fo t \<noteq> owner_at to t"
proof -
  obtain S where S: "oc_source c = Some S" using DiffOwners_normal(3) [OF assms(4)] by blast
  obtain r rs where r: "oc_ranges c = r # rs" using DiffOwners_normal(2) [OF assms(4)] by (cases "oc_ranges c") auto
  have "tr_from r \<le> tr_end r" using DiffOwners_normal(1) [OF assms(4)] by (simp add: r ranges_ok_def)
  then have "list_ex (in_range (tr_from r)) (oc_ranges c)" by (simp add: r in_range_def)
  then have "S = owner_at fo (tr_from r) \<and> oc_target c = owner_at to (tr_from r) \<and> S \<noteq> oc_target c"
    using DiffOwners_iff [OF assms(1-3), of S "oc_target c" "tr_from r"] assms(4) S by blast
  with S that show ?thesis by metis
qed

section \<open>Rings of members\<close>

definition ring_of :: "(Member \<Rightarrow> bool) \<Rightarrow> Member list \<Rightarrow> TokenOwner set" where
  "ring_of P ms = {\<lparr> to_token = p, to_identity = m_identity m \<rparr> | p m. m \<in> set ms \<and> P m \<and> p \<in> set (m_tokens m)}"

definition owner_list :: "(Member \<Rightarrow> bool) \<Rightarrow> Member list \<Rightarrow> TokenOwner list" where
  "owner_list P ms =
     concat (map (\<lambda>m. map (\<lambda>p. \<lparr> to_token = p, to_identity = m_identity m \<rparr>) (m_tokens m)) (filter P ms))"

lemma set_owner_list: "set (owner_list P ms) = ring_of P ms"
  by (auto simp: owner_list_def ring_of_def)

lemma tokens_owner_list: "map to_token (owner_list P ms) = concat (map m_tokens (filter P ms))"
  by (induction ms) (simp_all add: owner_list_def comp_def)

lemma BuildOwners_ring:
  assumes "BuildOwners ms j ex ao = Inr owners" "distinct (concat (map m_tokens ms))"
  shows "ring_ok owners" "set owners = ring_of (eligible_owner j ex ao) ms"
proof -
  let ?ws = "owner_list (eligible_owner j ex ao) ms"
  have w: "owners = sort_key to_token ?ws" "?ws \<noteq> []"
    using assms(1) by (auto simp: BuildOwners_def Let_def owner_list_def split: if_splits)
  have "distinct (map to_token ?ws)" unfolding tokens_owner_list by (rule distinct_concat_filter [OF assms(2)])
  then have "distinct (map to_token owners)" unfolding w(1) by (simp add: distinct_map_sort_key)
  moreover have "sorted (map to_token owners)" unfolding w(1) by simp
  moreover have "owners \<noteq> []" using w by (metis set_empty set_sort)
  ultimately show "ring_ok owners" by (simp add: ring_ok_def strict_sorted_iff)
  show "set owners = ring_of (eligible_owner j ex ao) ms" unfolding w(1) by (simp add: set_owner_list)
qed

lemma ring_ofE:
  assumes "w \<in> ring_of P ms"
  obtains m where "m \<in> set ms" "P m" "to_identity w = m_identity m" "to_token w \<in> set (m_tokens m)"
  using assms by (auto simp: ring_of_def)

lemma same_identityI:
  assumes "distinct (map m_address ms)" "set ws \<subseteq> ring_of P ms"
  shows "same_identity ws"
proof -
  have inj: "inj_on m_address (set ms)" using assms(1) by (simp add: distinct_map)
  have "to_identity v = to_identity w"
    if vw: "v \<in> set ws" "w \<in> set ws" and eq: "mi_address (to_identity v) = mi_address (to_identity w)" for v w
  proof -
    have "v \<in> ring_of P ms" "w \<in> ring_of P ms" using vw assms(2) by auto
    then obtain m n where "m \<in> set ms" "n \<in> set ms" "to_identity v = m_identity m" "to_identity w = m_identity n"
      by (elim ring_ofE)
    with eq inj show ?thesis by (auto dest: inj_onD)
  qed
  then show ?thesis unfolding same_identity_def by blast
qed

section \<open>Checks against their specification\<close>

definition valid_placement :: "TopologyState \<Rightarrow> bool" where
  "valid_placement st \<longleftrightarrow>
     (\<forall>m \<in> set (ts_members st). length (m_id m) = UUID_SIZE \<and> m_address m \<noteq> []) \<and>
     distinct (map m_id (ts_members st)) \<and> distinct (map m_address (ts_members st)) \<and>
     distinct (concat (map m_tokens (ts_members st))) \<and>
     (ts_members st = [] \<or> (\<exists>m \<in> set (ts_members st). IsCommittedMemberState (m_state m)))"

lemma validate_loop_eq:
  "validate_loop ms ids adr toks h =
     (if (\<forall>m \<in> set ms. length (m_id m) = UUID_SIZE \<and> m_address m \<noteq> []) \<and>
         (distinct (map m_id ms) \<and> set ids \<inter> m_id ` set ms = {}) \<and>
         (distinct (map m_address ms) \<and> set adr \<inter> m_address ` set ms = {}) \<and>
         (distinct (concat (map m_tokens ms)) \<and> set toks \<inter> set (concat (map m_tokens ms)) = {})
      then Inr (h \<or> (\<exists>m \<in> set ms. IsCommittedMemberState (m_state m))) else Inl K_INVALID)"
proof (induction ms arbitrary: ids adr toks h)
  case (Cons m ms)
  have ids: "distinct (map m_id (m # ms)) \<and> set ids \<inter> m_id ` set (m # ms) = {} \<longleftrightarrow>
      m_id m \<notin> set ids \<and> distinct (map m_id ms) \<and> set (m_id m # ids) \<inter> m_id ` set ms = {}"
    by auto
  have adr: "distinct (map m_address (m # ms)) \<and> set adr \<inter> m_address ` set (m # ms) = {} \<longleftrightarrow>
      m_address m \<notin> set adr \<and> distinct (map m_address ms) \<and> set (m_address m # adr) \<inter> m_address ` set ms = {}"
    by auto
  have toks: "distinct (concat (map m_tokens (m # ms))) \<and> set toks \<inter> set (concat (map m_tokens (m # ms))) = {} \<longleftrightarrow>
      distinct (m_tokens m) \<and> set (m_tokens m) \<inter> set toks = {} \<and> distinct (concat (map m_tokens ms)) \<and>
      set (rev (m_tokens m) @ toks) \<inter> set (concat (map m_tokens ms)) = {}"
    unfolding list.map concat.simps distinct_append set_append set_rev by blast
  show ?case
    unfolding ids adr toks validate_loop.simps emplace_tokens_eq
    by (cases "m_id m \<in> set ids"; cases "m_address m \<in> set adr"; cases "distinct (m_tokens m)";
        cases "set (m_tokens m) \<inter> set toks = {}") (simp_all add: Cons.IH)
qed simp

lemma Validate_eq: "Validate st = (if valid_placement st then Inr () else Inl K_INVALID)"
  by (simp add: Validate_def validate_loop_eq valid_placement_def)

lemma identity_loop_eq:
  "identity_loop re xs ids adr =
     (if (\<forall>x \<in> set xs. length (mi_id x) = UUID_SIZE \<and> canonical_address re (mi_address x)) \<and>
         (distinct (map mi_id xs) \<and> set ids \<inter> mi_id ` set xs = {}) \<and>
         (distinct (map mi_address xs) \<and> set adr \<inter> mi_address ` set xs = {})
      then Inr () else Inl K_INVALID)"
proof (induction xs arbitrary: ids adr)
  case (Cons x xs)
  have ids: "distinct (map mi_id (x # xs)) \<and> set ids \<inter> mi_id ` set (x # xs) = {} \<longleftrightarrow>
      mi_id x \<notin> set ids \<and> distinct (map mi_id xs) \<and> set (mi_id x # ids) \<inter> mi_id ` set xs = {}"
    by auto
  have adr: "distinct (map mi_address (x # xs)) \<and> set adr \<inter> mi_address ` set (x # xs) = {} \<longleftrightarrow>
      mi_address x \<notin> set adr \<and> distinct (map mi_address xs) \<and> set (mi_address x # adr) \<inter> mi_address ` set xs = {}"
    by auto
  have can: "canonical_address re (mi_address x) \<longleftrightarrow>
      (mi_address x \<noteq> [] \<and> length (mi_address x) \<le> MAX_MEMBER_ADDRESS_BYTES) \<and>
      (case HostPort_ParseString re HostPort_default (mi_address x) of
         Inl _ \<Rightarrow> False | Inr h \<Rightarrow> HostPort_ToString h = mi_address x)"
    by (auto simp: canonical_address_def split: sum.splits)
  show ?case
    unfolding ids adr identity_loop.simps
    by (cases "canonical_address re (mi_address x)"; cases "mi_id x \<in> set ids"; cases "mi_address x \<in> set adr";
        cases "length (mi_id x) = UUID_SIZE") (auto simp: Cons.IH can [symmetric] simp: can)
qed simp

section \<open>Generated tokens\<close>

lemma probe_loop_free: "probe_loop a i p n occ = Some t \<Longrightarrow> t \<notin> set occ"
  by (induction n arbitrary: p) (auto simp: Let_def split: if_splits)

lemma probe_loop_None:
  "probe_loop a i p n occ = None \<longleftrightarrow> (\<forall>q. p \<le> q \<and> q < p + n \<longrightarrow> MakeToken a i q \<in> set occ)"
proof (induction n arbitrary: p)
  case (Suc n)
  have "(\<forall>q. p \<le> q \<and> q < p + Suc n \<longrightarrow> P q) \<longleftrightarrow> P p \<and> (\<forall>q. Suc p \<le> q \<and> q < Suc p + n \<longrightarrow> P q)" for P
    by (metis Suc_leD Suc_leI add_Suc add_Suc_right le_add1 le_imp_less_Suc order_le_less order_refl)
  then show ?case using Suc [of "Suc p"] by (simp add: Let_def)
qed auto

lemma token_loop_spec:
  assumes "token_loop a i n occ toks = Inr (ts, occ')" "distinct toks" "set toks \<subseteq> set occ"
  shows "\<exists>new. ts = toks @ new \<and> length new = n \<and> distinct ts \<and> set new \<inter> set occ = {} \<and> set occ' = set occ \<union> set new"
  using assms
proof (induction n arbitrary: i occ toks)
  case (Suc n)
  obtain t where t: "probe_loop a i 0 MAX_TOKEN_PROBES occ = Some t"
    and rest: "token_loop a (i + 1) n (t # occ) (toks @ [t]) = Inr (ts, occ')"
    using Suc.prems(1) by (auto split: option.splits)
  have free: "t \<notin> set occ" by (rule probe_loop_free [OF t])
  then have "distinct (toks @ [t])" "set (toks @ [t]) \<subseteq> set (t # occ)" using Suc.prems(2,3) by auto
  from Suc.IH [OF rest this] obtain new where new: "ts = (toks @ [t]) @ new" "length new = n" "distinct ts"
    "set new \<inter> set (t # occ) = {}" "set occ' = set (t # occ) \<union> set new" by blast
  show ?case
  proof (intro exI conjI)
    show "ts = toks @ (t # new)" "length (t # new) = Suc n" "distinct ts" using new by simp_all
    show "set (t # new) \<inter> set occ = {}" "set occ' = set occ \<union> set (t # new)" using new free by auto
  qed
qed simp

lemma GenerateTokens_spec:
  assumes "GenerateTokens x n occ = Inr (ts, occ')"
  shows "length ts = n" "sorted ts" "distinct ts" "set ts \<inter> set occ = {}" "set occ' = set occ \<union> set ts"
proof -
  obtain us where us: "token_loop (mi_address x) 0 n occ [] = Inr (us, occ')" "ts = sort us"
    using assms by (auto simp: GenerateTokens_def split: sum.splits)
  from token_loop_spec [OF us(1)] us(2)
  show "length ts = n" "sorted ts" "distinct ts" "set ts \<inter> set occ = {}" "set occ' = set occ \<union> set ts" by auto
qed

section \<open>Scale-out\<close>

definition placement_names :: "Member list \<Rightarrow> bool" where
  "placement_names ms \<longleftrightarrow>
     (\<forall>m \<in> set ms. length (m_id m) = UUID_SIZE \<and> m_address m \<noteq> []) \<and>
     distinct (map m_id ms) \<and> distinct (map m_address ms) \<and> distinct (concat (map m_tokens ms))"

lemma find_None: "find P xs = None \<longleftrightarrow> (\<forall>x \<in> set xs. \<not> P x)"
  by (induction xs) auto

lemma find_SomeD: "find P xs = Some x \<Longrightarrow> x \<in> set xs \<and> P x"
  by (induction xs) (auto split: if_splits)

lemma placement_names_snoc:
  "placement_names (ms @ [m]) \<longleftrightarrow> placement_names ms \<and> length (m_id m) = UUID_SIZE \<and> m_address m \<noteq> [] \<and>
     m_id m \<notin> m_id ` set ms \<and> m_address m \<notin> m_address ` set ms \<and>
     distinct (m_tokens m) \<and> set (m_tokens m) \<inter> set (concat (map m_tokens ms)) = {}"
  unfolding placement_names_def by auto

lemma join_loop_spec:
  assumes "join_loop n xs ms occ = Inr ms'" "placement_names ms" "set occ = set (concat (map m_tokens ms))"
    "\<forall>x \<in> set xs. length (mi_id x) = UUID_SIZE \<and> mi_address x \<noteq> []"
  shows "\<exists>new. ms' = ms @ new \<and> placement_names ms' \<and>
    (\<forall>m \<in> set new. m_state m = JOINING \<and> length (m_tokens m) = n \<and> m_identity m \<in> set xs) \<and>
    (\<forall>x \<in> set xs. \<exists>m \<in> set ms'. m_identity m = x \<and> m_state m = JOINING)"
  using assms
proof (induction xs arbitrary: ms occ)
  case (Cons x xs)
  show ?case
  proof (cases "find (\<lambda>m. m_address m = mi_address x) ms")
    case (Some m)
    then have m: "m \<in> set ms" "m_identity m = x" "m_state m = JOINING" and rest: "join_loop n xs ms occ = Inr ms'"
      using Cons.prems(1) find_SomeD [OF Some] by (auto split: if_splits)
    from Cons.IH [OF rest Cons.prems(2,3)] Cons.prems(4) obtain new where
      new: "ms' = ms @ new" "placement_names ms'"
        "\<forall>m \<in> set new. m_state m = JOINING \<and> length (m_tokens m) = n \<and> m_identity m \<in> set xs"
        "\<forall>x \<in> set xs. \<exists>m \<in> set ms'. m_identity m = x \<and> m_state m = JOINING"
      by auto
    then show ?thesis using m by auto
  next
    case None
    obtain ts occ' where gen: "GenerateTokens x n occ = Inr (ts, occ')"
      and ids: "list_all (\<lambda>m. m_id m \<noteq> mi_id x) ms"
      and rest: "join_loop n xs (ms @ [\<lparr> m_identity = x, m_state = JOINING, m_tokens = ts \<rparr>]) occ' = Inr ms'"
      using Cons.prems(1) None by (auto split: if_splits sum.splits)
    let ?m = "\<lparr> m_identity = x, m_state = JOINING, m_tokens = ts \<rparr>"
    note g = GenerateTokens_spec [OF gen]
    have "m_address ?m \<notin> m_address ` set ms" "m_id ?m \<notin> m_id ` set ms"
      using None ids by (auto simp: find_None list_all_iff)
    then have names: "placement_names (ms @ [?m])"
      using Cons.prems g unfolding placement_names_snoc by simp
    have occ: "set occ' = set (concat (map m_tokens (ms @ [?m])))" using g Cons.prems(3) by simp
    from Cons.IH [OF rest names occ] Cons.prems(4) obtain new where
      new: "ms' = (ms @ [?m]) @ new" "placement_names ms'"
        "\<forall>m \<in> set new. m_state m = JOINING \<and> length (m_tokens m) = n \<and> m_identity m \<in> set xs"
        "\<forall>x \<in> set xs. \<exists>m \<in> set ms'. m_identity m = x \<and> m_state m = JOINING"
      by auto
    then show ?thesis using g(1) by (intro exI [of _ "?m # new"]) auto
  qed
qed simp

lemma PlanScaleOut_cases:
  assumes "PlanScaleOut re input = Inr plan"
  obtains new fromOwners toOwners where
    "valid_placement (so_current input)"
    "tp_next plan = (so_current input) \<lparr> ts_members := ts_members (so_current input) @ new \<rparr>"
    "placement_names (ts_members (so_current input) @ new)"
    "\<forall>m \<in> set new. m_state m = JOINING \<and> length (m_tokens m) = so_tokensPerMember input"
    "\<forall>x \<in> set (so_joining input). \<exists>m \<in> set (ts_members (so_current input) @ new). m_identity m = x \<and> m_state m = JOINING"
    "BuildOwners (ts_members (so_current input)) False [] False = Inr fromOwners"
    "BuildOwners (ts_members (so_current input) @ new) True [] False = Inr toOwners"
    "tp_ownerChanges plan = DiffOwners fromOwners toOwners"
proof -
  have val: "valid_placement (so_current input)" and ids: "ValidateIdentities re (so_joining input) = Inr ()"
    using assms by (auto simp: PlanScaleOut_def Validate_eq split: if_splits sum.splits)
  obtain ms fo to where
    j: "join_loop (so_tokensPerMember input) (sort_key mi_address (so_joining input))
          (ts_members (so_current input)) (concat (map m_tokens (ts_members (so_current input)))) = Inr ms"
    and f: "BuildOwners (ts_members (so_current input)) False [] False = Inr fo"
    and t: "BuildOwners ms True [] False = Inr to"
    and plan: "plan = \<lparr> tp_next = (so_current input) \<lparr> ts_members := ms \<rparr>, tp_ownerChanges = DiffOwners fo to \<rparr>"
    using assms val ids by (auto simp: PlanScaleOut_def Validate_eq split: if_splits sum.splits)
  have names: "placement_names (ts_members (so_current input))" using val by (simp add: valid_placement_def placement_names_def)
  have xs: "\<forall>x \<in> set (sort_key mi_address (so_joining input)). length (mi_id x) = UUID_SIZE \<and> mi_address x \<noteq> []"
    using ids by (auto simp: ValidateIdentities_def identity_loop_eq canonical_address_def split: if_splits)
  from join_loop_spec [OF j names refl xs] obtain new where
    "ms = ts_members (so_current input) @ new" "placement_names ms"
    "\<forall>m \<in> set new. m_state m = JOINING \<and> length (m_tokens m) = so_tokensPerMember input"
    "\<forall>x \<in> set (so_joining input). \<exists>m \<in> set ms. m_identity m = x \<and> m_state m = JOINING"
    by auto
  with that val f t plan show ?thesis by auto
qed

abbreviation committed :: "Member \<Rightarrow> bool" where
  "committed m \<equiv> IsCommittedMemberState (m_state m)"

lemma eligible_simps:
  "eligible_owner False [] False = committed"
  "eligible_owner True [] False = (\<lambda>m. committed m \<or> m_state m = JOINING)"
  "eligible_owner False ex False = (\<lambda>m. committed m \<and> m_address m \<notin> set ex)"
  "eligible_owner False ex True = (\<lambda>m. m_state m = ACTIVE \<and> m_address m \<notin> set ex)"
  by (auto simp: eligible_owner_def fun_eq_iff)

lemma ring_of_mono: "(\<And>m. m \<in> set ms \<Longrightarrow> P m \<Longrightarrow> Q m) \<Longrightarrow> set ms \<subseteq> set ns \<Longrightarrow> ring_of P ms \<subseteq> ring_of Q ns"
  unfolding ring_of_def by blast

lemma scale_out_rings:
  assumes "PlanScaleOut re input = Inr plan"
  obtains fo to where "ring_ok fo" "ring_ok to" "same_identity (fo @ to)"
    "set fo = ring_of committed (ts_members (so_current input))"
    "set to = ring_of (\<lambda>m. committed m \<or> m_state m = JOINING) (ts_members (tp_next plan))"
    "set fo \<subseteq> set to" "tp_ownerChanges plan = DiffOwners fo to"
proof -
  from assms obtain new fo to where p: "valid_placement (so_current input)"
    "tp_next plan = (so_current input) \<lparr> ts_members := ts_members (so_current input) @ new \<rparr>"
    "placement_names (ts_members (so_current input) @ new)"
    "BuildOwners (ts_members (so_current input)) False [] False = Inr fo"
    "BuildOwners (ts_members (so_current input) @ new) True [] False = Inr to"
    "tp_ownerChanges plan = DiffOwners fo to"
    by (elim PlanScaleOut_cases)
  have d: "distinct (concat (map m_tokens (ts_members (so_current input))))"
    "distinct (concat (map m_tokens (ts_members (so_current input) @ new)))"
    "distinct (map m_address (ts_members (so_current input) @ new))"
    using p(1,3) by (simp_all add: valid_placement_def placement_names_def)
  note f = BuildOwners_ring [OF p(4) d(1)] and t = BuildOwners_ring [OF p(5) d(2)]
  have sub: "set fo \<subseteq> set to" unfolding f(2) t(2) eligible_simps by (rule ring_of_mono) auto
  then have "same_identity (fo @ to)" using t(2) by (intro same_identityI [OF d(3)]) auto
  then show ?thesis
    using that [OF f(1) t(1)] f(2) t(2) sub p(2,6) by (simp add: eligible_simps)
qed

lemma scale_out_plan_changes:
  assumes "PlanScaleOut re input = Inr plan"
    "successor (ring_of committed (ts_members (so_current input))) t v"
    "successor (ring_of (\<lambda>m. committed m \<or> m_state m = JOINING) (ts_members (tp_next plan))) t w"
  shows "Validate (tp_next plan) = Inr () \<and>
    (\<exists>new. ts_members (tp_next plan) = ts_members (so_current input) @ new) \<and>
    (\<forall>x \<in> set (so_joining input). \<exists>m \<in> set (ts_members (tp_next plan)). m_identity m = x \<and> m_state m = JOINING) \<and>
    ((\<exists>c \<in> set (tp_ownerChanges plan). oc_source c = Some S \<and> oc_target c = T \<and> list_ex (in_range t) (oc_ranges c)) \<longleftrightarrow>
      S = to_identity v \<and> T = to_identity w \<and> S \<noteq> T)"
proof -
  from assms(1) obtain new where p: "valid_placement (so_current input)"
    "tp_next plan = (so_current input) \<lparr> ts_members := ts_members (so_current input) @ new \<rparr>"
    "placement_names (ts_members (so_current input) @ new)"
    "\<forall>x \<in> set (so_joining input). \<exists>m \<in> set (ts_members (so_current input) @ new). m_identity m = x \<and> m_state m = JOINING"
    by (elim PlanScaleOut_cases)
  from assms(1) obtain fo to where r: "ring_ok fo" "ring_ok to" "same_identity (fo @ to)"
    "set fo = ring_of committed (ts_members (so_current input))"
    "set to = ring_of (\<lambda>m. committed m \<or> m_state m = JOINING) (ts_members (tp_next plan))"
    "tp_ownerChanges plan = DiffOwners fo to"
    by (elim scale_out_rings)
  have own: "FindOwner fo t = v" "FindOwner to t = w"
    using FindOwner_eqI [OF r(1)] FindOwner_eqI [OF r(2)] assms(2,3) r(4,5) by simp_all
  obtain m where "m \<in> set (ts_members (so_current input))" "committed m"
    using assms(2) by (auto simp: successor_def elim: ring_ofE)
  then have "valid_placement (tp_next plan)" using p(2,3) by (auto simp: valid_placement_def placement_names_def)
  then show ?thesis
    using p(2,4) DiffOwners_iff [OF r(1-3), of S T t] by (simp add: Validate_eq own r(6))
qed

text \<open>
  C29. Scale-out plans: an accepted plan keeps the placement valid and the existing members unchanged, every
  requested member is \<^verbatim>\<open>JOINING\<close> in the next topology, and the reported changes are exactly the ownership
  moves: a token moves from \<open>S\<close> to \<open>T\<close> if and only if \<open>S\<close> is its clockwise successor among the committed tokens,
  \<open>T\<close> its successor once the joining tokens are added, and they differ.
\<close>

theorem scale_out_plan_exact:
  assumes "PlanScaleOut re input = Inr plan"
    "successor (ring_of committed (ts_members (so_current input))) t v"
    "successor (ring_of (\<lambda>m. committed m \<or> m_state m = JOINING) (ts_members (tp_next plan))) t w"
  shows "Validate (tp_next plan) = Inr () \<and>
    (\<exists>new. ts_members (tp_next plan) = ts_members (so_current input) @ new) \<and>
    (\<forall>x \<in> set (so_joining input). \<exists>m \<in> set (ts_members (tp_next plan)). m_identity m = x \<and> m_state m = JOINING) \<and>
    ((\<exists>c \<in> set (tp_ownerChanges plan). oc_source c = Some S \<and> oc_target c = T \<and> list_ex (in_range t) (oc_ranges c)) \<longleftrightarrow>
      S = to_identity v \<and> T = to_identity w \<and> S \<noteq> T)"
  by (rule scale_out_plan_changes [OF assms])

text \<open>
  Scale-out moves data only to the new members: in an accepted scale-out plan every change has a committed
  member as its source and a \<^verbatim>\<open>JOINING\<close> member as its target; no data moves between two existing members.
\<close>

lemma scale_out_only_to_joining:
  assumes "PlanScaleOut re input = Inr plan" "c \<in> set (tp_ownerChanges plan)"
  shows "(\<exists>m \<in> set (ts_members (tp_next plan)). m_identity m = oc_target c \<and> m_state m = JOINING) \<and>
    (\<exists>m \<in> set (ts_members (so_current input)). Some (m_identity m) = oc_source c \<and> committed m) \<and>
    ranges_ok (oc_ranges c)"
proof -
  from assms(1) obtain new where p: "valid_placement (so_current input)"
    "tp_next plan = (so_current input) \<lparr> ts_members := ts_members (so_current input) @ new \<rparr>"
    "\<forall>m \<in> set new. m_state m = JOINING \<and> length (m_tokens m) = so_tokensPerMember input"
    by (elim PlanScaleOut_cases)
  from assms(1) obtain fo to where r: "ring_ok fo" "ring_ok to" "same_identity (fo @ to)"
    "set fo = ring_of committed (ts_members (so_current input))"
    "set to = ring_of (\<lambda>m. committed m \<or> m_state m = JOINING) (ts_members (tp_next plan))"
    "set fo \<subseteq> set to" "tp_ownerChanges plan = DiffOwners fo to"
    by (elim scale_out_rings)
  from change_moves_token [OF r(1-3) assms(2) [unfolded r(7)]] obtain t where
    t: "oc_source c = Some (owner_at fo t)" "oc_target c = owner_at to t" "owner_at fo t \<noteq> owner_at to t" .
  have "FindOwner to t \<notin> set fo"
  proof
    assume "FindOwner to t \<in> set fo"
    then have "successor (set fo) t (FindOwner to t)"
      using successor_subset [OF FindOwner_successor [OF r(2)] r(6)] by blast
    then show False using FindOwner_eqI [OF r(1)] t(3) by metis
  qed
  moreover have "FindOwner to t \<in> ring_of (\<lambda>m. committed m \<or> m_state m = JOINING) (ts_members (tp_next plan))"
    using FindOwner_in [OF r(2)] r(5) by simp
  then obtain m where m: "m \<in> set (ts_members (tp_next plan))" "committed m \<or> m_state m = JOINING"
    "FindOwner to t = \<lparr> to_token = to_token (FindOwner to t), to_identity = m_identity m \<rparr>"
    "to_token (FindOwner to t) \<in> set (m_tokens m)"
    by (auto simp: ring_of_def)
  ultimately have "m_state m = JOINING"
    using p(2,3) unfolding r(4) ring_of_def by (auto simp: IsCommittedMemberState_def)
  moreover obtain m' where "m' \<in> set (ts_members (so_current input))" "committed m'" "owner_at fo t = m_identity m'"
    using FindOwner_in [OF r(1), of t] unfolding r(4) by (elim ring_ofE)
  moreover have "ranges_ok (oc_ranges c)" using DiffOwners_normal(1) assms(2) r(7) by simp
  ultimately show ?thesis using m(1,3) t(1,2) by (metis TokenOwner.select_convs(2))
qed

section \<open>Scale-in and failure\<close>

lemma ValidateSelected_spec:
  "ValidateSelectedMembers st xs = Inr () \<Longrightarrow> x \<in> set xs \<Longrightarrow>
     \<exists>m \<in> set (ts_members st). m_identity m = x \<and> committed m"
proof (induction xs)
  case (Cons y xs)
  show ?case
  proof (cases "x = y")
    case True
    with Cons.prems(1) obtain m where "find (\<lambda>m. m_address m = mi_address y) (ts_members st) = Some m"
      "m_identity m = y" "committed m"
      by (auto split: if_splits option.splits)
    with True show ?thesis using find_SomeD by fastforce
  next
    case False
    with Cons show ?thesis by (auto split: if_splits)
  qed
qed simp

lemma selected_address:
  assumes "ValidateSelectedMembers st xs = Inr ()" "distinct (map m_address (ts_members st))" "m \<in> set (ts_members st)"
  shows "m_address m \<in> mi_address ` set xs \<longleftrightarrow> m_identity m \<in> set xs"
proof
  assume "m_address m \<in> mi_address ` set xs"
  then obtain x where x: "x \<in> set xs" "mi_address x = m_address m" by auto
  obtain n where "n \<in> set (ts_members st)" "m_identity n = x" using ValidateSelected_spec [OF assms(1) x(1)] by blast
  then have "n = m" using assms(2,3) x(2) by (auto simp: distinct_map dest: inj_onD)
  with x \<open>m_identity n = x\<close> show "m_identity m \<in> set xs" by simp
qed auto

lemma set_member_state_names:
  "m_identity (set_member_state ex st m) = m_identity m" "m_tokens (set_member_state ex st m) = m_tokens m"
  by (simp_all add: set_member_state_def)

lemma shrunk_rings:
  assumes "valid_placement st" "BuildOwners (ts_members st) False [] False = Inr fo"
    "BuildOwners (ts_members st) False ex ao = Inr to"
  shows "ring_ok fo" "ring_ok to" "same_identity (fo @ to)" "set to \<subseteq> set fo"
    "set fo = ring_of committed (ts_members st)" "set to = ring_of (eligible_owner False ex ao) (ts_members st)"
proof -
  have d: "distinct (concat (map m_tokens (ts_members st)))" "distinct (map m_address (ts_members st))"
    using assms(1) by (simp_all add: valid_placement_def)
  note f = BuildOwners_ring [OF assms(2) d(1)] and t = BuildOwners_ring [OF assms(3) d(1)]
  show "ring_ok fo" "ring_ok to" "set fo = ring_of committed (ts_members st)"
    "set to = ring_of (eligible_owner False ex ao) (ts_members st)"
    using f t by (simp_all add: eligible_simps)
  show sub: "set to \<subseteq> set fo" unfolding f(2) t(2)
    by (rule ring_of_mono) (auto simp: eligible_owner_def IsCommittedMemberState_def split: if_splits)
  then show "same_identity (fo @ to)" using f(2) by (intro same_identityI [OF d(2)]) auto
qed

lemma shrunk_source:
  assumes "ring_ok fo" "ring_ok to" "set to \<subseteq> set fo" "owner_at fo t \<noteq> owner_at to t"
  shows "FindOwner fo t \<notin> set to"
proof
  assume "FindOwner fo t \<in> set to"
  then have "successor (set to) t (FindOwner fo t)"
    using successor_subset [OF FindOwner_successor [OF assms(1)] assms(3)] by blast
  then show False using FindOwner_eqI [OF assms(2)] assms(4) by metis
qed

lemma PlanScaleIn_cases:
  assumes "PlanScaleIn re input = Inr plan"
  obtains fo to where "valid_placement (si_current input)" "ValidateSelectedMembers (si_current input) (si_leaving input) = Inr ()"
    "BuildOwners (ts_members (si_current input)) False [] False = Inr fo"
    "BuildOwners (ts_members (si_current input)) False (map mi_address (si_leaving input)) False = Inr to"
    "plan = \<lparr> tp_next = (si_current input) \<lparr> ts_members :=
        map (set_member_state (map mi_address (si_leaving input)) PRE_LEAVING) (ts_members (si_current input)) \<rparr>,
      tp_ownerChanges = DiffOwners fo to \<rparr>"
  using assms by (auto simp: PlanScaleIn_def Validate_eq Let_def split: if_splits sum.splits)

lemma scale_in_plan_changes:
  assumes "PlanScaleIn re input = Inr plan"
    "successor (ring_of committed (ts_members (si_current input))) t v"
    "successor (ring_of (\<lambda>m. committed m \<and> m_identity m \<notin> set (si_leaving input)) (ts_members (si_current input))) t w"
  shows "((\<exists>c \<in> set (tp_ownerChanges plan). oc_source c = Some S \<and> oc_target c = T \<and> list_ex (in_range t) (oc_ranges c)) \<longleftrightarrow>
      S = to_identity v \<and> T = to_identity w \<and> S \<in> set (si_leaving input)) \<and>
    ts_members (tp_next plan) =
      map (\<lambda>m. if m_identity m \<in> set (si_leaving input) then m \<lparr> m_state := PRE_LEAVING \<rparr> else m)
        (ts_members (si_current input))"
proof -
  let ?ms = "ts_members (si_current input)" and ?ex = "map mi_address (si_leaving input)"
  from assms(1) obtain fo to where val: "valid_placement (si_current input)"
    and sel: "ValidateSelectedMembers (si_current input) (si_leaving input) = Inr ()"
    and b: "BuildOwners ?ms False [] False = Inr fo" "BuildOwners ?ms False ?ex False = Inr to"
    and plan: "plan = \<lparr> tp_next = (si_current input) \<lparr> ts_members := map (set_member_state ?ex PRE_LEAVING) ?ms \<rparr>,
      tp_ownerChanges = DiffOwners fo to \<rparr>"
    by (elim PlanScaleIn_cases)
  have d: "distinct (map m_address ?ms)" using val by (simp add: valid_placement_def)
  note r = shrunk_rings [OF val b]
  have leave: "m_address m \<in> set ?ex \<longleftrightarrow> m_identity m \<in> set (si_leaving input)" if "m \<in> set ?ms" for m
    using selected_address [OF sel d that] by simp
  have to: "set to = ring_of (\<lambda>m. committed m \<and> m_identity m \<notin> set (si_leaving input)) ?ms"
    unfolding r(6) eligible_simps ring_of_def using leave by blast
  have own: "FindOwner fo t = v" "FindOwner to t = w"
    using FindOwner_eqI [OF r(1)] FindOwner_eqI [OF r(2)] assms(2,3) r(5) to by simp_all
  obtain m where m: "m \<in> set ?ms" "committed m" "to_identity v = m_identity m" "to_token v \<in> set (m_tokens m)"
    using assms(2) by (auto simp: successor_def elim: ring_ofE)
  have w: "to_identity w \<notin> set (si_leaving input)"
    using assms(3) by (auto simp: successor_def elim!: ring_ofE)
  have "to_identity v \<in> set (si_leaving input)" if "to_identity v \<noteq> to_identity w"
  proof (rule ccontr)
    assume "to_identity v \<notin> set (si_leaving input)"
    then have "\<lparr> to_token = to_token v, to_identity = m_identity m \<rparr> \<in> set to"
      unfolding to ring_of_def using m by auto
    moreover have "\<lparr> to_token = to_token v, to_identity = m_identity m \<rparr> = v" using m(3) by (cases v) auto
    ultimately have "v \<in> set to" by simp
    then show False using shrunk_source [OF r(1,2,4), of t] that own by simp
  qed
  then have "S = to_identity v \<and> T = to_identity w \<and> S \<noteq> T \<longleftrightarrow>
      S = to_identity v \<and> T = to_identity w \<and> S \<in> set (si_leaving input)" using w by auto
  moreover have "map (set_member_state ?ex PRE_LEAVING) ?ms =
      map (\<lambda>m. if m_identity m \<in> set (si_leaving input) then m \<lparr> m_state := PRE_LEAVING \<rparr> else m) ?ms"
    using leave by (auto simp: set_member_state_def)
  ultimately show ?thesis
    using DiffOwners_iff [OF r(1-3), of S T t] by (simp add: plan own)
qed

text \<open>
  C30. Scale-in plans: an accepted plan moves exactly the tokens of the leaving members, each to its successor
  among the committed members that stay, marks exactly the leaving members as \<^verbatim>\<open>PRE_LEAVING\<close>, and keeps every
  other member as it was. A token owned by a member that stays is never moved.
\<close>

theorem scale_in_plan_exact:
  assumes "PlanScaleIn re input = Inr plan"
    "successor (ring_of committed (ts_members (si_current input))) t v"
    "successor (ring_of (\<lambda>m. committed m \<and> m_identity m \<notin> set (si_leaving input)) (ts_members (si_current input))) t w"
  shows "((\<exists>c \<in> set (tp_ownerChanges plan). oc_source c = Some S \<and> oc_target c = T \<and> list_ex (in_range t) (oc_ranges c)) \<longleftrightarrow>
      S = to_identity v \<and> T = to_identity w \<and> S \<in> set (si_leaving input)) \<and>
    ts_members (tp_next plan) =
      map (\<lambda>m. if m_identity m \<in> set (si_leaving input) then m \<lparr> m_state := PRE_LEAVING \<rparr> else m)
        (ts_members (si_current input))"
  by (rule scale_in_plan_changes [OF assms])

lemma PlanFailure_cases:
  assumes "PlanFailure re input = Inr plan"
  obtains fo to where "valid_placement (fp_current input)" "ValidateSelectedMembers (fp_current input) (fp_failed input) = Inr ()"
    "BuildOwners (ts_members (fp_current input)) False [] False = Inr fo"
    "BuildOwners (ts_members (fp_current input)) False (map mi_address (fp_failed input)) True = Inr to"
    "plan = \<lparr> tp_next = (fp_current input) \<lparr> ts_members :=
        map (set_member_state (map mi_address (fp_failed input)) FAILED) (ts_members (fp_current input)) \<rparr>,
      tp_ownerChanges = filter (\<lambda>c. \<not> (case oc_source c of None \<Rightarrow> True
          | Some s \<Rightarrow> mi_address s \<notin> set (map mi_address (fp_failed input)))) (DiffOwners fo to) \<rparr>"
  using assms by (auto simp: PlanFailure_def Validate_eq Let_def split: if_splits sum.splits)

lemma failure_plan_changes:
  assumes "PlanFailure re input = Inr plan"
    "successor (ring_of committed (ts_members (fp_current input))) t v"
    "successor (ring_of (\<lambda>m. m_state m = ACTIVE \<and> m_identity m \<notin> set (fp_failed input)) (ts_members (fp_current input))) t w"
  shows "((\<exists>c \<in> set (tp_ownerChanges plan). oc_source c = Some S \<and> oc_target c = T \<and> list_ex (in_range t) (oc_ranges c)) \<longleftrightarrow>
      S = to_identity v \<and> T = to_identity w \<and> S \<in> set (fp_failed input)) \<and>
    ts_members (tp_next plan) =
      map (\<lambda>m. if m_identity m \<in> set (fp_failed input) then m \<lparr> m_state := FAILED \<rparr> else m) (ts_members (fp_current input))"
proof -
  let ?ms = "ts_members (fp_current input)" and ?ex = "map mi_address (fp_failed input)"
  from assms(1) obtain fo to where val: "valid_placement (fp_current input)"
    and sel: "ValidateSelectedMembers (fp_current input) (fp_failed input) = Inr ()"
    and b: "BuildOwners ?ms False [] False = Inr fo" "BuildOwners ?ms False ?ex True = Inr to"
    and plan: "plan = \<lparr> tp_next = (fp_current input) \<lparr> ts_members := map (set_member_state ?ex FAILED) ?ms \<rparr>,
      tp_ownerChanges = filter (\<lambda>c. \<not> (case oc_source c of None \<Rightarrow> True | Some s \<Rightarrow> mi_address s \<notin> set ?ex)) (DiffOwners fo to) \<rparr>"
    by (elim PlanFailure_cases)
  have d: "distinct (map m_address ?ms)" using val by (simp add: valid_placement_def)
  note r = shrunk_rings [OF val b]
  have fail: "m_address m \<in> set ?ex \<longleftrightarrow> m_identity m \<in> set (fp_failed input)" if "m \<in> set ?ms" for m
    using selected_address [OF sel d that] by simp
  have to: "set to = ring_of (\<lambda>m. m_state m = ACTIVE \<and> m_identity m \<notin> set (fp_failed input)) ?ms"
    unfolding r(6) eligible_simps ring_of_def using fail by blast
  have own: "FindOwner fo t = v" "FindOwner to t = w"
    using FindOwner_eqI [OF r(1)] FindOwner_eqI [OF r(2)] assms(2,3) r(5) to by simp_all
  obtain m where m: "m \<in> set ?ms" "to_identity v = m_identity m"
    using assms(2) by (auto simp: successor_def elim: ring_ofE)
  have w: "to_identity w \<notin> set (fp_failed input)" using assms(3) by (auto simp: successor_def elim!: ring_ofE)
  have src: "mi_address (to_identity v) \<in> set ?ex \<longleftrightarrow> to_identity v \<in> set (fp_failed input)" using fail m by simp
  have "(\<exists>c \<in> set (tp_ownerChanges plan). oc_source c = Some S \<and> oc_target c = T \<and> list_ex (in_range t) (oc_ranges c)) \<longleftrightarrow>
      (\<exists>c \<in> set (DiffOwners fo to). oc_source c = Some S \<and> oc_target c = T \<and> list_ex (in_range t) (oc_ranges c)) \<and>
      mi_address S \<in> set ?ex"
    by (auto simp: plan)
  also have "\<dots> \<longleftrightarrow> S = to_identity v \<and> T = to_identity w \<and> S \<in> set (fp_failed input)"
    unfolding DiffOwners_iff [OF r(1-3)] own using src w by auto
  finally show ?thesis using fail by (auto simp: plan set_member_state_def)
qed

text \<open>
  C31. Failure plans: an accepted plan moves exactly the tokens of the failed members, each to its successor
  among the \<^verbatim>\<open>ACTIVE\<close> members that did not fail, and marks exactly the failed members as \<^verbatim>\<open>FAILED\<close>.
\<close>

theorem failure_plan_exact:
  assumes "PlanFailure re input = Inr plan"
    "successor (ring_of committed (ts_members (fp_current input))) t v"
    "successor (ring_of (\<lambda>m. m_state m = ACTIVE \<and> m_identity m \<notin> set (fp_failed input)) (ts_members (fp_current input))) t w"
  shows "((\<exists>c \<in> set (tp_ownerChanges plan). oc_source c = Some S \<and> oc_target c = T \<and> list_ex (in_range t) (oc_ranges c)) \<longleftrightarrow>
      S = to_identity v \<and> T = to_identity w \<and> S \<in> set (fp_failed input)) \<and>
    ts_members (tp_next plan) =
      map (\<lambda>m. if m_identity m \<in> set (fp_failed input) then m \<lparr> m_state := FAILED \<rparr> else m) (ts_members (fp_current input))"
  by (rule failure_plan_changes [OF assms])

section \<open>Locating the owner of a key\<close>

abbreviation entry_owner :: "32 word \<times> Member \<Rightarrow> TokenOwner" where
  "entry_owner e \<equiv> \<lparr> to_token = fst e, to_identity = m_identity (snd e) \<rparr>"

lemma LocateIndexedOwner_successor:
  assumes "es \<noteq> []" "sorted_wrt (<) (map fst es)"
  shows "\<exists>e \<in> set es. LocateIndexedOwner es t = Inr (snd e) \<and> successor (entry_owner ` set es) t (entry_owner e)"
proof -
  have ok: "ring_ok (map entry_owner es)" using assms by (simp add: ring_ok_def comp_def)
  note s = FindOwner_successor [OF ok, of t]
  have dw: "dropWhile (\<lambda>w. to_token w < t) (map entry_owner es) = map entry_owner (dropWhile (\<lambda>e. fst e < t) es)"
    by (simp add: dropWhile_map comp_def)
  show ?thesis
  proof (cases "dropWhile (\<lambda>e. fst e < t) es")
    case Nil
    have "hd es \<in> set es" using assms(1) by simp
    moreover have "LocateIndexedOwner es t = Inr (snd (hd es))"
      unfolding LocateIndexedOwner_def Nil using assms(1) by simp
    moreover have "FindOwner (map entry_owner es) t = entry_owner (hd es)"
      unfolding FindOwner_def dw Nil using assms(1) by (simp add: hd_map)
    ultimately show ?thesis using s by auto
  next
    case (Cons e r)
    have "e \<in> set es" using Cons by (metis list.set_intros(1) set_dropWhileD)
    moreover have "LocateIndexedOwner es t = Inr (snd e)" using Cons assms(1) by (simp add: LocateIndexedOwner_def)
    moreover have "FindOwner (map entry_owner es) t = entry_owner e"
      unfolding FindOwner_def dw Cons by simp
    ultimately show ?thesis using s by auto
  qed
qed

lemma token_owners_ring: "entry_owner ` set (sort_key fst (token_owners P ms)) = ring_of (\<lambda>m. P (m_state m)) ms"
  by (auto simp: token_owners_def ring_of_def image_iff)

definition locates :: "Member result \<Rightarrow> (Member \<Rightarrow> bool) \<Rightarrow> Member list \<Rightarrow> 32 word \<Rightarrow> bool" where
  "locates r P ms t \<longleftrightarrow>
     (case r of
        Inl e \<Rightarrow> e = K_NOT_READY \<and> ring_of P ms = {}
      | Inr m \<Rightarrow> m \<in> set ms \<and> P m \<and>
          (\<exists>p \<in> set (m_tokens m). successor (ring_of P ms) t \<lparr> to_token = p, to_identity = m_identity m \<rparr>))"

lemma token_owners_locate:
  assumes "distinct (concat (map m_tokens ms))"
  shows "locates (LocateIndexedOwner (sort_key fst (token_owners P ms)) t) (\<lambda>m. P (m_state m)) ms t"
proof (cases "sort_key fst (token_owners P ms) = []")
  case True
  then have "ring_of (\<lambda>m. P (m_state m)) ms = {}" unfolding token_owners_ring [symmetric] by simp
  then show ?thesis by (simp add: locates_def LocateIndexedOwner_def True)
next
  case False
  have "distinct (map fst (sort_key fst (token_owners P ms)))"
    unfolding distinct_map_sort_key map_fst_token_owners by (rule distinct_concat_filter [OF assms])
  then have "sorted_wrt (<) (map fst (sort_key fst (token_owners P ms)))" by (simp add: strict_sorted_iff)
  from LocateIndexedOwner_successor [OF False this, of t] obtain p m
    where "(p, m) \<in> set (token_owners P ms)"
      "LocateIndexedOwner (sort_key fst (token_owners P ms)) t = Inr m"
      "successor (ring_of (\<lambda>m. P (m_state m)) ms) t \<lparr> to_token = p, to_identity = m_identity m \<rparr>"
    unfolding token_owners_ring by auto
  then show ?thesis by (auto simp: locates_def set_token_owners)
qed

definition prospective :: "TopologyState \<Rightarrow> Member \<Rightarrow> bool" where
  "prospective st m \<longleftrightarrow> IsProspective (m_state m) (ts_activeBatch st)"

lemma locate_owner_ring:
  assumes "Create re st rv dig = Inr s"
  shows "locates (LocateOwner s t) committed (ts_members (sn_state s)) t \<and>
    locates (LocateProspectiveOwner s t)
      (if ring_of (prospective st) (ts_members (sn_state s)) = {} then committed else prospective st)
      (ts_members (sn_state s)) t"
proof -
  from assms obtain s: "s = snapshot_of (canonical st) rv dig" and v: "valid_topology re (canonical st)"
    by (rule created_snapshot)
  let ?ms = "ts_members (canonical st)"
  have d: "distinct (concat (map m_tokens ?ms))" using v by (simp add: valid_topology_def)
  note loc = token_owners_locate [OF d]
  have c: "sn_committedTokenOwners s = sort_key fst (token_owners IsCommittedMemberState ?ms)"
    and p: "sn_prospectiveTokenOwners s = sort_key fst (token_owners (\<lambda>x. IsProspective x (ts_activeBatch st)) ?ms)"
    by (simp_all add: s snapshot_of_def)
  have pr: "prospective st = (\<lambda>m. IsProspective (m_state m) (ts_activeBatch st))"
    by (simp add: fun_eq_iff prospective_def)
  have "ring_of (prospective st) ?ms = entry_owner ` set (sn_prospectiveTokenOwners s)"
    unfolding pr p by (rule token_owners_ring [symmetric])
  then have e: "sn_prospectiveTokenOwners s = [] \<longleftrightarrow> ring_of (prospective st) ?ms = {}" by simp
  have "locates (LocateOwner s t) committed ?ms t" unfolding LocateOwner_def c by (rule loc)
  moreover have "locates (LocateIndexedOwner (sn_prospectiveTokenOwners s) t) (prospective st) ?ms t"
    unfolding p pr by (rule loc)
  ultimately show ?thesis
    by (simp add: s LocateProspectiveOwner_def e [unfolded s] LocateOwner_def [symmetric])
qed

text \<open>
  C32. Owner lookup: on a created snapshot the owner of a token is the committed member holding the first
  committed token at or clockwise after it, and \<^verbatim>\<open>K_NOT_READY\<close> is returned exactly when no committed token
  exists. The prospective owner is the same over the tokens of the members that hold data after the active
  batch, falling back to the committed ring when there are none.
\<close>

theorem locate_owner_exact:
  assumes "Create re st rv dig = Inr s"
  shows "locates (LocateOwner s t) committed (ts_members (sn_state s)) t \<and>
    locates (LocateProspectiveOwner s t)
      (if ring_of (prospective st) (ts_members (sn_state s)) = {} then committed else prospective st)
      (ts_members (sn_state s)) t"
  by (rule locate_owner_ring [OF assms])

section \<open>Concrete plans\<close>

definition sample_placement :: TopologyState where
  "sample_placement =
     \<lparr> ts_clusterHasInit = True, ts_version = 3,
       ts_members = [sample_member (CHR ''a'') ''10.0.0.1:80'' ACTIVE [10, 0x80000000],
                     sample_member (CHR ''b'') ''10.0.0.2:80'' ACTIVE [25]],
       ts_activeBatch = None \<rparr>"

definition sample_identity :: "char \<Rightarrow> string \<Rightarrow> MemberIdentity" where
  "sample_identity c a = \<lparr> mi_id = sample_id c, mi_address = a \<rparr>"

definition identity_a :: MemberIdentity where "identity_a = sample_identity (CHR ''a'') ''10.0.0.1:80''"
definition identity_b :: MemberIdentity where "identity_b = sample_identity (CHR ''b'') ''10.0.0.2:80''"
definition identity_c :: MemberIdentity where "identity_c = sample_identity (CHR ''c'') ''10.0.0.3:80''"

definition sample_join :: ScaleOutPlanInput where
  "sample_join = \<lparr> so_current = sample_placement, so_joining = [identity_c], so_tokensPerMember = 1 \<rparr>"

lemma successor_list: "successor (set ws) t w \<longleftrightarrow> w \<in> set ws \<and> list_all (\<lambda>x. to_token w - t \<le> to_token x - t) ws"
  by (simp add: successor_def list_all_iff)

lemmas successor_eval = set_owner_list [symmetric] successor_list

definition joined_plan :: TopologyPlan where
  "joined_plan =
     \<lparr> tp_next = sample_placement \<lparr> ts_members := ts_members sample_placement @
         [sample_member (CHR ''c'') ''10.0.0.3:80'' JOINING [3127273450]] \<rparr>,
       tp_ownerChanges = [\<lparr> oc_source = Some identity_a, oc_target = identity_c,
         oc_ranges = [\<lparr> tr_from = 2147483649, tr_end = 3127273450 \<rparr>] \<rparr>] \<rparr>"

lemma sample_joined: "PlanScaleOut re2_model sample_join = Inr joined_plan"
  by code_simp

lemma sample_successors:
  "successor (ring_of committed (ts_members (so_current sample_join))) 3000000000 \<lparr> to_token = 10, to_identity = identity_a \<rparr>"
  "successor (ring_of (\<lambda>m. committed m \<or> m_state m = JOINING) (ts_members (tp_next joined_plan))) 3000000000
     \<lparr> to_token = 3127273450, to_identity = identity_c \<rparr>"
  unfolding successor_eval by code_simp+

theorem scale_out_plan_exact_witness:
  "\<exists>c. c \<in> set (tp_ownerChanges joined_plan) \<and> oc_source c = Some identity_a \<and> oc_target c = identity_c \<and>
     list_ex (in_range 3000000000) (oc_ranges c)"
proof -
  have "identity_a \<noteq> identity_c" by code_simp
  then show ?thesis
    using scale_out_plan_exact [OF sample_joined sample_successors, of identity_a identity_c] by auto
qed

lemma scale_out_only_to_joining_witness:
  "\<exists>m. m \<in> set (ts_members (tp_next joined_plan)) \<and> m_identity m = oc_target (hd (tp_ownerChanges joined_plan)) \<and>
     m_state m = JOINING"
proof -
  have "hd (tp_ownerChanges joined_plan) \<in> set (tp_ownerChanges joined_plan)" by (simp add: joined_plan_def)
  from scale_out_only_to_joining [OF sample_joined this] show ?thesis by auto
qed

definition sample_leave :: ScaleInPlanInput where
  "sample_leave = \<lparr> si_current = sample_placement, si_leaving = [identity_b] \<rparr>"

definition left_plan :: TopologyPlan where
  "left_plan =
     \<lparr> tp_next = sample_placement \<lparr> ts_members :=
         [sample_member (CHR ''a'') ''10.0.0.1:80'' ACTIVE [10, 0x80000000],
          sample_member (CHR ''b'') ''10.0.0.2:80'' PRE_LEAVING [25]] \<rparr>,
       tp_ownerChanges = [\<lparr> oc_source = Some identity_b, oc_target = identity_a,
         oc_ranges = [\<lparr> tr_from = 11, tr_end = 25 \<rparr>] \<rparr>] \<rparr>"

lemma sample_left: "PlanScaleIn re2_model sample_leave = Inr left_plan"
  by code_simp

lemma leave_successors:
  "successor (ring_of committed (ts_members (si_current sample_leave))) 12 \<lparr> to_token = 25, to_identity = identity_b \<rparr>"
  "successor (ring_of (\<lambda>m. committed m \<and> m_identity m \<notin> set (si_leaving sample_leave)) (ts_members (si_current sample_leave))) 12
     \<lparr> to_token = 0x80000000, to_identity = identity_a \<rparr>"
  unfolding successor_eval by code_simp+

theorem scale_in_plan_exact_witness:
  "\<exists>c. c \<in> set (tp_ownerChanges left_plan) \<and> oc_source c = Some identity_b \<and> oc_target c = identity_a \<and>
     list_ex (in_range 12) (oc_ranges c)"
proof -
  have "identity_b \<in> set (si_leaving sample_leave)" by (simp add: sample_leave_def)
  then show ?thesis using scale_in_plan_exact [OF sample_left leave_successors, of identity_b identity_a] by auto
qed

definition sample_fail :: FailurePlanInput where
  "sample_fail = \<lparr> fp_current = sample_placement, fp_failed = [identity_b] \<rparr>"

definition failed_plan :: TopologyPlan where
  "failed_plan =
     \<lparr> tp_next = sample_placement \<lparr> ts_members :=
         [sample_member (CHR ''a'') ''10.0.0.1:80'' ACTIVE [10, 0x80000000],
          sample_member (CHR ''b'') ''10.0.0.2:80'' FAILED [25]] \<rparr>,
       tp_ownerChanges = [\<lparr> oc_source = Some identity_b, oc_target = identity_a,
         oc_ranges = [\<lparr> tr_from = 11, tr_end = 25 \<rparr>] \<rparr>] \<rparr>"

lemma sample_failed: "PlanFailure re2_model sample_fail = Inr failed_plan"
  by code_simp

lemma fail_successors:
  "successor (ring_of committed (ts_members (fp_current sample_fail))) 12 \<lparr> to_token = 25, to_identity = identity_b \<rparr>"
  "successor (ring_of (\<lambda>m. m_state m = ACTIVE \<and> m_identity m \<notin> set (fp_failed sample_fail)) (ts_members (fp_current sample_fail))) 12
     \<lparr> to_token = 0x80000000, to_identity = identity_a \<rparr>"
  unfolding successor_eval by code_simp+

theorem failure_plan_exact_witness:
  "\<exists>c. c \<in> set (tp_ownerChanges failed_plan) \<and> oc_source c = Some identity_b \<and> oc_target c = identity_a \<and>
     list_ex (in_range 12) (oc_ranges c)"
proof -
  have "identity_b \<in> set (fp_failed sample_fail)" by (simp add: sample_fail_def)
  then show ?thesis using failure_plan_exact [OF sample_failed fail_successors, of identity_b identity_a] by auto
qed

definition ring_ab :: "TokenOwner list" where
  "ring_ab = [\<lparr> to_token = 10, to_identity = identity_a \<rparr>, \<lparr> to_token = 25, to_identity = identity_b \<rparr>]"

theorem DiffOwners_exact_witness:
  "\<exists>c. c \<in> set (DiffOwners [hd ring_ab] ring_ab) \<and> oc_source c = Some identity_a \<and> oc_target c = identity_b \<and>
     list_ex (in_range 20) (oc_ranges c)"
proof -
  have "ring_ok [hd ring_ab]" "ring_ok ring_ab" by code_simp+
  moreover have "same_identity ([hd ring_ab] @ ring_ab)" by code_simp
  moreover have "identity_a = owner_at [hd ring_ab] 20 \<and> identity_b = owner_at ring_ab 20 \<and> identity_a \<noteq> identity_b"
    by code_simp
  ultimately show ?thesis using DiffOwners_exact [of "[hd ring_ab]" ring_ab identity_a identity_b 20] by auto
qed

theorem locate_owner_exact_witness:
  "\<exists>s m. sample_snapshot = Inr s \<and> LocateOwner s 21 = Inr m \<and> m_address m = ''10.0.0.2:80''"
proof -
  define s where "s = snapshot_of (canonical sample_state) 5 (replicate 64 (CHR ''a''))"
  have s: "sample_snapshot = Inr s" unfolding s_def by (rule sample_created)
  have ms: "ts_members (sn_state s) = [sample_member (CHR ''a'') ''10.0.0.1:80'' ACTIVE [10, 20],
      sample_member (CHR ''b'') ''10.0.0.2:80'' ACTIVE [25], sample_member (CHR ''c'') ''10.0.0.3:80'' JOINING [6, 30]]"
    by (simp add: s_def sample_members)
  let ?w = "\<lparr> to_token = 25, to_identity = identity_b \<rparr> :: TokenOwner"
  let ?r = "ring_of committed (ts_members (sn_state s))"
  have w: "successor ?r 21 ?w" unfolding ms successor_eval by code_simp
  have inj: "inj_on to_token ?r" unfolding ms set_owner_list [symmetric] by (rule ring_ok_inj) code_simp
  note l = locate_owner_exact [OF s, of 21, THEN conjunct1]
  have "?r \<noteq> {}" using w by (auto simp: successor_def)
  with l obtain m p where m: "LocateOwner s 21 = Inr m" "successor ?r 21 \<lparr> to_token = p, to_identity = m_identity m \<rparr>"
    by (auto simp: locates_def split: sum.splits)
  from successor_unique [OF inj m(2) w] have "m_identity m = identity_b" by simp
  then show ?thesis using s m(1) by (simp add: identity_b_def sample_identity_def)
qed

section \<open>Bootstrap\<close>

definition allocated_for :: "nat \<Rightarrow> (string \<rightharpoonup> 32 word list) \<Rightarrow> MemberIdentity \<Rightarrow> 32 word list" where
  "allocated_for n al x = (case al (mi_address x) of None \<Rightarrow> [] | Some ts \<Rightarrow> ts)"

lemma allocate_loop_keeps:
  assumes "allocate_loop n xs occ al = Inr al'" "a \<notin> mi_address ` set xs"
  shows "al' a = al a"
  using assms by (induction xs arbitrary: occ al) (auto split: sum.splits)

lemma allocate_loop_spec:
  assumes "allocate_loop n xs occ al = Inr al'" "distinct (map mi_address xs)"
  shows "(\<forall>x \<in> set xs. length (allocated_for n al' x) = n \<and> sorted (allocated_for n al' x)) \<and>
    distinct (concat (map (allocated_for n al') xs)) \<and> set (concat (map (allocated_for n al') xs)) \<inter> set occ = {}"
  using assms
proof (induction xs arbitrary: occ al)
  case (Cons x xs)
  from Cons.prems(1) obtain ts occ' where g: "GenerateTokens x n occ = Inr (ts, occ')"
    and r: "allocate_loop n xs occ' (al(mi_address x \<mapsto> ts)) = Inr al'"
    by (auto split: sum.splits)
  have "al' (mi_address x) = Some ts" using allocate_loop_keeps [OF r, of "mi_address x"] Cons.prems(2) by simp
  then have x: "allocated_for n al' x = ts" by (simp add: allocated_for_def)
  from GenerateTokens_spec [OF g] Cons.IH [OF r] Cons.prems(2) x show ?case by auto
qed simp

lemma BuildInitialPlacement_cases:
  assumes "BuildInitialPlacement re input = Inr plan"
  obtains al where "ts_members (so_current input) = []" "so_joining input \<noteq> []" "so_tokensPerMember input > 0"
    "ValidateIdentities re (so_joining input) = Inr ()"
    "allocate_loop (so_tokensPerMember input) (sort_key mi_address (so_joining input)) [] Map.empty = Inr al"
    "tp_next plan = (so_current input) \<lparr> ts_clusterHasInit := True, ts_members :=
       map (\<lambda>x. \<lparr> m_identity = x, m_state = ACTIVE, m_tokens = allocated_for (so_tokensPerMember input) al x \<rparr>)
         (sort_key mi_address (so_joining input)) \<rparr>"
    "tp_ownerChanges plan = []"
  using assms
  by (auto simp: BuildInitialPlacement_def AllocateTokens_def allocated_for_def Let_def split: if_splits sum.splits)

lemma initial_placement:
  assumes "BuildInitialPlacement re input = Inr plan"
  shows "map m_identity (ts_members (tp_next plan)) = sort_key mi_address (so_joining input)"
    and "list_all (\<lambda>m. m_state m = ACTIVE \<and> length (m_tokens m) = so_tokensPerMember input) (ts_members (tp_next plan))"
    and "ts_clusterHasInit (tp_next plan)" and "tp_ownerChanges plan = []"
proof -
  from assms obtain al where a: "ValidateIdentities re (so_joining input) = Inr ()"
    "allocate_loop (so_tokensPerMember input) (sort_key mi_address (so_joining input)) [] Map.empty = Inr al"
    and n: "tp_next plan = (so_current input) \<lparr> ts_clusterHasInit := True, ts_members :=
       map (\<lambda>x. \<lparr> m_identity = x, m_state = ACTIVE, m_tokens = allocated_for (so_tokensPerMember input) al x \<rparr>)
         (sort_key mi_address (so_joining input)) \<rparr>"
    and o: "tp_ownerChanges plan = []"
    by (rule BuildInitialPlacement_cases)
  have "distinct (map mi_address (sort_key mi_address (so_joining input)))"
    using a(1) by (simp add: ValidateIdentities_def identity_loop_eq distinct_map_sort_key split: if_splits)
  with allocate_loop_spec [OF a(2)] show
    "list_all (\<lambda>m. m_state m = ACTIVE \<and> length (m_tokens m) = so_tokensPerMember input) (ts_members (tp_next plan))"
    by (simp add: n list_all_iff)
  show "map m_identity (ts_members (tp_next plan)) = sort_key mi_address (so_joining input)"
    "ts_clusterHasInit (tp_next plan)" "tp_ownerChanges plan = []"
    by (simp_all add: n o comp_def)
qed

end
