(* ===== verification/Plan_Builder.thy ===== *)
theory Plan_Builder
  imports Hash_Ring
begin

text \<open>
  The construction of topology transitions of \<^verbatim>\<open>cluster/control/topology_plan_builder.cpp\<close>: bootstrap, start,
  replan and finalisation of scale-out, scale-in and failure batches, and cluster shutdown.

  The planning algorithm is the interface \<^verbatim>\<open>IPlanningAlgorithm\<close> of \<^verbatim>\<open>cluster/algorithm/topology_algorithm.h\<close>: a
  record of its virtual functions. The locale \<open>planning_algorithm\<close> states what the builder needs of them, and
  the hash algorithm of \<^verbatim>\<open>Hash_Ring\<close> is its instance. The gflag \<^verbatim>\<open>hash_ring_tokens_per_member\<close> is the argument
  \<open>tokens_flag\<close>. Sets of addresses are lists.
\<close>

section \<open>The planning interface\<close>

record IPlanningAlgorithm =
  alg_BuildInitialPlacement :: "ScaleOutPlanInput \<Rightarrow> TopologyPlan result"
  alg_PlanScaleOut :: "ScaleOutPlanInput \<Rightarrow> TopologyPlan result"
  alg_PlanScaleIn :: "ScaleInPlanInput \<Rightarrow> TopologyPlan result"
  alg_PlanFailure :: "FailurePlanInput \<Rightarrow> TopologyPlan result"
  alg_Validate :: "TopologyState \<Rightarrow> unit result"

definition HashAlgorithm :: "re2 \<Rightarrow> IPlanningAlgorithm" where
  "HashAlgorithm re =
     \<lparr> alg_BuildInitialPlacement = BuildInitialPlacement re, alg_PlanScaleOut = PlanScaleOut re,
       alg_PlanScaleIn = PlanScaleIn re, alg_PlanFailure = PlanFailure re, alg_Validate = Validate \<rparr>"

section \<open>Helpers\<close>

definition SameIdentity :: "Member \<Rightarrow> MemberIdentity \<Rightarrow> bool" where
  "SameIdentity m identity \<longleftrightarrow> m_identity m = identity"

fun selected_loop :: "TopologyState \<Rightarrow> MemberState \<Rightarrow> MemberIdentity list \<Rightarrow> string list \<Rightarrow> unit result" where
  "selected_loop latest st [] addresses = Inr ()"
| "selected_loop latest st (identity # rest) addresses =
     (if \<not> (case find (\<lambda>m. SameIdentity m identity) (ts_members latest) of
              None \<Rightarrow> False
            | Some m \<Rightarrow> m_state m = st) then Inl K_INVALID
      else if mi_address identity \<in> set addresses then Inl K_INVALID
      else selected_loop latest st rest (mi_address identity # addresses))"

definition ValidateSelected :: "TopologyState \<Rightarrow> MemberIdentity list \<Rightarrow> MemberState \<Rightarrow> unit result" where
  "ValidateSelected latest selected st =
     (if selected = [] then Inl K_INVALID else selected_loop latest st selected [])"

definition AdvanceEpoch :: "TopologyState \<Rightarrow> TopologyChangeType \<Rightarrow> TopologyPlan \<Rightarrow> TopologyPlan" where
  "AdvanceEpoch latest type plan =
     plan \<lparr> tp_next := (tp_next plan) \<lparr> ts_version := ts_version latest + 1,
       ts_activeBatch := Some \<lparr> ab_type = type, ab_epoch = ts_version latest + 1 \<rparr> \<rparr> \<rparr>"

definition MembersInState :: "TopologyState \<Rightarrow> MemberState \<Rightarrow> MemberIdentity list" where
  "MembersInState state selected = map m_identity (filter (\<lambda>m. m_state m = selected) (ts_members state))"

definition RemoveMembers :: "TopologyState \<Rightarrow> string list \<Rightarrow> TopologyState" where
  "RemoveMembers state addresses =
     state \<lparr> ts_members := filter (\<lambda>m. m_address m \<notin> set addresses) (ts_members state) \<rparr>"

definition ValidateBatch :: "TopologyState \<Rightarrow> TopologyChangeType \<Rightarrow> unit result" where
  "ValidateBatch latest type =
     (case ts_activeBatch latest of
        None \<Rightarrow> Inl K_INVALID
      | Some b \<Rightarrow> if ab_type b = type then Inr () else Inl K_INVALID)"

definition empty_topology :: TopologyState where
  "empty_topology = \<lparr> ts_clusterHasInit = False, ts_version = 0, ts_members = [], ts_activeBatch = None \<rparr>"

section \<open>Transitions\<close>

definition BuildBootstrap ::
  "IPlanningAlgorithm \<Rightarrow> nat \<Rightarrow> TopologyState \<Rightarrow> MemberIdentity list \<Rightarrow> TopologyState result" where
  "BuildBootstrap alg tokens_flag latest ready =
     (if \<not> (\<not> list_ex (\<lambda>m. IsCommittedMemberState (m_state m)) (ts_members latest) \<and> ts_activeBatch latest = None)
      then Inl K_INVALID
      else case ValidateSelected latest ready INITIAL of
        Inl e \<Rightarrow> Inl e
      | Inr _ \<Rightarrow>
      (case alg_BuildInitialPlacement alg
              \<lparr> so_current = empty_topology, so_joining = ready, so_tokensPerMember = tokens_flag \<rparr> of
        Inl e \<Rightarrow> Inl e
      | Inr built \<Rightarrow>
          let readyAddresses = map mi_address ready;
              next = (tp_next built) \<lparr>
                ts_members := ts_members (tp_next built) @
                  filter (\<lambda>m. m_address m \<notin> set readyAddresses) (ts_members latest),
                ts_version := ts_version latest + 1,
                ts_clusterHasInit := ts_clusterHasInit latest \<or> ts_clusterHasInit (tp_next built) \<rparr>
          in case alg_Validate alg next of Inl e \<Rightarrow> Inl e | Inr _ \<Rightarrow> Inr next))"

definition BuildScaleOutStart ::
  "IPlanningAlgorithm \<Rightarrow> nat \<Rightarrow> TopologyState \<Rightarrow> MemberIdentity list \<Rightarrow> TopologyPlan result" where
  "BuildScaleOutStart alg tokens_flag latest selected =
     (if \<not> (ts_clusterHasInit latest \<and> ts_activeBatch latest = None) then Inl K_INVALID
      else case ValidateSelected latest selected INITIAL of
        Inl e \<Rightarrow> Inl e
      | Inr _ \<Rightarrow>
      (case alg_PlanScaleOut alg
              \<lparr> so_current = RemoveMembers latest (map mi_address selected), so_joining = selected,
                so_tokensPerMember = tokens_flag \<rparr> of
        Inl e \<Rightarrow> Inl e
      | Inr built \<Rightarrow>
          let built = AdvanceEpoch latest SCALE_OUT built
          in case alg_Validate alg (tp_next built) of Inl e \<Rightarrow> Inl e | Inr _ \<Rightarrow> Inr built))"

definition BuildScaleOutReplan ::
  "IPlanningAlgorithm \<Rightarrow> nat \<Rightarrow> TopologyState \<Rightarrow> MemberIdentity list \<Rightarrow> TopologyPlan result" where
  "BuildScaleOutReplan alg tokens_flag latest failedJoining =
     (case ValidateBatch latest SCALE_OUT of
        Inl e \<Rightarrow> Inl e
      | Inr _ \<Rightarrow>
      (case ValidateSelected latest failedJoining JOINING of
        Inl e \<Rightarrow> Inl e
      | Inr _ \<Rightarrow>
          let retained = RemoveMembers latest (map mi_address failedJoining);
              joining = MembersInState retained JOINING
          in if joining \<noteq> []
             then (case alg_PlanScaleOut alg
                          \<lparr> so_current = retained, so_joining = joining, so_tokensPerMember = tokens_flag \<rparr> of
                     Inl e \<Rightarrow> Inl e
                   | Inr built \<Rightarrow> Inr (AdvanceEpoch latest SCALE_OUT built))
             else Inr \<lparr> tp_next = retained \<lparr> ts_version := ts_version latest + 1, ts_activeBatch := None \<rparr>,
                        tp_ownerChanges = [] \<rparr>))"

definition start_leaving :: "MemberIdentity list \<Rightarrow> Member \<Rightarrow> Member" where
  "start_leaving selected m =
     (if m_state m = PRE_LEAVING \<and> m_identity m \<in> set selected then m \<lparr> m_state := LEAVING \<rparr> else m)"

definition BuildScaleInStart :: "IPlanningAlgorithm \<Rightarrow> TopologyState \<Rightarrow> MemberIdentity list \<Rightarrow> TopologyPlan result" where
  "BuildScaleInStart alg latest selected =
     (if \<not> (ts_clusterHasInit latest \<and> ts_activeBatch latest = None) then Inl K_INVALID
      else case ValidateSelected latest selected PRE_LEAVING of
        Inl e \<Rightarrow> Inl e
      | Inr _ \<Rightarrow>
      (case alg_PlanScaleIn alg \<lparr> si_current = latest, si_leaving = selected \<rparr> of
        Inl e \<Rightarrow> Inl e
      | Inr built \<Rightarrow>
          Inr (AdvanceEpoch latest SCALE_IN
            (built \<lparr> tp_next := (tp_next built) \<lparr> ts_members :=
               map (start_leaving selected) (ts_members (tp_next built)) \<rparr> \<rparr>))))"

definition fail_member :: "string list \<Rightarrow> Member \<Rightarrow> Member" where
  "fail_member failedAddresses m = (if m_address m \<in> set failedAddresses then m \<lparr> m_state := FAILED \<rparr> else m)"

definition revive_failed :: "Member \<Rightarrow> Member" where
  "revive_failed m = (if m_state m = FAILED then m \<lparr> m_state := ACTIVE \<rparr> else m)"

fun update_first :: "('a \<Rightarrow> bool) \<Rightarrow> ('a \<Rightarrow> 'a) \<Rightarrow> 'a list \<Rightarrow> 'a list" where
  "update_first P f [] = []"
| "update_first P f (x # xs) = (if P x then f x # xs else x # update_first P f xs)"

definition preserve_fact :: "string list \<Rightarrow> Member list \<Rightarrow> Member \<Rightarrow> Member list" where
  "preserve_fact failedAddresses ms member =
     (if (m_state member = JOINING \<or> m_state member = LEAVING) \<and> m_address member \<notin> set failedAddresses
      then update_first (\<lambda>n. m_identity n = m_identity member) (\<lambda>n. n \<lparr> m_state := m_state member \<rparr>) ms
      else ms)"

definition BuildFailureStartOrReplan ::
  "IPlanningAlgorithm \<Rightarrow> TopologyState \<Rightarrow> MemberIdentity list \<Rightarrow> TopologyPlan result" where
  "BuildFailureStartOrReplan alg latest confirmed =
     (if \<not> ts_clusterHasInit latest then Inl K_INVALID
      else if list_ex (\<lambda>m. m_state m = FAILED \<and> m_identity m \<notin> set confirmed) (ts_members latest) then Inl K_INVALID
      else
      let planning = latest \<lparr> ts_members := map revive_failed (ts_members latest) \<rparr>;
          failedAddresses = map mi_address confirmed;
          hasHealthyOwner = list_ex (\<lambda>m. m_state m = ACTIVE \<and> m_address m \<notin> set failedAddresses) (ts_members latest)
      in if \<not> hasHealthyOwner
         then Inr (AdvanceEpoch latest FAILURE
                \<lparr> tp_next = latest \<lparr> ts_members := map (fail_member failedAddresses) (ts_members latest) \<rparr>,
                  tp_ownerChanges = [] \<rparr>)
         else case alg_PlanFailure alg \<lparr> fp_current = planning, fp_failed = confirmed \<rparr> of
                Inl e \<Rightarrow> Inl e
              | Inr built \<Rightarrow>
                  Inr (AdvanceEpoch latest FAILURE
                    (built \<lparr> tp_next := (tp_next built) \<lparr> ts_members :=
                       foldl (preserve_fact failedAddresses) (ts_members (tp_next built)) (ts_members latest) \<rparr> \<rparr>)))"

definition activate_joining :: "Member \<Rightarrow> Member" where
  "activate_joining m = (if m_state m = JOINING then m \<lparr> m_state := ACTIVE \<rparr> else m)"

definition BuildScaleOutFinal :: "TopologyState \<Rightarrow> TopologyState result" where
  "BuildScaleOutFinal latest =
     (case ValidateBatch latest SCALE_OUT of
        Inl e \<Rightarrow> Inl e
      | Inr _ \<Rightarrow>
          if MembersInState latest JOINING = [] then Inl K_INVALID
          else Inr (latest \<lparr> ts_members := map activate_joining (ts_members latest),
                      ts_version := ts_version latest + 1, ts_activeBatch := None \<rparr>))"

definition BuildScaleInFinal :: "TopologyState \<Rightarrow> TopologyState result" where
  "BuildScaleInFinal latest =
     (case ValidateBatch latest SCALE_IN of
        Inl e \<Rightarrow> Inl e
      | Inr _ \<Rightarrow>
          let leaving = MembersInState latest LEAVING
          in if leaving = [] then Inl K_INVALID
             else Inr ((RemoveMembers latest (map mi_address leaving))
                    \<lparr> ts_version := ts_version latest + 1, ts_activeBatch := None \<rparr>))"

definition BuildFailureFinal :: "TopologyState \<Rightarrow> TopologyState result" where
  "BuildFailureFinal latest =
     (case ValidateBatch latest FAILURE of
        Inl e \<Rightarrow> Inl e
      | Inr _ \<Rightarrow>
          let failed = MembersInState latest FAILED
          in if failed = [] then Inl K_INVALID
             else
             let built = RemoveMembers latest (map mi_address failed);
                 committed = length (filter (\<lambda>m. m_state m = ACTIVE \<or> m_state m = LEAVING \<or> m_state m = PRE_LEAVING)
                               (ts_members built));
                 built =
                   (if committed = 0 then built \<lparr> ts_members := [], ts_activeBatch := None \<rparr>
                    else if MembersInState built JOINING \<noteq> []
                    then built \<lparr> ts_activeBatch := Some \<lparr> ab_type = SCALE_OUT, ab_epoch = ts_version latest + 1 \<rparr> \<rparr>
                    else if MembersInState built LEAVING \<noteq> []
                    then built \<lparr> ts_activeBatch := Some \<lparr> ab_type = SCALE_IN, ab_epoch = ts_version latest + 1 \<rparr> \<rparr>
                    else built \<lparr> ts_activeBatch := None \<rparr>)
             in Inr (built \<lparr> ts_version := ts_version latest + 1 \<rparr>))"

definition BuildClusterShutdownFinal :: "TopologyState \<Rightarrow> TopologyState result" where
  "BuildClusterShutdownFinal latest =
     (if ts_members latest = [] then Inl K_INVALID
      else if \<not> list_all (\<lambda>m. m_state m = PRE_LEAVING \<or> m_state m = LEAVING) (ts_members latest) then Inl K_INVALID
      else Inr (latest \<lparr> ts_version := ts_version latest + 1, ts_members := [], ts_activeBatch := None \<rparr>))"

section \<open>What the builder relies on\<close>

definition mark :: "MemberIdentity set \<Rightarrow> MemberState \<Rightarrow> Member \<Rightarrow> Member" where
  "mark X st m = (if m_identity m \<in> X then m \<lparr> m_state := st \<rparr> else m)"

lemma mark_simps [simp]:
  "m_identity (mark X st m) = m_identity m" "m_tokens (mark X st m) = m_tokens m"
  "m_state (mark X st m) = (if m_identity m \<in> X then st else m_state m)"
  by (simp_all add: mark_def)

locale planning_algorithm =
  fixes alg :: IPlanningAlgorithm
  assumes initial_law: "alg_BuildInitialPlacement alg input = Inr plan \<Longrightarrow>
      ts_activeBatch (tp_next plan) = ts_activeBatch (so_current input) \<and>
      m_identity ` set (ts_members (tp_next plan)) = set (so_joining input) \<and>
      (\<forall>m \<in> set (ts_members (tp_next plan)). m_state m = ACTIVE \<and> m_tokens m \<noteq> [])"
    and scale_out_law: "alg_PlanScaleOut alg input = Inr plan \<Longrightarrow>
      \<exists>new. tp_next plan = (so_current input) \<lparr> ts_members := ts_members (so_current input) @ new \<rparr> \<and>
        placement_names (ts_members (so_current input) @ new) \<and>
        (\<forall>m \<in> set new. m_state m = JOINING \<and> m_tokens m \<noteq> [] \<and> m_identity m \<in> set (so_joining input)) \<and>
        (\<forall>x \<in> set (so_joining input). \<exists>m \<in> set (ts_members (so_current input) @ new). m_identity m = x \<and> m_state m = JOINING)"
    and scale_in_law: "alg_PlanScaleIn alg input' = Inr plan \<Longrightarrow>
      tp_next plan = (si_current input') \<lparr> ts_members :=
        map (mark (set (si_leaving input')) PRE_LEAVING) (ts_members (si_current input')) \<rparr>"
    and failure_law: "alg_PlanFailure alg input'' = Inr plan \<Longrightarrow>
      fp_failed input'' \<noteq> [] \<and>
      set (fp_failed input'') \<subseteq> m_identity ` set (ts_members (fp_current input'')) \<and>
      tp_next plan = (fp_current input'') \<lparr> ts_members :=
        map (mark (set (fp_failed input'')) FAILED) (ts_members (fp_current input'')) \<rparr>"
    and validate_law: "alg_Validate alg st = Inr () \<Longrightarrow> placement_names (ts_members st)"

lemma mark_by_address:
  assumes "ValidateSelectedMembers st xs = Inr ()" "valid_placement st"
  shows "map (set_member_state (map mi_address xs) s) (ts_members st) = map (mark (set xs) s) (ts_members st)"
  using selected_address [OF assms(1)] assms(2)
  by (auto simp: set_member_state_def valid_placement_def mark_def)

lemma PlanScaleOut_new:
  assumes "PlanScaleOut re input = Inr plan"
  shows "\<exists>new. tp_next plan = (so_current input) \<lparr> ts_members := ts_members (so_current input) @ new \<rparr> \<and>
        placement_names (ts_members (so_current input) @ new) \<and>
        (\<forall>m \<in> set new. m_state m = JOINING \<and> m_tokens m \<noteq> [] \<and> m_identity m \<in> set (so_joining input)) \<and>
        (\<forall>x \<in> set (so_joining input). \<exists>m \<in> set (ts_members (so_current input) @ new). m_identity m = x \<and> m_state m = JOINING)"
proof -
  from assms obtain ms where val: "valid_placement (so_current input)"
    and ids: "ValidateIdentities re (so_joining input) = Inr ()" and n: "so_tokensPerMember input > 0"
    and j: "join_loop (so_tokensPerMember input) (sort_key mi_address (so_joining input))
        (ts_members (so_current input)) (concat (map m_tokens (ts_members (so_current input)))) = Inr ms"
    and plan: "tp_next plan = (so_current input) \<lparr> ts_members := ms \<rparr>"
    by (auto simp: PlanScaleOut_def Validate_eq split: if_splits sum.splits)
  have names: "placement_names (ts_members (so_current input))"
    using val by (simp add: valid_placement_def placement_names_def)
  have xs: "\<forall>x \<in> set (sort_key mi_address (so_joining input)). length (mi_id x) = UUID_SIZE \<and> mi_address x \<noteq> []"
    using ids by (auto simp: ValidateIdentities_def identity_loop_eq canonical_address_def split: if_splits)
  from join_loop_spec [OF j names refl xs] n plan show ?thesis by fastforce
qed

lemma hash_algorithm_planning: "planning_algorithm (HashAlgorithm re)"
proof unfold_locales
  fix input plan
  assume "alg_BuildInitialPlacement (HashAlgorithm re) input = Inr plan"
  then have "BuildInitialPlacement re input = Inr plan" by (simp add: HashAlgorithm_def)
  then obtain al where a: "so_tokensPerMember input > 0" "ValidateIdentities re (so_joining input) = Inr ()"
    "allocate_loop (so_tokensPerMember input) (sort_key mi_address (so_joining input)) [] Map.empty = Inr al"
    and n: "tp_next plan = (so_current input) \<lparr> ts_clusterHasInit := True, ts_members :=
       map (\<lambda>x. \<lparr> m_identity = x, m_state = ACTIVE, m_tokens = allocated_for (so_tokensPerMember input) al x \<rparr>)
         (sort_key mi_address (so_joining input)) \<rparr>"
    by (rule BuildInitialPlacement_cases)
  have "distinct (map mi_address (sort_key mi_address (so_joining input)))"
    using a(2) by (simp add: ValidateIdentities_def identity_loop_eq distinct_map_sort_key split: if_splits)
  from allocate_loop_spec [OF a(3) this] a(1)
  have "allocated_for (so_tokensPerMember input) al x \<noteq> []" if "x \<in> set (so_joining input)" for x
    using that by fastforce
  then show "ts_activeBatch (tp_next plan) = ts_activeBatch (so_current input) \<and>
      m_identity ` set (ts_members (tp_next plan)) = set (so_joining input) \<and>
      (\<forall>m \<in> set (ts_members (tp_next plan)). m_state m = ACTIVE \<and> m_tokens m \<noteq> [])"
    by (simp add: n image_image)
next
  fix input plan
  assume "alg_PlanScaleOut (HashAlgorithm re) input = Inr plan"
  then have "PlanScaleOut re input = Inr plan" by (simp add: HashAlgorithm_def)
  then show "\<exists>new. tp_next plan = (so_current input) \<lparr> ts_members := ts_members (so_current input) @ new \<rparr> \<and>
        placement_names (ts_members (so_current input) @ new) \<and>
        (\<forall>m \<in> set new. m_state m = JOINING \<and> m_tokens m \<noteq> [] \<and> m_identity m \<in> set (so_joining input)) \<and>
        (\<forall>x \<in> set (so_joining input). \<exists>m \<in> set (ts_members (so_current input) @ new). m_identity m = x \<and> m_state m = JOINING)"
    by (rule PlanScaleOut_new)
next
  fix input' :: ScaleInPlanInput and plan
  assume "alg_PlanScaleIn (HashAlgorithm re) input' = Inr plan"
  then have "PlanScaleIn re input' = Inr plan" by (simp add: HashAlgorithm_def)
  then obtain fo to where "valid_placement (si_current input')"
    "ValidateSelectedMembers (si_current input') (si_leaving input') = Inr ()"
    "plan = \<lparr> tp_next = (si_current input') \<lparr> ts_members :=
        map (set_member_state (map mi_address (si_leaving input')) PRE_LEAVING) (ts_members (si_current input')) \<rparr>,
      tp_ownerChanges = DiffOwners fo to \<rparr>"
    by (rule PlanScaleIn_cases)
  then show "tp_next plan = (si_current input') \<lparr> ts_members :=
        map (mark (set (si_leaving input')) PRE_LEAVING) (ts_members (si_current input')) \<rparr>"
    by (simp add: mark_by_address)
next
  fix input'' :: FailurePlanInput and plan
  assume "alg_PlanFailure (HashAlgorithm re) input'' = Inr plan"
  then have p: "PlanFailure re input'' = Inr plan" by (simp add: HashAlgorithm_def)
  then have v: "valid_placement (fp_current input'')"
    "ValidateSelectedMembers (fp_current input'') (fp_failed input'') = Inr ()"
    and n: "tp_next plan = (fp_current input'') \<lparr> ts_members :=
        map (set_member_state (map mi_address (fp_failed input'')) FAILED) (ts_members (fp_current input'')) \<rparr>"
    by (elim PlanFailure_cases; simp)+
  have "fp_failed input'' \<noteq> []" using p by (auto simp: PlanFailure_def split: if_splits sum.splits)
  moreover have "set (fp_failed input'') \<subseteq> m_identity ` set (ts_members (fp_current input''))"
    using ValidateSelected_spec [OF v(2)] by fastforce
  ultimately show "fp_failed input'' \<noteq> [] \<and>
      set (fp_failed input'') \<subseteq> m_identity ` set (ts_members (fp_current input'')) \<and>
      tp_next plan = (fp_current input'') \<lparr> ts_members :=
        map (mark (set (fp_failed input'')) FAILED) (ts_members (fp_current input'')) \<rparr>"
    using n v by (simp add: mark_by_address)
next
  fix st
  assume "alg_Validate (HashAlgorithm re) st = Inr ()"
  then show "placement_names (ts_members st)"
    by (auto simp: HashAlgorithm_def Validate_eq valid_placement_def placement_names_def split: if_splits)
qed

interpretation hash: planning_algorithm "HashAlgorithm re" for re
  by (rule hash_algorithm_planning)

section \<open>The topology invariant\<close>

text \<open>
  The invariant of every published topology: the version and the batch are consistent, the members are well
  formed, every member that holds data or is about to hold data has tokens, and no topology has both joining
  and leaving members.
\<close>

definition holds_tokens :: "MemberState \<Rightarrow> bool" where
  "holds_tokens s \<longleftrightarrow> IsCommittedMemberState s \<or> s = JOINING"

definition wf_members :: "re2 \<Rightarrow> Member list \<Rightarrow> bool" where
  "wf_members re ms \<longleftrightarrow>
     (\<forall>m \<in> set ms. valid_member re m \<and> (holds_tokens (m_state m) \<longrightarrow> m_tokens m \<noteq> [])) \<and>
     distinct (map m_address ms) \<and> distinct (map m_id ms) \<and> distinct (concat (map m_tokens ms))"

definition one_direction :: "Member list \<Rightarrow> bool" where
  "one_direction ms \<longleftrightarrow> \<not> ((\<exists>m \<in> set ms. m_state m = JOINING) \<and> (\<exists>m \<in> set ms. m_state m = LEAVING))"

definition topology_inv :: "re2 \<Rightarrow> TopologyState \<Rightarrow> bool" where
  "topology_inv re st \<longleftrightarrow>
     ts_version st > 0 \<and> ts_version st \<le> 0x7FFFFFFFFFFFFFFF \<and> batch_states_ok st \<and>
     wf_members re (ts_members st) \<and> one_direction (ts_members st)"

lemma topology_inv_valid: "topology_inv re st \<Longrightarrow> valid_topology re st"
  by (auto simp: topology_inv_def valid_topology_def wf_members_def holds_tokens_def)

lemma wf_members_filter: "wf_members re ms \<Longrightarrow> wf_members re (filter P ms)"
  by (auto simp: wf_members_def distinct_map_filter distinct_concat_filter)

lemma wf_members_map:
  assumes "wf_members re ms"
    "\<And>m. m \<in> set ms \<Longrightarrow> m_identity (f m) = m_identity m \<and> m_tokens (f m) = m_tokens m \<and>
      (holds_tokens (m_state (f m)) \<longrightarrow> holds_tokens (m_state m))"
  shows "wf_members re (map f ms)"
proof -
  have eqs: "map m_address (map f ms) = map m_address ms" "map m_id (map f ms) = map m_id ms"
    "map m_tokens (map f ms) = map m_tokens ms"
    using assms(2) by auto
  have "valid_member re (f m)" if "m \<in> set ms" for m
    using assms(1) assms(2) [OF that] that by (simp add: wf_members_def valid_member_def)
  moreover have "holds_tokens (m_state (f m)) \<longrightarrow> m_tokens (f m) \<noteq> []" if "m \<in> set ms" for m
    using assms(1) assms(2) [OF that] that by (simp add: wf_members_def)
  ultimately show ?thesis using assms(1) unfolding wf_members_def eqs by auto
qed

lemma next_version:
  fixes v :: "64 word"
  assumes "v < 0x7FFFFFFFFFFFFFFF"
  shows "0 < v + 1" "v + 1 \<le> 0x7FFFFFFFFFFFFFFF" "v < v + 1"
proof -
  have n: "unat v < 0x7FFFFFFFFFFFFFFF" using assms by (simp add: word_less_nat_alt)
  then have "unat (v + 1) = unat v + 1" by (simp add: unat_word_ariths)
  then show "0 < v + 1" "v + 1 \<le> 0x7FFFFFFFFFFFFFFF" "v < v + 1"
    using n by (simp_all add: word_less_nat_alt word_le_nat_alt)
qed

lemma stable_states:
  assumes "batch_states_ok st" "ts_activeBatch st = None" "m \<in> set (ts_members st)"
  shows "m_state m = INITIAL \<or> m_state m = ACTIVE \<or> m_state m = PRE_LEAVING"
  using assms by (cases "m_state m") (auto simp: batch_states_ok_def)

lemma stable_one_direction: "batch_states_ok st \<Longrightarrow> ts_activeBatch st = None \<Longrightarrow> one_direction (ts_members st)"
  by (auto simp: one_direction_def batch_states_ok_def)

lemma selected_loop_spec:
  assumes "selected_loop latest st xs adr = Inr ()"
  shows "distinct (map mi_address xs) \<and> set adr \<inter> mi_address ` set xs = {} \<and>
    (\<forall>x \<in> set xs. \<exists>m \<in> set (ts_members latest). m_identity m = x \<and> m_state m = st)"
  using assms
proof (induction xs arbitrary: adr)
  case (Cons x xs)
  from Cons.prems obtain m where "find (\<lambda>m. SameIdentity m x) (ts_members latest) = Some m" "m_state m = st"
    "mi_address x \<notin> set adr" "selected_loop latest st xs (mi_address x # adr) = Inr ()"
    by (auto split: if_splits option.splits)
  moreover from this(1) have "m \<in> set (ts_members latest)" "m_identity m = x"
    using find_SomeD by (fastforce simp: SameIdentity_def)+
  ultimately show ?case using Cons.IH [of "mi_address x # adr"] by auto
qed simp

lemma ValidateSelected_spec2:
  assumes "ValidateSelected latest xs st = Inr ()"
  shows "xs \<noteq> []" "\<And>x. x \<in> set xs \<Longrightarrow> \<exists>m \<in> set (ts_members latest). m_identity m = x \<and> m_state m = st"
  using assms selected_loop_spec [of latest st xs "[]"] by (auto simp: ValidateSelected_def split: if_splits)

lemma same_member:
  assumes "wf_members re ms" "m \<in> set ms" "n \<in> set ms" "m_address m = m_address n"
  shows "m = n"
  using assms by (auto simp: wf_members_def distinct_map dest: inj_onD)

lemma by_address:
  assumes "wf_members re ms" "set xs \<subseteq> m_identity ` set ms" "m \<in> set ms"
  shows "m_address m \<in> mi_address ` set xs \<longleftrightarrow> m_identity m \<in> set xs"
proof
  assume "m_address m \<in> mi_address ` set xs"
  then obtain x n where "x \<in> set xs" "mi_address x = m_address m" "n \<in> set ms" "m_identity n = x"
    using assms(2) by (auto simp: subset_iff image_iff)
  then show "m_identity m \<in> set xs" using same_member [OF assms(1,3), of n] by auto
qed auto

lemma wf_membersI:
  assumes "placement_names ms" "\<And>m. m \<in> set ms \<Longrightarrow> valid_member re m"
    "\<And>m. m \<in> set ms \<Longrightarrow> holds_tokens (m_state m) \<Longrightarrow> m_tokens m \<noteq> []"
  shows "wf_members re ms"
  using assms by (auto simp: wf_members_def placement_names_def)

lemma valid_member_identity: "valid_member re m \<Longrightarrow> m_identity n = m_identity m \<Longrightarrow> valid_member re n"
  by (simp add: valid_member_def)

section \<open>Every transition keeps the invariant\<close>

abbreviation publishable :: "TopologyState \<Rightarrow> bool" where
  "publishable st \<equiv> ts_version st < 0x7FFFFFFFFFFFFFFF"

lemma stable_invI:
  assumes "publishable latest" "ts_version st = ts_version latest + 1" "ts_activeBatch st = None"
    "wf_members re (ts_members st)"
    "\<And>m. m \<in> set (ts_members st) \<Longrightarrow> m_state m \<noteq> JOINING \<and> m_state m \<noteq> LEAVING \<and> m_state m \<noteq> FAILED"
  shows "topology_inv re st"
  using next_version [OF assms(1)] assms(2-5) by (auto simp: topology_inv_def batch_states_ok_def one_direction_def)

lemma batch_invI:
  assumes "publishable latest" "ts_version st = ts_version latest + 1"
    "ts_activeBatch st = Some \<lparr> ab_type = type, ab_epoch = ts_version latest + 1 \<rparr>"
    "wf_members re (ts_members st)" "one_direction (ts_members st)"
    "\<And>m. m \<in> set (ts_members st) \<Longrightarrow> MatchesBatch (m_state m) type"
    "\<exists>m \<in> set (ts_members st). is_participant (m_state m) type"
  shows "topology_inv re st"
  using next_version [OF assms(1)] assms(2-7) by (auto simp: topology_inv_def batch_states_ok_def)

lemma batch_member:
  assumes "batch_states_ok st" "ValidateBatch st type = Inr ()" "m \<in> set (ts_members st)"
  shows "MatchesBatch (m_state m) type"
  using assms by (auto simp: batch_states_ok_def ValidateBatch_def split: option.splits if_splits)

lemma MembersInState_ne: "MembersInState st s \<noteq> [] \<longleftrightarrow> (\<exists>m \<in> set (ts_members st). m_state m = s)"
  by (auto simp: MembersInState_def filter_empty_conv)

lemma RemoveMembers_in_state:
  assumes "wf_members re (ts_members st)"
  shows "ts_members (RemoveMembers st (map mi_address (MembersInState st s))) = filter (\<lambda>m. m_state m \<noteq> s) (ts_members st)"
proof -
  have "m_address m \<notin> mi_address ` set (MembersInState st s) \<longleftrightarrow> m_state m \<noteq> s" if "m \<in> set (ts_members st)" for m
    using same_member [OF assms _ that] that by (auto simp: MembersInState_def)
  then show ?thesis by (simp add: RemoveMembers_def cong: filter_cong)
qed

lemma scale_out_final_inv:
  assumes "topology_inv re st" "publishable st" "BuildScaleOutFinal st = Inr st'"
  shows "topology_inv re st' \<and> ts_version st' = ts_version st + 1"
proof -
  from assms(3) have b: "ValidateBatch st SCALE_OUT = Inr ()"
    and st': "st' = st \<lparr> ts_members := map activate_joining (ts_members st), ts_version := ts_version st + 1, ts_activeBatch := None \<rparr>"
    by (auto simp: BuildScaleOutFinal_def split: sum.splits if_splits)
  have "wf_members re (map activate_joining (ts_members st))"
    by (rule wf_members_map [where ms = "ts_members st"])
      (use assms(1) in \<open>auto simp: topology_inv_def activate_joining_def holds_tokens_def\<close>)
  moreover have "m_state (activate_joining m) \<noteq> JOINING \<and> m_state (activate_joining m) \<noteq> LEAVING \<and> m_state (activate_joining m) \<noteq> FAILED"
    if "m \<in> set (ts_members st)" for m
    using batch_member [OF _ b that] assms(1) by (auto simp: topology_inv_def activate_joining_def MatchesBatch_def)
  ultimately show ?thesis using assms(2) by (auto simp: st' intro!: stable_invI [of st])
qed

lemma scale_in_final_inv:
  assumes "topology_inv re st" "publishable st" "BuildScaleInFinal st = Inr st'"
  shows "topology_inv re st' \<and> ts_version st' = ts_version st + 1"
proof -
  have wf: "wf_members re (ts_members st)" using assms(1) by (simp add: topology_inv_def)
  from assms(3) have b: "ValidateBatch st SCALE_IN = Inr ()"
    and st': "st' = (RemoveMembers st (map mi_address (MembersInState st LEAVING)))
        \<lparr> ts_version := ts_version st + 1, ts_activeBatch := None \<rparr>"
    by (auto simp: BuildScaleInFinal_def Let_def split: sum.splits if_splits)
  have ms: "ts_members st' = filter (\<lambda>m. m_state m \<noteq> LEAVING) (ts_members st)"
    using RemoveMembers_in_state [OF wf, of LEAVING] by (simp add: st')
  have "topology_inv re st'"
  proof (rule stable_invI [OF assms(2)])
    show "wf_members re (ts_members st')" unfolding ms by (rule wf_members_filter [OF wf])
    fix m assume "m \<in> set (ts_members st')"
    then show "m_state m \<noteq> JOINING \<and> m_state m \<noteq> LEAVING \<and> m_state m \<noteq> FAILED"
      using batch_member [OF _ b, of m] assms(1) by (auto simp: ms topology_inv_def MatchesBatch_def)
  qed (simp_all add: st')
  then show ?thesis by (simp add: st')
qed

lemma committed_states: "IsCommittedMemberState s \<longleftrightarrow> s = ACTIVE \<or> s = LEAVING \<or> s = PRE_LEAVING"
  by (auto simp: IsCommittedMemberState_def)

lemma failure_final_inv:
  assumes "topology_inv re st" "publishable st" "BuildFailureFinal st = Inr st'"
  shows "topology_inv re st' \<and> ts_version st' = ts_version st + 1"
proof -
  have wf: "wf_members re (ts_members st)" and od: "one_direction (ts_members st)"
    using assms(1) by (simp_all add: topology_inv_def)
  define built where "built = RemoveMembers st (map mi_address (MembersInState st FAILED))"
  have ms: "ts_members built = filter (\<lambda>m. m_state m \<noteq> FAILED) (ts_members st)"
    unfolding built_def by (rule RemoveMembers_in_state [OF wf])
  have wf': "wf_members re (ts_members built)" unfolding ms by (rule wf_members_filter [OF wf])
  have od': "one_direction (ts_members built)" using od by (auto simp: ms one_direction_def)
  have nf: "m_state m \<noteq> FAILED" if "m \<in> set (ts_members built)" for m using that by (simp add: ms)
  have v: "ts_version st' = ts_version st + 1"
    using assms(3) by (auto simp: BuildFailureFinal_def Let_def split: sum.splits if_splits)
  from assms(3) consider
      (empty) "ts_members st' = []" "ts_activeBatch st' = None"
    | (out) "ts_members st' = ts_members built" "\<exists>m \<in> set (ts_members built). m_state m = JOINING"
        "ts_activeBatch st' = Some \<lparr> ab_type = SCALE_OUT, ab_epoch = ts_version st + 1 \<rparr>"
    | (into) "ts_members st' = ts_members built" "\<not> (\<exists>m \<in> set (ts_members built). m_state m = JOINING)"
        "\<exists>m \<in> set (ts_members built). m_state m = LEAVING"
        "ts_activeBatch st' = Some \<lparr> ab_type = SCALE_IN, ab_epoch = ts_version st + 1 \<rparr>"
    | (stable) "ts_members st' = ts_members built" "\<not> (\<exists>m \<in> set (ts_members built). m_state m = JOINING)"
        "\<not> (\<exists>m \<in> set (ts_members built). m_state m = LEAVING)" "ts_activeBatch st' = None"
    unfolding MembersInState_ne [symmetric] built_def
    by (auto simp: BuildFailureFinal_def Let_def split: sum.splits if_splits)
  then have "topology_inv re st'"
  proof cases
    case empty
    show ?thesis by (rule stable_invI [OF assms(2) v empty(2)]) (simp_all add: empty(1) wf_members_def)
  next
    case out
    then show ?thesis using od' nf wf'
      by (intro batch_invI [OF assms(2) v out(3)]) (auto simp: out(1) MatchesBatch_def is_participant_def one_direction_def)
  next
    case into
    then show ?thesis using od' nf wf'
      by (intro batch_invI [OF assms(2) v into(4)]) (auto simp: into(1) MatchesBatch_def is_participant_def)
  next
    case stable
    then show ?thesis using nf wf' by (intro stable_invI [OF assms(2) v stable(4)]) (auto simp: stable(1))
  qed
  then show ?thesis using v by simp
qed

lemma shutdown_final_inv:
  assumes "publishable st" "BuildClusterShutdownFinal st = Inr st'"
  shows "topology_inv re st' \<and> ts_version st' = ts_version st + 1"
  using assms stable_invI [of st st' re]
  by (auto simp: BuildClusterShutdownFinal_def wf_members_def split: if_splits)

lemma removed_selected:
  assumes "wf_members re (ts_members st)" "ValidateSelected st xs s = Inr ()"
  shows "ts_members (RemoveMembers st (map mi_address xs)) = filter (\<lambda>m. m_identity m \<notin> set xs) (ts_members st)"
proof -
  have "set xs \<subseteq> m_identity ` set (ts_members st)" using ValidateSelected_spec2(2) [OF assms(2)] by blast
  from by_address [OF assms(1) this] show ?thesis by (auto simp: RemoveMembers_def intro!: filter_cong)
qed

lemma AdvanceEpoch_simps [simp]:
  "ts_version (tp_next (AdvanceEpoch st type plan)) = ts_version st + 1"
  "ts_activeBatch (tp_next (AdvanceEpoch st type plan)) = Some \<lparr> ab_type = type, ab_epoch = ts_version st + 1 \<rparr>"
  "ts_members (tp_next (AdvanceEpoch st type plan)) = ts_members (tp_next plan)"
  "ts_clusterHasInit (tp_next (AdvanceEpoch st type plan)) = ts_clusterHasInit (tp_next plan)"
  "tp_ownerChanges (AdvanceEpoch st type plan) = tp_ownerChanges plan"
  by (simp_all add: AdvanceEpoch_def)

lemma update_first_id: "(\<And>x. x \<in> set xs \<Longrightarrow> P x \<Longrightarrow> f x = x) \<Longrightarrow> update_first P f xs = xs"
  by (induction xs) auto

lemma member_state_same [simp]: "m \<lparr> m_state := m_state m \<rparr> = m"
  by simp

lemma preserve_fact_id:
  assumes "wf_members re ms" "\<And>x. x \<in> set ms \<Longrightarrow> m_address x \<in> set adr \<longleftrightarrow> m_identity x \<in> X" "set ns \<subseteq> set ms"
    "\<And>m. m \<in> set ms \<Longrightarrow> m_state m = FAILED \<Longrightarrow> m_identity m \<in> X"
  shows "foldl (preserve_fact adr) (map (mark X FAILED) ms) ns = map (mark X FAILED) ms"
  using assms(3)
proof (induction ns)
  case (Cons n ns)
  have "preserve_fact adr (map (mark X FAILED) ms) n = map (mark X FAILED) ms"
  proof (cases "m_address n \<in> set adr")
    case True
    then show ?thesis by (simp add: preserve_fact_def)
  next
    case False
    have "x \<lparr> m_state := m_state n \<rparr> = x"
      if x: "x \<in> set (map (mark X FAILED) ms)" and id: "m_identity x = m_identity n" for x
    proof -
      obtain y where y: "y \<in> set ms" "x = mark X FAILED y" using x by auto
      then have "m_identity y = m_identity n" using id by simp
      then have "y = n" using same_member [OF assms(1) y(1), of n] Cons.prems by auto
      moreover have "m_identity n \<notin> X" using False assms(2) [of n] Cons.prems by auto
      ultimately show ?thesis using y(2) by (simp add: mark_def)
    qed
    then show ?thesis by (simp add: preserve_fact_def update_first_id del: set_map)
  qed
  then show ?case using Cons by simp
qed simp

lemma marked_state: "\<exists>m \<in> set ms. m_identity m \<in> X \<Longrightarrow> \<exists>m \<in> set (map (mark X s) ms). m_state m = s"
  by (auto intro!: bexI simp: image_iff)

context planning_algorithm
begin

lemma bootstrap_inv:
  assumes "topology_inv re st" "publishable st" "BuildBootstrap alg k st ready = Inr st'"
  shows "topology_inv re st' \<and> ts_version st' = ts_version st + 1"
proof -
  have wf: "wf_members re (ts_members st)" and ok: "batch_states_ok st" using assms(1) by (simp_all add: topology_inv_def)
  from assms(3) obtain built where none: "ts_activeBatch st = None" and sel: "ValidateSelected st ready INITIAL = Inr ()"
    and b: "alg_BuildInitialPlacement alg \<lparr> so_current = empty_topology, so_joining = ready, so_tokensPerMember = k \<rparr> = Inr built"
    and st': "st' = (tp_next built) \<lparr>
                ts_members := ts_members (tp_next built) @
                  filter (\<lambda>m. m_address m \<notin> set (map mi_address ready)) (ts_members st),
                ts_version := ts_version st + 1,
                ts_clusterHasInit := ts_clusterHasInit st \<or> ts_clusterHasInit (tp_next built) \<rparr>"
    and val: "alg_Validate alg st' = Inr ()"
    by (auto simp: BuildBootstrap_def Let_def split: sum.splits if_splits)
  note l = initial_law [OF b]
  have placed: "m_state m = ACTIVE \<and> m_tokens m \<noteq> [] \<and> valid_member re m" if "m \<in> set (ts_members (tp_next built))" for m
  proof -
    have "m_identity m \<in> set ready" using l that by auto
    then obtain n where "n \<in> set (ts_members st)" "m_identity m = m_identity n"
      using ValidateSelected_spec2(2) [OF sel] by metis
    then show ?thesis using l that wf by (auto simp: wf_members_def intro: valid_member_identity)
  qed
  have "wf_members re (ts_members st')"
    by (rule wf_membersI [OF validate_law [OF val]]) (use wf placed in \<open>auto simp: st' wf_members_def\<close>)
  moreover have "m_state m \<noteq> JOINING \<and> m_state m \<noteq> LEAVING \<and> m_state m \<noteq> FAILED" if "m \<in> set (ts_members st')" for m
    using that placed [of m] stable_states [OF ok none, of m] by (auto simp: st')
  moreover have "ts_activeBatch st' = None" using l by (simp add: st' empty_topology_def)
  ultimately show ?thesis using stable_invI [OF assms(2), of st'] by (simp add: st')
qed

lemma scale_out_start_inv:
  assumes "topology_inv re st" "publishable st" "BuildScaleOutStart alg k st sel = Inr plan"
  shows "topology_inv re (tp_next plan) \<and> ts_version (tp_next plan) = ts_version st + 1"
proof -
  have wf: "wf_members re (ts_members st)" and ok: "batch_states_ok st" using assms(1) by (simp_all add: topology_inv_def)
  let ?cur = "RemoveMembers st (map mi_address sel)"
  from assms(3) obtain built where none: "ts_activeBatch st = None" and s: "ValidateSelected st sel INITIAL = Inr ()"
    and b: "alg_PlanScaleOut alg \<lparr> so_current = ?cur, so_joining = sel, so_tokensPerMember = k \<rparr> = Inr built"
    and plan: "plan = AdvanceEpoch st SCALE_OUT built"
    by (auto simp: BuildScaleOutStart_def Let_def split: sum.splits if_splits)
  from scale_out_law [OF b] obtain new where new: "ts_members (tp_next plan) = ts_members ?cur @ new"
    and names: "placement_names (ts_members ?cur @ new)"
    and add: "\<forall>m \<in> set new. m_state m = JOINING \<and> m_tokens m \<noteq> [] \<and> m_identity m \<in> set sel"
    and all: "\<forall>x \<in> set sel. \<exists>m \<in> set (ts_members ?cur @ new). m_identity m = x \<and> m_state m = JOINING"
    by (auto simp: plan)
  have old: "m \<in> set (ts_members st)" if "m \<in> set (ts_members ?cur)" for m using that by (simp add: RemoveMembers_def)
  have valid: "valid_member re m" if "m \<in> set new" for m
  proof -
    have "m_identity m \<in> set sel" using add that by simp
    then obtain n where "n \<in> set (ts_members st)" "m_identity m = m_identity n"
      using ValidateSelected_spec2(2) [OF s] by metis
    then show ?thesis using wf by (auto simp: wf_members_def intro: valid_member_identity)
  qed
  have w: "wf_members re (ts_members (tp_next plan))" unfolding new
    by (rule wf_membersI [OF names]) (use wf valid add old in \<open>auto simp: wf_members_def\<close>)
  have st: "m_state m = INITIAL \<or> m_state m = ACTIVE \<or> m_state m = PRE_LEAVING \<or> m_state m = JOINING"
    if "m \<in> set (ts_members (tp_next plan))" for m
    using that old stable_states [OF ok none] add by (auto simp: new)
  obtain x where "x \<in> set sel" using ValidateSelected_spec2(1) [OF s] by (cases sel) auto
  then have "\<exists>m \<in> set (ts_members (tp_next plan)). m_state m = JOINING" using all new by auto
  then have "\<exists>m \<in> set (ts_members (tp_next plan)). is_participant (m_state m) SCALE_OUT"
    by (auto simp: is_participant_def)
  moreover have "one_direction (ts_members (tp_next plan))" using st by (fastforce simp: one_direction_def)
  moreover have "MatchesBatch (m_state m) SCALE_OUT" if "m \<in> set (ts_members (tp_next plan))" for m
    using st [OF that] by (auto simp: MatchesBatch_def)
  moreover have "ts_version (tp_next plan) = ts_version st + 1"
    "ts_activeBatch (tp_next plan) = Some \<lparr> ab_type = SCALE_OUT, ab_epoch = ts_version st + 1 \<rparr>" by (simp_all add: plan)
  ultimately show ?thesis using batch_invI [OF assms(2), of "tp_next plan" SCALE_OUT re] w by blast
qed

lemma scale_out_replan_inv:
  assumes "topology_inv re st" "publishable st" "BuildScaleOutReplan alg k st failed = Inr plan"
  shows "topology_inv re (tp_next plan) \<and> ts_version (tp_next plan) = ts_version st + 1 \<and>
    ts_members (tp_next plan) = filter (\<lambda>m. m_identity m \<notin> set failed) (ts_members st)"
proof -
  have wf: "wf_members re (ts_members st)" and ok: "batch_states_ok st" and od: "one_direction (ts_members st)"
    using assms(1) by (simp_all add: topology_inv_def)
  let ?cur = "RemoveMembers st (map mi_address failed)"
  have b: "ValidateBatch st SCALE_OUT = Inr ()" and s: "ValidateSelected st failed JOINING = Inr ()"
    using assms(3) by (auto simp: BuildScaleOutReplan_def split: sum.splits)
  note cur = removed_selected [OF wf s]
  have wf': "wf_members re (ts_members ?cur)" unfolding cur by (rule wf_members_filter [OF wf])
  have sub: "set (ts_members ?cur) \<subseteq> set (ts_members st)" by (auto simp: RemoveMembers_def)
  have od': "one_direction (ts_members ?cur)" using od sub by (auto simp: one_direction_def)
  have match: "MatchesBatch (m_state m) SCALE_OUT" if "m \<in> set (ts_members ?cur)" for m
    using batch_member [OF ok b] that sub by blast
  show ?thesis
  proof (cases "MembersInState ?cur JOINING = []")
    case True
    then have plan: "tp_next plan = ?cur \<lparr> ts_version := ts_version st + 1, ts_activeBatch := None \<rparr>"
      using assms(3) b s by (auto simp: BuildScaleOutReplan_def Let_def)
    have "m_state m \<noteq> JOINING \<and> m_state m \<noteq> LEAVING \<and> m_state m \<noteq> FAILED" if "m \<in> set (ts_members ?cur)" for m
      using True match [OF that] that MembersInState_ne [of ?cur JOINING] by (auto simp: MatchesBatch_def)
    then have "topology_inv re (tp_next plan)" using wf' by (intro stable_invI [OF assms(2)]) (auto simp: plan)
    then show ?thesis by (simp add: plan cur)
  next
    case False
    then obtain built where b': "alg_PlanScaleOut alg \<lparr> so_current = ?cur, so_joining = MembersInState ?cur JOINING,
        so_tokensPerMember = k \<rparr> = Inr built" and plan: "plan = AdvanceEpoch st SCALE_OUT built"
      using assms(3) b s by (auto simp: BuildScaleOutReplan_def Let_def split: sum.splits)
    from scale_out_law [OF b'] obtain new where new: "ts_members (tp_next built) = ts_members ?cur @ new"
      and names: "placement_names (ts_members ?cur @ new)"
      and add: "\<forall>m \<in> set new. m_identity m \<in> set (MembersInState ?cur JOINING)"
      by auto
    have "new = []"
    proof (rule ccontr)
      assume "new \<noteq> []"
      then have n: "hd new \<in> set new" by simp
      then have "m_identity (hd new) \<in> m_identity ` set (ts_members ?cur)" using add by (auto simp: MembersInState_def)
      then have "m_address (hd new) \<in> m_address ` set (ts_members ?cur)" by auto
      moreover have "m_address ` set (ts_members ?cur) \<inter> m_address ` set new = {}"
        using names by (simp add: placement_names_def)
      ultimately show False using n by blast
    qed
    then have ms: "ts_members (tp_next plan) = ts_members ?cur" by (simp add: plan new)
    have "topology_inv re (tp_next plan)"
      using wf' od' match False MembersInState_ne [of ?cur JOINING]
      by (intro batch_invI [OF assms(2), where type = SCALE_OUT]) (auto simp: ms is_participant_def, simp_all add: plan)
    then show ?thesis by (simp add: ms cur, simp add: plan)
  qed
qed

lemma scale_in_start_inv:
  assumes "topology_inv re st" "publishable st" "BuildScaleInStart alg st sel = Inr plan"
  shows "topology_inv re (tp_next plan) \<and> ts_version (tp_next plan) = ts_version st + 1 \<and>
    ts_members (tp_next plan) = map (mark (set sel) LEAVING) (ts_members st)"
proof -
  have wf: "wf_members re (ts_members st)" and ok: "batch_states_ok st" using assms(1) by (simp_all add: topology_inv_def)
  from assms(3) obtain built where none: "ts_activeBatch st = None" and s: "ValidateSelected st sel PRE_LEAVING = Inr ()"
    and b: "alg_PlanScaleIn alg \<lparr> si_current = st, si_leaving = sel \<rparr> = Inr built"
    and plan: "plan = AdvanceEpoch st SCALE_IN
            (built \<lparr> tp_next := (tp_next built) \<lparr> ts_members := map (start_leaving sel) (ts_members (tp_next built)) \<rparr> \<rparr>)"
    by (auto simp: BuildScaleInStart_def split: sum.splits if_splits)
  have ms: "ts_members (tp_next plan) = map (mark (set sel) LEAVING) (ts_members st)"
    using scale_in_law [OF b] by (auto simp: plan start_leaving_def mark_def)
  have pre: "m_state m = PRE_LEAVING" if "m \<in> set (ts_members st)" "m_identity m \<in> set sel" for m
    using ValidateSelected_spec2(2) [OF s that(2)] same_member [OF wf that(1)] by fastforce
  obtain x where x: "x \<in> set sel" using ValidateSelected_spec2(1) [OF s] by (cases sel) auto
  then have part: "\<exists>m \<in> set (ts_members st). m_identity m \<in> set sel"
    using ValidateSelected_spec2(2) [OF s] by blast
  have "wf_members re (map (mark (set sel) LEAVING) (ts_members st))"
    by (rule wf_members_map [OF wf]) (use pre in \<open>auto simp: holds_tokens_def IsCommittedMemberState_def\<close>)
  moreover have "m_state m \<noteq> JOINING \<and> m_state m \<noteq> FAILED" if "m \<in> set (ts_members st)" for m
    using stable_states [OF ok none that] by auto
  ultimately have "topology_inv re (tp_next plan)"
    using marked_state [OF part, of LEAVING]
    by (intro batch_invI [OF assms(2), where type = SCALE_IN])
      (auto simp: ms MatchesBatch_def is_participant_def one_direction_def split: if_splits, simp_all add: plan)
  then show ?thesis by (simp add: ms, simp add: plan)
qed

lemma failure_inv:
  assumes "topology_inv re st" "publishable st" "BuildFailureStartOrReplan alg st confirmed = Inr plan"
    "confirmed \<noteq> []" "set confirmed \<subseteq> m_identity ` set (ts_members st)"
  shows "topology_inv re (tp_next plan) \<and> ts_version (tp_next plan) = ts_version st + 1 \<and>
    ts_members (tp_next plan) = map (mark (set confirmed) FAILED) (ts_members st)"
proof -
  have wf: "wf_members re (ts_members st)" and od: "one_direction (ts_members st)"
    using assms(1) by (simp_all add: topology_inv_def)
  have keep: "m_identity m \<in> set confirmed" if "m \<in> set (ts_members st)" "m_state m = FAILED" for m
    using assms(3) that by (auto simp: BuildFailureStartOrReplan_def list_ex_iff split: if_splits)
  note adr = by_address [OF wf assms(5)]
  have rev: "mark (set confirmed) FAILED (revive_failed m) = mark (set confirmed) FAILED m" if "m \<in> set (ts_members st)" for m
    using keep [OF that] by (auto simp: revive_failed_def mark_def)
  define healthy where
    "healthy = list_ex (\<lambda>m. m_state m = ACTIVE \<and> m_address m \<notin> set (map mi_address confirmed)) (ts_members st)"
  define omitted where "omitted = list_ex (\<lambda>m. m_state m = FAILED \<and> m_identity m \<notin> set confirmed) (ts_members st)"
  note def = BuildFailureStartOrReplan_def [of alg st confirmed, unfolded Let_def, folded healthy_def omitted_def]
  have ms: "ts_members (tp_next plan) = map (mark (set confirmed) FAILED) (ts_members st)"
  proof (cases healthy)
    case True
    then obtain built where b: "alg_PlanFailure alg \<lparr> fp_current = st \<lparr> ts_members := map revive_failed (ts_members st) \<rparr>,
        fp_failed = confirmed \<rparr> = Inr built"
      and m: "ts_members (tp_next plan) = foldl (preserve_fact (map mi_address confirmed)) (ts_members (tp_next built)) (ts_members st)"
      using assms(3) unfolding def by (auto split: sum.splits if_splits)
    have "ts_members (tp_next built) = map (mark (set confirmed) FAILED) (ts_members st)"
      using failure_law [OF b] rev by simp
    moreover have "foldl (preserve_fact (map mi_address confirmed)) (map (mark (set confirmed) FAILED) (ts_members st))
        (ts_members st) = map (mark (set confirmed) FAILED) (ts_members st)"
      by (rule preserve_fact_id [OF wf _ subset_refl keep]) (simp_all add: adr)
    ultimately show ?thesis using m by simp
  next
    case False
    then have "ts_members (tp_next plan) = map (fail_member (map mi_address confirmed)) (ts_members st)"
      using assms(3) unfolding def by (auto split: if_splits)
    then show ?thesis using adr by (simp add: fail_member_def mark_def)
  qed
  have v: "ts_version (tp_next plan) = ts_version st + 1"
    "ts_activeBatch (tp_next plan) = Some \<lparr> ab_type = FAILURE, ab_epoch = ts_version st + 1 \<rparr>"
    using assms(3) unfolding def by (auto split: sum.splits if_splits)
  have "wf_members re (map (mark (set confirmed) FAILED) (ts_members st))"
    by (rule wf_members_map [OF wf]) (auto simp: holds_tokens_def IsCommittedMemberState_def)
  moreover have "\<exists>m \<in> set (map (mark (set confirmed) FAILED) (ts_members st)). m_state m = FAILED"
    by (rule marked_state) (use assms(4,5) in \<open>cases confirmed; auto\<close>)
  moreover have "one_direction (map (mark (set confirmed) FAILED) (ts_members st))" using od
    by (auto simp: one_direction_def split: if_splits)
  ultimately have "topology_inv re (tp_next plan)"
    by (intro batch_invI [OF assms(2) v]) (simp_all add: ms MatchesBatch_def is_participant_def del: set_map)
  then show ?thesis using ms v by simp
qed

end

section \<open>Routing before and after a transition\<close>

lemma ring_of_inj:
  assumes "distinct (concat (map m_tokens ms))"
  shows "inj_on to_token (ring_of P ms)"
proof -
  have "distinct (map to_token (owner_list P ms))"
    unfolding tokens_owner_list by (rule distinct_concat_filter [OF assms])
  then show ?thesis by (simp add: distinct_map set_owner_list)
qed

lemma ring_of_UN:
  "ring_of P ms = (\<Union>m \<in> set ms. if P m then (\<lambda>p. \<lparr> to_token = p, to_identity = m_identity m \<rparr>) ` set (m_tokens m) else {})"
  by (auto simp: ring_of_def split: if_splits)

lemma ring_of_image:
  assumes "set ns = f ` set ms"
    "\<And>m. m \<in> set ms \<Longrightarrow> m_identity (f m) = m_identity m \<and> set (m_tokens (f m)) = set (m_tokens m) \<and> P (f m) = Q m"
  shows "ring_of P ns = ring_of Q ms"
  unfolding ring_of_UN assms(1) image_image by (rule SUP_cong) (use assms(2) in simp_all)

lemma ring_of_canonical:
  assumes "\<And>m. P (sort_tokens m) = P m"
  shows "ring_of P (ts_members (canonical st)) = ring_of P (ts_members st)"
  by (rule ring_of_image [where f = sort_tokens]) (simp_all add: assms)

lemma ring_of_map:
  assumes "\<And>m. m \<in> set ms \<Longrightarrow> m_identity (f m) = m_identity m \<and> m_tokens (f m) = m_tokens m \<and> P (f m) = Q m"
  shows "ring_of P (map f ms) = ring_of Q ms"
  by (rule ring_of_image [where f = f]) (use assms in simp_all)

lemma locates_unique:
  assumes "locates r P ms t" "r = Inr m" "successor (ring_of P ms) t w" "distinct (concat (map m_tokens ms))"
  shows "m_identity m = to_identity w"
proof -
  obtain p where "successor (ring_of P ms) t \<lparr> to_token = p, to_identity = m_identity m \<rparr>"
    using assms(1,2) by (auto simp: locates_def)
  from successor_unique [OF ring_of_inj [OF assms(4)] this assms(3)] show ?thesis by auto
qed

lemma locates_Inr:
  assumes "locates r P ms t" "ring_of P ms \<noteq> {}"
  obtains m p where "r = Inr m" "successor (ring_of P ms) t \<lparr> to_token = p, to_identity = m_identity m \<rparr>"
  using assms by (auto simp: locates_def split: sum.splits)

lemma created_tokens:
  assumes "Create re st rv dig = Inr s"
  shows "sn_state s = canonical st" "distinct (concat (map m_tokens (ts_members (sn_state s))))" "valid_topology re st"
proof -
  from assms obtain "s = snapshot_of (canonical st) rv dig" "valid_topology re (canonical st)" "sn_state s = canonical st"
    by (rule created_snapshot)
  then show "sn_state s = canonical st" "distinct (concat (map m_tokens (ts_members (sn_state s))))"
    by (simp_all add: valid_topology_def)
  show "valid_topology re st" using assms unfolding Create_Inr by blast
qed

lemma final_ring:
  assumes "valid_topology re st" "BuildScaleOutFinal st = Inr st' \<or> BuildScaleInFinal st = Inr st'"
  shows "ring_of committed (ts_members st') = ring_of (prospective st) (ts_members st)"
  using assms(2)
proof
  assume o: "BuildScaleOutFinal st = Inr st'"
  then have b: "ValidateBatch st SCALE_OUT = Inr ()" and ms: "ts_members st' = map activate_joining (ts_members st)"
    by (auto simp: BuildScaleOutFinal_def split: sum.splits if_splits)
  have p: "prospective st m \<longleftrightarrow> committed m \<or> m_state m = JOINING" for m
    using b by (auto simp: prospective_def IsProspective_def ValidateBatch_def split: option.splits if_splits)
  show ?thesis unfolding ms
    by (rule ring_of_map) (auto simp: p activate_joining_def IsCommittedMemberState_def)
next
  assume i: "BuildScaleInFinal st = Inr st'"
  then have b: "ValidateBatch st SCALE_IN = Inr ()"
    and st': "st' = (RemoveMembers st (map mi_address (MembersInState st LEAVING)))
        \<lparr> ts_version := ts_version st + 1, ts_activeBatch := None \<rparr>"
    by (auto simp: BuildScaleInFinal_def Let_def split: sum.splits if_splits)
  have p: "prospective st m \<longleftrightarrow> committed m \<and> m_state m \<noteq> LEAVING" for m
    using b by (auto simp: prospective_def IsProspective_def ValidateBatch_def split: option.splits if_splits)
  have same: "m = n" if "m \<in> set (ts_members st)" "n \<in> set (ts_members st)" "m_address m = m_address n" for m n
    using assms(1) that by (auto simp: valid_topology_def distinct_map dest: inj_onD)
  have "m_address m \<in> mi_address ` set (MembersInState st LEAVING) \<longleftrightarrow> m_state m = LEAVING"
    if "m \<in> set (ts_members st)" for m
    using same [OF _ that] that by (auto simp: MembersInState_def)
  then have "ts_members st' = filter (\<lambda>m. m_state m \<noteq> LEAVING) (ts_members st)"
    by (simp add: st' RemoveMembers_def cong: filter_cong)
  then show ?thesis by (auto simp: ring_of_def p)
qed

text \<open>
  C34. Redirection to prospective owners is right: while a scale-out or scale-in batch is active, the prospective
  owner of a token is the member that owns it once the batch is finalised.
\<close>

theorem prospective_owner_is_final_owner:
  assumes "Create re st rv dig = Inr s" "BuildScaleOutFinal st = Inr st' \<or> BuildScaleInFinal st = Inr st'"
    "Create re st' rv' dig' = Inr s'" "LocateOwner s' t = Inr m'"
  shows "\<exists>m. LocateProspectiveOwner s t = Inr m \<and> m_identity m = m_identity m'"
proof -
  note c = created_tokens [OF assms(1)] and c' = created_tokens [OF assms(3)]
  have "ring_of committed (ts_members (sn_state s')) = ring_of committed (ts_members st')"
    unfolding c'(1) by (rule ring_of_canonical) simp
  also have "\<dots> = ring_of (prospective st) (ts_members st)" by (rule final_ring [OF c(3) assms(2)])
  also have "\<dots> = ring_of (prospective st) (ts_members (sn_state s))"
    unfolding c(1) by (rule ring_of_canonical [symmetric]) (simp add: prospective_def)
  finally have ring: "ring_of committed (ts_members (sn_state s')) = ring_of (prospective st) (ts_members (sn_state s))" .
  from locate_owner_ring [OF assms(3), of t] assms(4) obtain p
    where p: "successor (ring_of (prospective st) (ts_members (sn_state s))) t \<lparr> to_token = p, to_identity = m_identity m' \<rparr>"
    by (auto simp: locates_def ring)
  then have ne: "ring_of (prospective st) (ts_members (sn_state s)) \<noteq> {}" by (auto simp: successor_def)
  with locate_owner_ring [OF assms(1), of t]
  have l: "locates (LocateProspectiveOwner s t) (prospective st) (ts_members (sn_state s)) t" by simp
  from locates_Inr [OF this ne] obtain m where m: "LocateProspectiveOwner s t = Inr m" by metis
  with locates_unique [OF l m p c(2)] show ?thesis by simp
qed

lemma scale_out_start_rings:
  assumes "BuildScaleOutStart (HashAlgorithm re) k st sel = Inr plan" "valid_topology re st"
  obtains built where "PlanScaleOut re \<lparr> so_current = RemoveMembers st (map mi_address sel), so_joining = sel,
        so_tokensPerMember = k \<rparr> = Inr built" "plan = AdvanceEpoch st SCALE_OUT built"
    "ring_of committed (ts_members (RemoveMembers st (map mi_address sel))) = ring_of committed (ts_members st)"
proof -
  from assms(1) obtain built where s: "ValidateSelected st sel INITIAL = Inr ()"
    and b: "PlanScaleOut re \<lparr> so_current = RemoveMembers st (map mi_address sel), so_joining = sel,
        so_tokensPerMember = k \<rparr> = Inr built" "plan = AdvanceEpoch st SCALE_OUT built"
    by (auto simp: BuildScaleOutStart_def HashAlgorithm_def Let_def split: sum.splits if_splits)
  have "\<not> committed m" if m: "m \<in> set (ts_members st)" and a: "m_address m \<in> mi_address ` set sel" for m
  proof -
    from a obtain x where "x \<in> set sel" "mi_address x = m_address m" by auto
    moreover then obtain n where "n \<in> set (ts_members st)" "m_identity n = x" "m_state n = INITIAL"
      using ValidateSelected_spec2(2) [OF s] by blast
    ultimately have "n = m" using assms(2) m by (auto simp: valid_topology_def distinct_map dest: inj_onD)
    then show ?thesis using \<open>m_state n = INITIAL\<close> by (simp add: IsCommittedMemberState_def)
  qed
  then have "ring_of committed (ts_members (RemoveMembers st (map mi_address sel))) = ring_of committed (ts_members st)"
    by (auto simp: RemoveMembers_def ring_of_def)
  with that b show ?thesis by blast
qed

text \<open>
  Migration agrees with routing: when a scale-out batch starts, the reported changes move a token from \<open>S\<close>
  to \<open>T\<close> exactly when \<open>S\<close> is the owner that routing returns on the topology before the batch, \<open>T\<close> the
  prospective owner that routing returns during the batch, and they differ.
\<close>

lemma scale_out_migration_matches_routing:
  assumes "BuildScaleOutStart (HashAlgorithm re) k st sel = Inr plan"
    "Create re st rv dig = Inr s" "Create re (tp_next plan) rv' dig' = Inr s'"
    "LocateOwner s t = Inr m" "LocateProspectiveOwner s' t = Inr m'"
  shows "(\<exists>c \<in> set (tp_ownerChanges plan). oc_source c = Some S \<and> oc_target c = T \<and> list_ex (in_range t) (oc_ranges c)) \<longleftrightarrow>
    S = m_identity m \<and> T = m_identity m' \<and> S \<noteq> T"
proof -
  note c = created_tokens [OF assms(2)] and c' = created_tokens [OF assms(3)]
  obtain built where b: "PlanScaleOut re \<lparr> so_current = RemoveMembers st (map mi_address sel), so_joining = sel,
        so_tokensPerMember = k \<rparr> = Inr built" and plan: "plan = AdvanceEpoch st SCALE_OUT built"
    and cur: "ring_of committed (ts_members (RemoveMembers st (map mi_address sel))) = ring_of committed (ts_members st)"
    by (rule scale_out_start_rings [OF assms(1) c(3)])
  let ?nx = "ts_members (tp_next plan)"
  have pros: "prospective (tp_next plan) = (\<lambda>m. committed m \<or> m_state m = JOINING)"
    by (auto simp: fun_eq_iff plan prospective_def IsProspective_def)
  have r: "ring_of committed (ts_members (sn_state s)) = ring_of committed (ts_members st)"
    unfolding c(1) by (rule ring_of_canonical) simp
  have r': "ring_of (prospective (tp_next plan)) (ts_members (sn_state s')) = ring_of (prospective (tp_next plan)) ?nx"
    unfolding c'(1) by (rule ring_of_canonical) (simp add: prospective_def)
  have "locates (Inr m) committed (ts_members (sn_state s)) t"
    using locate_owner_ring [OF assms(2), of t] assms(4) by simp
  then obtain v where v: "successor (ring_of committed (ts_members st)) t v" "to_identity v = m_identity m"
    unfolding locates_def r by auto
  obtain new where new: "ts_members (tp_next built) = ts_members (RemoveMembers st (map mi_address sel)) @ new"
    using PlanScaleOut_new [OF b] by auto
  have "ring_of committed (ts_members st) \<noteq> {}" using v by (auto simp: successor_def)
  then have "ring_of (prospective (tp_next plan)) ?nx \<noteq> {}"
    unfolding pros cur [symmetric] by (auto simp: plan new ring_of_def)
  then have "locates (Inr m') (prospective (tp_next plan)) (ts_members (sn_state s')) t"
    using locate_owner_ring [OF assms(3), of t] assms(5) r' by simp
  then obtain w where w: "successor (ring_of (\<lambda>m. committed m \<or> m_state m = JOINING) (ts_members (tp_next built))) t w"
    "to_identity w = m_identity m'"
    unfolding locates_def r' unfolding pros by (auto simp: plan)
  show ?thesis
    using scale_out_plan_changes [OF b, of t v w S T] v w by (simp add: cur plan)
qed

section \<open>Bootstrap\<close>

text \<open>
  C33. Bootstrap: from a valid stored topology that is not at the last version, a bootstrap that is accepted
  publishes the next version without a batch. Its members are the requested ones, in address order, all
  \<^verbatim>\<open>ACTIVE\<close> and each with the configured number of tokens, followed by the other members as they were;
  the result is a valid topology again (so no token is shared), and the snapshot over it can be created.
\<close>

theorem bootstrap_placement_valid:
  assumes "topology_inv re latest" "publishable latest" "BuildBootstrap (HashAlgorithm re) tokens_flag latest ready = Inr next"
    and "0 \<le> rv" "IsSha256Hex dig"
  shows "ts_version next = ts_version latest + 1 \<and> ts_activeBatch next = None \<and> ts_clusterHasInit next \<and>
    map m_identity (take (length ready) (ts_members next)) = sort_key mi_address ready \<and>
    list_all (\<lambda>m. m_state m = ACTIVE \<and> length (m_tokens m) = tokens_flag) (take (length ready) (ts_members next)) \<and>
    drop (length ready) (ts_members next) = filter (\<lambda>m. m_address m \<notin> mi_address ` set ready) (ts_members latest) \<and>
    topology_inv re next \<and> Create re next rv dig = Inr (snapshot_of (canonical next) rv dig)"
proof -
  have inv: "topology_inv re next" "ts_version next = ts_version latest + 1"
    using hash.bootstrap_inv [OF assms(1-3)] by simp_all
  from assms(3) obtain built where b: "BuildInitialPlacement re
      \<lparr> so_current = empty_topology, so_joining = ready, so_tokensPerMember = tokens_flag \<rparr> = Inr built"
    and n: "next = (tp_next built) \<lparr>
                ts_members := ts_members (tp_next built) @
                  filter (\<lambda>m. m_address m \<notin> set (map mi_address ready)) (ts_members latest),
                ts_version := ts_version latest + 1,
                ts_clusterHasInit := ts_clusterHasInit latest \<or> ts_clusterHasInit (tp_next built) \<rparr>"
    by (auto simp: BuildBootstrap_def HashAlgorithm_def Let_def split: sum.splits if_splits)
  note p = initial_placement [OF b, simplified]
  have len: "length (ts_members (tp_next built)) = length ready"
    using arg_cong [OF p(1), of length] by simp
  have "ts_activeBatch next = None"
    using hash.initial_law [of re "\<lparr> so_current = empty_topology, so_joining = ready, so_tokensPerMember = tokens_flag \<rparr>" built] b
    by (simp add: n HashAlgorithm_def empty_topology_def)
  moreover have "Create re next rv dig = Inr (snapshot_of (canonical next) rv dig)"
    using topology_inv_valid [OF inv(1)] assms(4,5) by (simp add: Create_Inr)
  ultimately show ?thesis using inv p len by (simp add: n)
qed

section \<open>Concrete transitions\<close>

definition sample_digest :: string where
  "sample_digest = replicate 64 (CHR ''a'')"

definition joining_state :: TopologyState where
  "joining_state = \<lparr> ts_clusterHasInit = False, ts_version = 2,
     ts_members = [sample_member (CHR ''a'') ''10.0.0.1:80'' INITIAL [], sample_member (CHR ''b'') ''10.0.0.2:80'' INITIAL [],
       sample_member (CHR ''c'') ''10.0.0.3:80'' INITIAL []],
     ts_activeBatch = None \<rparr>"

theorem bootstrap_placement_valid_witness:
  "\<exists>next. BuildBootstrap (HashAlgorithm re2_model) 2 joining_state [identity_c, identity_a] = Inr next \<and>
     map m_identity (take 2 (ts_members next)) = [identity_a, identity_c] \<and> topology_inv re2_model next"
proof -
  have "isl (BuildBootstrap (HashAlgorithm re2_model) 2 joining_state [identity_c, identity_a]) = False" by code_simp
  then obtain st where b: "BuildBootstrap (HashAlgorithm re2_model) 2 joining_state [identity_c, identity_a] = Inr st"
    by (cases "BuildBootstrap (HashAlgorithm re2_model) 2 joining_state [identity_c, identity_a]") auto
  have s: "sort_key mi_address [identity_c, identity_a] = [identity_a, identity_c]" by code_simp
  have d: "IsSha256Hex sample_digest" unfolding sample_digest_def by code_simp
  have "\<not> isl (ValidateAndCanonicalizeTopologyState re2_model joining_state)" by code_simp
  then have v: "valid_topology re2_model joining_state" by (simp add: validate_eq split: if_splits)
  have "\<forall>m \<in> set (ts_members joining_state). m_state m = INITIAL" by code_simp
  with v have i: "topology_inv re2_model joining_state"
    by (simp add: topology_inv_def valid_topology_def wf_members_def one_direction_def holds_tokens_def
        IsCommittedMemberState_def)
  have p: "publishable joining_state" by (simp add: joining_state_def)
  show ?thesis
    using bootstrap_placement_valid [OF i p b _ d, of 1] b unfolding s by (simp add: numeral_2_eq_2)
qed

definition finalised_state :: TopologyState where
  "finalised_state = (case BuildScaleOutFinal sample_state of Inl _ \<Rightarrow> empty_topology | Inr st \<Rightarrow> st)"

theorem prospective_owner_is_final_owner_witness:
  "\<exists>s m. Create re2_model sample_state 5 sample_digest = Inr s \<and> LocateProspectiveOwner s 5 = Inr m \<and>
     m_address m = ''10.0.0.3:80''"
proof -
  have fin: "BuildScaleOutFinal sample_state = Inr finalised_state" by code_simp
  have "isl (Create re2_model sample_state 5 sample_digest) = False" by code_simp
  then obtain s where s: "Create re2_model sample_state 5 sample_digest = Inr s"
    by (cases "Create re2_model sample_state 5 sample_digest") auto
  have "(case Create re2_model finalised_state 6 sample_digest of Inl e \<Rightarrow> Inl e | Inr s \<Rightarrow> LocateOwner s 5) =
      Inr (sample_member (CHR ''c'') ''10.0.0.3:80'' ACTIVE [6, 30])"
    by code_simp
  then obtain s' where s': "Create re2_model finalised_state 6 sample_digest = Inr s'"
    "LocateOwner s' 5 = Inr (sample_member (CHR ''c'') ''10.0.0.3:80'' ACTIVE [6, 30])"
    by (auto split: sum.splits)
  show ?thesis
    using s prospective_owner_is_final_owner [OF s disjI1 [OF fin] s'] by (auto simp: sample_member_def)
qed

definition waiting_state :: TopologyState where
  "waiting_state = sample_placement \<lparr> ts_members := ts_members sample_placement @
     [sample_member (CHR ''c'') ''10.0.0.3:80'' INITIAL []] \<rparr>"

definition started_plan :: TopologyPlan where
  "started_plan = (case BuildScaleOutStart (HashAlgorithm re2_model) 1 waiting_state [identity_c] of
     Inl _ \<Rightarrow> \<lparr> tp_next = empty_topology, tp_ownerChanges = [] \<rparr> | Inr plan \<Rightarrow> plan)"

lemma started: "BuildScaleOutStart (HashAlgorithm re2_model) 1 waiting_state [identity_c] = Inr started_plan"
  by code_simp

lemma scale_out_migration_matches_routing_witness:
  "\<exists>c. c \<in> set (tp_ownerChanges started_plan) \<and> oc_source c = Some identity_a \<and> oc_target c = identity_c \<and>
     list_ex (in_range 3000000000) (oc_ranges c)"
proof -
  have "(case Create re2_model waiting_state 5 sample_digest of Inl e \<Rightarrow> Inl e | Inr s \<Rightarrow> LocateOwner s 3000000000) =
      Inr (sample_member (CHR ''a'') ''10.0.0.1:80'' ACTIVE [10, 0x80000000])"
    by code_simp
  then obtain s where s: "Create re2_model waiting_state 5 sample_digest = Inr s"
    "LocateOwner s 3000000000 = Inr (sample_member (CHR ''a'') ''10.0.0.1:80'' ACTIVE [10, 0x80000000])"
    by (auto split: sum.splits)
  have "(case Create re2_model (tp_next started_plan) 6 sample_digest of Inl e \<Rightarrow> Inl e
      | Inr s \<Rightarrow> LocateProspectiveOwner s 3000000000) = Inr (sample_member (CHR ''c'') ''10.0.0.3:80'' JOINING [3127273450])"
    by code_simp
  then obtain s' where s': "Create re2_model (tp_next started_plan) 6 sample_digest = Inr s'"
    "LocateProspectiveOwner s' 3000000000 = Inr (sample_member (CHR ''c'') ''10.0.0.3:80'' JOINING [3127273450])"
    by (auto split: sum.splits)
  have "identity_a \<noteq> identity_c" by code_simp
  then show ?thesis
    using scale_out_migration_matches_routing [OF started s(1) s'(1) s(2) s'(2), of identity_a identity_c]
    by (auto simp: sample_member_def identity_a_def identity_c_def sample_identity_def)
qed

end
