(* ===== verification/Topology_Keys.thy ===== *)
theory Topology_Keys
  imports Net_Util
begin

text \<open>
  The key layout of \<^verbatim>\<open>cluster/repository/topology_key_helper.cpp\<close>: the tables of a cluster in the coordination
  store, the keys inside them, and the classification of a key reported by a watch.

  \<^verbatim>\<open>compare\<close> on a prefix is \<open>take\<close>, and both size comparisons of the source are kept. Cluster names are the empty
  name or a name that \<^verbatim>\<open>IsValidClusterName\<close> accepts.
\<close>

section \<open>Names\<close>

definition MAX_CLUSTER_NAME_SIZE :: nat where "MAX_CLUSTER_NAME_SIZE = 128"
definition TASK_DIGEST_SIZE :: nat where "TASK_DIGEST_SIZE = 32"
definition TASK_KIND_PREFIX_SIZE :: nat where "TASK_KIND_PREFIX_SIZE = 3"
definition MIN_TASK_ID_SIZE :: nat where "MIN_TASK_ID_SIZE = TASK_KIND_PREFIX_SIZE + 1 + 1 + TASK_DIGEST_SIZE"
definition MAX_SOURCE_ID_SIZE :: nat where "MAX_SOURCE_ID_SIZE = 128"
definition ROOT_PREFIX :: string where "ROOT_PREFIX = ''/datasystem''"
definition COORDINATION_CLUSTER_TABLE :: string where "COORDINATION_CLUSTER_TABLE = ''datasystem/cluster''"
definition LOWER_HEX :: string where "LOWER_HEX = ''0123456789abcdef''"

definition RESERVED_CLUSTER_NAMES :: "string list" where
  "RESERVED_CLUSTER_NAMES = [''topology'', ''tasks'', ''notify'', ''probe'', ''cluster'', ''scale-in-metadata-done'']"

definition char_in :: "char \<Rightarrow> char \<Rightarrow> char \<Rightarrow> bool" where
  "char_in lo hi c \<longleftrightarrow> of_char lo \<le> (of_char c :: nat) \<and> of_char c \<le> (of_char hi :: nat)"

definition IsAlphaNumeric :: "char \<Rightarrow> bool" where
  "IsAlphaNumeric c \<longleftrightarrow> char_in (CHR ''0'') (CHR ''9'') c \<or> char_in (CHR ''A'') (CHR ''Z'') c \<or> char_in (CHR ''a'') (CHR ''z'') c"

definition IsValidClusterName :: "string \<Rightarrow> bool" where
  "IsValidClusterName name \<longleftrightarrow>
     \<not> (name = [] \<or> length name > MAX_CLUSTER_NAME_SIZE \<or> \<not> IsAlphaNumeric (hd name)) \<and>
     name \<notin> set RESERVED_CLUSTER_NAMES \<and>
     list_all (\<lambda>c. IsAlphaNumeric c \<or> c = CHR ''.'' \<or> c = CHR ''_'' \<or> c = CHR ''-'') name"

definition MatchesExactPhysicalKey :: "string \<Rightarrow> string \<Rightarrow> string \<Rightarrow> bool" where
  "MatchesExactPhysicalKey physicalKey table relativeKey \<longleftrightarrow>
     (let separator = length table
      in length physicalKey = separator + 1 + length relativeKey \<and> take separator physicalKey = table \<and>
         physicalKey ! separator = CHR ''/'' \<and> take (length relativeKey) (drop (separator + 1) physicalKey) = relativeKey)"

definition MatchesPhysicalTablePrefix :: "string \<Rightarrow> string \<Rightarrow> bool" where
  "MatchesPhysicalTablePrefix physicalKey table \<longleftrightarrow>
     length physicalKey \<ge> length table + 1 \<and> take (length table) physicalKey = table \<and> physicalKey ! length table = CHR ''/''"

definition IsLowerHex :: "char \<Rightarrow> bool" where
  "IsLowerHex c \<longleftrightarrow> char_in (CHR ''0'') (CHR ''9'') c \<or> char_in (CHR ''a'') (CHR ''f'') c"

definition find_char_from :: "string \<Rightarrow> char \<Rightarrow> nat \<Rightarrow> nat option" where
  "find_char_from s c from = find (\<lambda>i. s ! i = c) [from..<length s]"

definition IsValidTaskId :: "string \<Rightarrow> bool" where
  "IsValidTaskId taskId \<longleftrightarrow>
     \<not> (length taskId < MIN_TASK_ID_SIZE \<or> (take 3 taskId \<noteq> ''m-e'' \<and> take 3 taskId \<noteq> ''d-e'')) \<and>
     (case find_char_from taskId (CHR ''-'') TASK_KIND_PREFIX_SIZE of
        None \<Rightarrow> False
      | Some separator \<Rightarrow>
          \<not> (separator = TASK_KIND_PREFIX_SIZE \<or> \<not> char_in (CHR ''1'') (CHR ''9'') (taskId ! TASK_KIND_PREFIX_SIZE) \<or>
             length taskId - separator - 1 \<noteq> TASK_DIGEST_SIZE) \<and>
          list_all (\<lambda>i. isdigit (taskId ! i)) [TASK_KIND_PREFIX_SIZE..<separator] \<and>
          list_all IsLowerHex (drop (separator + 1) taskId))"

definition KeyHelper_ValidateAddress :: "re2 \<Rightarrow> string \<Rightarrow> unit result" where
  "KeyHelper_ValidateAddress re address =
     (if address = [] then Inl K_INVALID
      else case HostPort_ParseString re HostPort_default address of
             Inl _ \<Rightarrow> Inl K_INVALID
           | Inr hostPort \<Rightarrow> if HostPort_ToString hostPort \<noteq> address then Inl K_INVALID else Inr ())"

definition ValidateSourceId :: "string \<Rightarrow> unit result" where
  "ValidateSourceId sourceId =
     (if sourceId \<noteq> [] \<and> length sourceId \<le> MAX_SOURCE_ID_SIZE then Inr () else Inl K_INVALID)"

definition EncodeScaleInMetadataSourceId :: "string \<Rightarrow> string" where
  "EncodeScaleInMetadataSourceId sourceId =
     concat (map (\<lambda>c. [LOWER_HEX ! (of_char c div 16), LOWER_HEX ! (of_char c mod 16)]) sourceId)"

section \<open>Tables\<close>

datatype TopologyPhysicalKeyKind =
  KIND_UNKNOWN | KIND_TOPOLOGY | KIND_LOCAL_NOTIFY | KIND_LOCAL_PROBE | KIND_MEMBERSHIP | KIND_MIGRATE_TASK | KIND_DELETE_TASK

record TopologyKeyHelper =
  kh_clusterName :: string
  kh_topologyTable :: string
  kh_migrateTaskTable :: string
  kh_deleteTaskTable :: string
  kh_notifyTable :: string
  kh_probeTable :: string
  kh_membershipTable :: string
  kh_etcdMembershipTablePrefix :: string
  kh_scaleInMetadataDoneTable :: string

definition TopologyKeyHelper_make :: "string \<Rightarrow> TopologyKeyHelper" where
  "TopologyKeyHelper_make clusterName =
     (let root = (if clusterName \<noteq> [] then ROOT_PREFIX @ ''/'' @ clusterName else ROOT_PREFIX);
          legacyMembershipTable = ''/'' @ COORDINATION_CLUSTER_TABLE
      in \<lparr> kh_clusterName = clusterName,
           kh_topologyTable = root @ ''/topology'',
           kh_migrateTaskTable = root @ ''/tasks/migrate'',
           kh_deleteTaskTable = root @ ''/tasks/delete'',
           kh_notifyTable = root @ ''/notify'',
           kh_probeTable = root @ ''/probe'',
           kh_membershipTable = root @ ''/cluster'',
           kh_etcdMembershipTablePrefix =
             (if clusterName = [] then legacyMembershipTable else ''/'' @ clusterName @ legacyMembershipTable),
           kh_scaleInMetadataDoneTable = root @ ''/scale-in-metadata-done'' \<rparr>)"

definition KeyHelper_Create :: "string \<Rightarrow> TopologyKeyHelper result" where
  "KeyHelper_Create clusterName =
     (if clusterName \<noteq> [] \<and> \<not> IsValidClusterName clusterName then Inl K_INVALID
      else Inr (TopologyKeyHelper_make clusterName))"

definition TopologyKey :: string where
  "TopologyKey = []"

definition ClassifyPhysicalKey :: "TopologyKeyHelper \<Rightarrow> string \<Rightarrow> string \<Rightarrow> TopologyPhysicalKeyKind" where
  "ClassifyPhysicalKey kh physicalKey localAddress =
     (if MatchesExactPhysicalKey physicalKey (kh_topologyTable kh) TopologyKey then KIND_TOPOLOGY
      else if MatchesExactPhysicalKey physicalKey (kh_notifyTable kh) localAddress then KIND_LOCAL_NOTIFY
      else if MatchesExactPhysicalKey physicalKey (kh_probeTable kh) localAddress then KIND_LOCAL_PROBE
      else if MatchesPhysicalTablePrefix physicalKey (kh_membershipTable kh)
           \<or> MatchesPhysicalTablePrefix physicalKey (kh_etcdMembershipTablePrefix kh) then KIND_MEMBERSHIP
      else if MatchesPhysicalTablePrefix physicalKey (kh_migrateTaskTable kh) then KIND_MIGRATE_TASK
      else if MatchesPhysicalTablePrefix physicalKey (kh_deleteTaskTable kh) then KIND_DELETE_TASK
      else KIND_UNKNOWN)"

section \<open>Keys\<close>

definition TaskKey :: "string \<Rightarrow> string result" where
  "TaskKey taskId = (if IsValidTaskId taskId then Inr taskId else Inl K_INVALID)"

definition NotifyKey :: "re2 \<Rightarrow> string \<Rightarrow> string result" where
  "NotifyKey re address = (case KeyHelper_ValidateAddress re address of Inl e \<Rightarrow> Inl e | Inr _ \<Rightarrow> Inr address)"

definition ProbeKey :: "re2 \<Rightarrow> string \<Rightarrow> string result" where
  "ProbeKey re address = (case KeyHelper_ValidateAddress re address of Inl e \<Rightarrow> Inl e | Inr _ \<Rightarrow> Inr address)"

definition MembershipKey :: "re2 \<Rightarrow> string \<Rightarrow> string result" where
  "MembershipKey re address = (case KeyHelper_ValidateAddress re address of Inl e \<Rightarrow> Inl e | Inr _ \<Rightarrow> Inr address)"

definition ScaleInMetadataDonePrefix :: "64 word \<Rightarrow> string \<Rightarrow> string result" where
  "ScaleInMetadataDonePrefix batchEpoch sourceId =
     (if \<not> batchEpoch > 0 then Inl K_INVALID
      else case ValidateSourceId sourceId of
             Inl e \<Rightarrow> Inl e
           | Inr _ \<Rightarrow> Inr (''e'' @ to_string (unat batchEpoch) @ ''/'' @ EncodeScaleInMetadataSourceId sourceId @ ''/''))"

definition ScaleInMetadataDoneKey :: "64 word \<Rightarrow> string \<Rightarrow> string \<Rightarrow> string result" where
  "ScaleInMetadataDoneKey batchEpoch sourceId taskId =
     (case ScaleInMetadataDonePrefix batchEpoch sourceId of
        Inl e \<Rightarrow> Inl e
      | Inr prefix \<Rightarrow> (case TaskKey taskId of Inl e \<Rightarrow> Inl e | Inr key \<Rightarrow> Inr (prefix @ key)))"

section \<open>Key spaces of different clusters are disjoint\<close>

text \<open>Every table of a cluster that \<^verbatim>\<open>TopologyKeyHelper\<close> names, in the order of its constructor.\<close>

definition tables :: "TopologyKeyHelper \<Rightarrow> string list" where
  "tables kh = [kh_topologyTable kh, kh_migrateTaskTable kh, kh_deleteTaskTable kh, kh_notifyTable kh, kh_probeTable kh,
     kh_membershipTable kh, kh_etcdMembershipTablePrefix kh, kh_scaleInMetadataDoneTable kh]"

fun join_path :: "string list \<Rightarrow> string" where
  "join_path [] = []"
| "join_path (s # ss) = CHR ''/'' # s @ join_path ss"

definition table_paths :: "string \<Rightarrow> string list list" where
  "table_paths c =
     (let root = (if c = [] then [''datasystem''] else [''datasystem'', c])
      in [root @ [''topology''], root @ [''tasks'', ''migrate''], root @ [''tasks'', ''delete''], root @ [''notify''],
          root @ [''probe''], root @ [''cluster''],
          (if c = [] then [''datasystem'', ''cluster''] else [c, ''datasystem'', ''cluster'']),
          root @ [''scale-in-metadata-done'']])"

lemma tables_paths: "tables (TopologyKeyHelper_make c) = map join_path (table_paths c)"
  by (simp add: tables_def table_paths_def TopologyKeyHelper_make_def Let_def ROOT_PREFIX_def COORDINATION_CLUSTER_TABLE_def)

lemma exact_iff: "MatchesExactPhysicalKey k t r \<longleftrightarrow> k = t @ ''/'' @ r"
proof
  assume m: "MatchesExactPhysicalKey k t r"
  then have l: "length t < length k" "take (length t) k = t" "k ! length t = CHR ''/''"
    "drop (length t + 1) k = r" by (auto simp: MatchesExactPhysicalKey_def Let_def)
  have "k = take (length t) k @ k ! length t # drop (Suc (length t)) k" by (rule id_take_nth_drop [OF l(1)])
  then show "k = t @ ''/'' @ r" using l by simp
qed (simp add: MatchesExactPhysicalKey_def)

lemma prefix_iff: "MatchesPhysicalTablePrefix k t \<longleftrightarrow> (\<exists>r. k = t @ ''/'' @ r)"
proof
  assume m: "MatchesPhysicalTablePrefix k t"
  then have l: "length t < length k" "take (length t) k = t" "k ! length t = CHR ''/''"
    by (auto simp: MatchesPhysicalTablePrefix_def)
  have "k = take (length t) k @ k ! length t # drop (Suc (length t)) k" by (rule id_take_nth_drop [OF l(1)])
  then show "\<exists>r. k = t @ ''/'' @ r" using l by auto
qed (auto simp: MatchesPhysicalTablePrefix_def)

lemma segment_split:
  assumes "CHR ''/'' \<notin> set x" "CHR ''/'' \<notin> set y"
  shows "x @ CHR ''/'' # u = y @ CHR ''/'' # v \<longleftrightarrow> x = y \<and> u = v"
  using assms
proof (induction x arbitrary: y)
  case Nil
  then show ?case by (cases y) auto
next
  case (Cons c x)
  then show ?case by (cases y) auto
qed

lemma join_path_prefix:
  assumes "join_path xs @ CHR ''/'' # r = join_path ys @ CHR ''/'' # r'"
    "\<forall>x \<in> set xs. CHR ''/'' \<notin> set x" "\<forall>y \<in> set ys. CHR ''/'' \<notin> set y"
  shows "take (min (length xs) (length ys)) xs = take (min (length xs) (length ys)) ys"
  using assms
proof (induction xs arbitrary: ys)
  case (Cons x xs)
  show ?case
  proof (cases ys)
    case (Cons y ys')
    have e: "\<exists>u. join_path zs @ CHR ''/'' # q = CHR ''/'' # u" for zs q by (cases zs) auto
    obtain u v where u: "join_path xs @ CHR ''/'' # r = CHR ''/'' # u" and v: "join_path ys' @ CHR ''/'' # r' = CHR ''/'' # v"
      using e by metis
    have "x @ CHR ''/'' # u = y @ CHR ''/'' # v" using Cons.prems(1) Cons u v by simp
    then have "x = y" "u = v" using segment_split [of x y u v] Cons.prems(2,3) Cons by auto
    then show ?thesis using Cons.IH [of ys'] Cons.prems(2,3) u v Cons by simp
  qed simp
qed simp

lemma name_no_slash: "IsValidClusterName c \<Longrightarrow> CHR ''/'' \<notin> set c"
  by (auto simp: IsValidClusterName_def list_all_iff IsAlphaNumeric_def char_in_def)

lemma paths_no_slash:
  assumes "c = [] \<or> IsValidClusterName c"
  shows "list_all (list_all (\<lambda>s. CHR ''/'' \<notin> set s)) (table_paths c)"
  using assms name_no_slash [of c] by (cases "c = []") (simp_all add: table_paths_def Let_def)

lemma path_no_slash:
  assumes "c = [] \<or> IsValidClusterName c" "p \<in> set (table_paths c)" "s \<in> set p"
  shows "CHR ''/'' \<notin> set s"
  using paths_no_slash [OF assms(1)] assms(2,3) by (auto simp: list_all_iff)

definition path_shape :: "string \<Rightarrow> string list \<Rightarrow> bool" where
  "path_shape c p \<longleftrightarrow> 2 \<le> length p \<and>
     (if c = [] then p ! 0 = ''datasystem'' \<and> p ! 1 \<in> set RESERVED_CLUSTER_NAMES
      else p ! 0 = ''datasystem'' \<and> p ! 1 = c \<or> p ! 0 = c \<and> p ! 1 = ''datasystem'')"

lemma table_paths_shape: "list_all (path_shape c) (table_paths c)"
  by (cases "c = []") (simp_all add: table_paths_def path_shape_def Let_def RESERVED_CLUSTER_NAMES_def)

lemma paths_apart:
  assumes "c = [] \<or> IsValidClusterName c" "d = [] \<or> IsValidClusterName d" "c \<noteq> d"
    "p \<in> set (table_paths c)" "q \<in> set (table_paths d)"
  shows "take (min (length p) (length q)) p \<noteq> take (min (length p) (length q)) q"
proof
  assume eq: "take (min (length p) (length q)) p = take (min (length p) (length q)) q"
  have s: "path_shape c p" "path_shape d q" using table_paths_shape assms(4,5) by (auto simp: list_all_iff)
  then have l: "2 \<le> min (length p) (length q)" by (simp add: path_shape_def)
  have "p ! i = q ! i" if "i < 2" for i using arg_cong [OF eq, of "\<lambda>xs. xs ! i"] l that by simp
  then have "p ! 0 = q ! 0" "p ! 1 = q ! 1" by simp_all
  moreover have "c \<notin> set RESERVED_CLUSTER_NAMES" "d \<notin> set RESERVED_CLUSTER_NAMES" "''datasystem'' \<notin> set RESERVED_CLUSTER_NAMES"
    using assms(1,2) by (auto simp: IsValidClusterName_def RESERVED_CLUSTER_NAMES_def)
  ultimately show False using s assms(3) unfolding path_shape_def by (auto split: if_splits)
qed

lemma tables_apart:
  assumes "c = [] \<or> IsValidClusterName c" "d = [] \<or> IsValidClusterName d" "c \<noteq> d"
    "t \<in> set (tables (TopologyKeyHelper_make c))" "u \<in> set (tables (TopologyKeyHelper_make d))"
  shows "t @ ''/'' @ r \<noteq> u @ ''/'' @ r'"
proof
  assume eq: "t @ ''/'' @ r = u @ ''/'' @ r'"
  obtain p q where p: "p \<in> set (table_paths c)" "t = join_path p" and q: "q \<in> set (table_paths d)" "u = join_path q"
    using assms(4,5) by (auto simp: tables_paths)
  have "join_path p @ CHR ''/'' # r = join_path q @ CHR ''/'' # r'" using eq p q by simp
  from join_path_prefix [OF this] path_no_slash assms(1,2) p(1) q(1)
  have "take (min (length p) (length q)) p = take (min (length p) (length q)) q" by blast
  with paths_apart [OF assms(1-3) p(1) q(1)] show False by simp
qed

text \<open>
  C36. Cluster isolation: two accepted cluster names that differ (one may be the empty name) never share a key.
  A physical key in any table of one cluster, the completion records of a scale-in included, is in no
  table of the other, and the key helper of the other classifies it as unknown, whatever the local address.
\<close>

theorem cluster_keyspaces_disjoint:
  assumes "KeyHelper_Create c = Inr h" "KeyHelper_Create d = Inr g" "c \<noteq> d"
    and "t \<in> set (tables g)" "MatchesPhysicalTablePrefix physicalKey t" "u \<in> set (tables h)"
  shows "\<not> MatchesPhysicalTablePrefix physicalKey u \<and> ClassifyPhysicalKey h physicalKey localAddress = KIND_UNKNOWN"
proof -
  have v: "c = [] \<or> IsValidClusterName c" "d = [] \<or> IsValidClusterName d"
    and h: "h = TopologyKeyHelper_make c" and g: "g = TopologyKeyHelper_make d"
    using assms(1,2) by (auto simp: KeyHelper_Create_def split: if_splits)
  obtain r where key: "physicalKey = t @ ''/'' @ r" using assms(5) by (auto simp: prefix_iff)
  have apart: "physicalKey \<noteq> u @ ''/'' @ r'" if "u \<in> set (tables h)" for u r'
    using tables_apart [OF v(2,1), of t u r r'] assms(3,4) that by (simp add: h g key)
  then have "\<not> MatchesExactPhysicalKey physicalKey u x" "\<not> MatchesPhysicalTablePrefix physicalKey u"
    if "u \<in> set (tables h)" for u x
    using that by (simp_all only: exact_iff prefix_iff) blast+
  with assms(6) show ?thesis by (simp add: ClassifyPhysicalKey_def tables_def)
qed

theorem cluster_keyspaces_disjoint_witness:
  "\<not> MatchesPhysicalTablePrefix ''/datasystem/b/scale-in-metadata-done/e2'' ''/datasystem/a/scale-in-metadata-done''
   \<and> ClassifyPhysicalKey (TopologyKeyHelper_make ''a'') ''/datasystem/b/scale-in-metadata-done/e2'' ''10.0.0.1:80'' = KIND_UNKNOWN"
proof -
  have c: "KeyHelper_Create ''a'' = Inr (TopologyKeyHelper_make ''a'')" "KeyHelper_Create ''b'' = Inr (TopologyKeyHelper_make ''b'')"
    by (code_simp, code_simp)
  have t: "''/datasystem/b/scale-in-metadata-done'' \<in> set (tables (TopologyKeyHelper_make ''b''))" by code_simp
  have u: "''/datasystem/a/scale-in-metadata-done'' \<in> set (tables (TopologyKeyHelper_make ''a''))" by code_simp
  have m: "MatchesPhysicalTablePrefix ''/datasystem/b/scale-in-metadata-done/e2'' ''/datasystem/b/scale-in-metadata-done''"
    by code_simp
  have "''a'' \<noteq> ''b''" by simp
  from cluster_keyspaces_disjoint [OF c this t m u] show ?thesis by simp
qed

section \<open>Keys of completion records\<close>

lemma hex_pair_inj:
  assumes "[LOWER_HEX ! (of_char c div 16), LOWER_HEX ! (of_char c mod 16)] =
    [LOWER_HEX ! (of_char d div 16), LOWER_HEX ! (of_char d mod 16)]"
  shows "c = d"
proof -
  have inj: "x = y" if "x < 16" "y < 16" "LOWER_HEX ! x = LOWER_HEX ! y" for x y :: nat
  proof -
    have "distinct LOWER_HEX" "length LOWER_HEX = 16" by (simp_all add: LOWER_HEX_def)
    with that show ?thesis using nth_eq_iff_index_eq by metis
  qed
  have b: "of_char x div 16 < (16 :: nat)" for x :: char
  proof -
    have "of_char x < (256 :: nat)" by simp
    then show ?thesis by (simp add: less_mult_imp_div_less)
  qed
  have "of_char c div 16 = (of_char d div 16 :: nat)" "of_char c mod 16 = (of_char d mod 16 :: nat)"
    using assms inj [OF b b] inj [of "of_char c mod 16" "of_char d mod 16"] by auto
  then have "of_char c = (of_char d :: nat)" by (metis div_mult_mod_eq)
  then show ?thesis by simp
qed

lemma encode_source_inj: "EncodeScaleInMetadataSourceId s = EncodeScaleInMetadataSourceId t \<Longrightarrow> s = t"
proof (induction s arbitrary: t)
  case Nil
  then show ?case by (cases t) (auto simp: EncodeScaleInMetadataSourceId_def)
next
  case (Cons c s)
  then obtain d t' where t: "t = d # t'" by (cases t) (auto simp: EncodeScaleInMetadataSourceId_def)
  from Cons.prems t have "c = d" by (intro hex_pair_inj) (auto simp: EncodeScaleInMetadataSourceId_def)
  with Cons t show ?case by (auto simp: EncodeScaleInMetadataSourceId_def)
qed

end
