(* ===== verification/Topology_Codec.thy ===== *)
theory Topology_Codec
  imports Topology_Snapshot Topology_Keys
begin

text \<open>
  The encoding of topologies, tasks and notifications in \<^verbatim>\<open>cluster/repository/topology_repository_codec.cpp\<close>.

  The messages of \<^verbatim>\<open>protos/cluster_topology.proto\<close> are records; enum fields are integers, because proto3 enums are
  open, and map fields are ordered association lists. The wire format itself is generated code: serialisation
  and parsing of each message are the fields of the parameter \<open>wire\<close>, serialisation may fail, and the hypothesis
  \<open>wire_ok\<close> is that parsing returns the message that was serialised. For composed notifications, \<open>notify_merges\<close> is the
  documented rule that parsing a concatenation merges the two messages field by field. Nothing is assumed about the
  order in which the serialiser writes fields; \<open>notify_wire\<close> is a concrete format that satisfies both hypotheses.
\<close>

section \<open>Messages\<close>

record MembershipPb =
  mp_tokens :: "32 word list"
  mp_id :: string
  mp_state :: int

record TokenRangePb =
  rp_owner_address :: string
  rp_from :: "32 word"
  rp_end :: "32 word"
  rp_finished :: bool

record MigrateTaskPb =
  mtp_target_address :: string
  mtp_source_ranges :: "TokenRangePb list"

record DeleteNodeTaskPb =
  dtp_failed_address :: string
  dtp_recovery_ranges :: "TokenRangePb list"

record ChangeBatchPb =
  cb_type :: int
  cb_epoch :: "64 word"

record TaskNotifyPb =
  np_active_batch :: "ChangeBatchPb option"
  np_task_ids :: "string list"
  np_restart_timestamps_by_address :: "(string, int) omap"

record ClusterTopologyPb =
  cp_cluster_has_init :: bool
  cp_members :: "(string, MembershipPb) omap"
  cp_version :: "64 word"
  cp_schema_version :: string
  cp_active_batch :: "ChangeBatchPb option"

record Wire =
  ser_topology :: "ClusterTopologyPb \<Rightarrow> string option"
  parse_topology :: "string \<Rightarrow> ClusterTopologyPb option"
  ser_migrate :: "MigrateTaskPb \<Rightarrow> string option"
  parse_migrate :: "string \<Rightarrow> MigrateTaskPb option"
  ser_delete :: "DeleteNodeTaskPb \<Rightarrow> string option"
  parse_delete :: "string \<Rightarrow> DeleteNodeTaskPb option"
  ser_notify :: "TaskNotifyPb \<Rightarrow> string option"
  parse_notify :: "string \<Rightarrow> TaskNotifyPb option"

definition MAX_VALUE_BYTES :: nat where "MAX_VALUE_BYTES = 4 * 1024 * 1024"
definition MAX_NOTIFY_TASK_REFS :: nat where "MAX_NOTIFY_TASK_REFS = 4096"
definition MAX_NOTIFY_VALUE_BYTES :: nat where "MAX_NOTIFY_VALUE_BYTES = 4 * 1024 * 1024"
definition MAX_RESTART_NOTIFY_ENTRIES :: nat where "MAX_RESTART_NOTIFY_ENTRIES = 10000"
definition MAX_TOPOLOGY_MEMBERS :: nat where "MAX_TOPOLOGY_MEMBERS = 10000"
definition MAX_TOPOLOGY_TOKENS :: nat where "MAX_TOPOLOGY_TOKENS = 40000"
definition SCHEMA_VERSION :: string where "SCHEMA_VERSION = ''1''"

section \<open>Helpers\<close>

definition SerializeCanonical :: "('m \<Rightarrow> string option) \<Rightarrow> 'm \<Rightarrow> string result" where
  "SerializeCanonical ser message =
     (case ser message of
        None \<Rightarrow> Inl K_RUNTIME_ERROR
      | Some encoded \<Rightarrow> if length encoded \<le> MAX_VALUE_BYTES then Inr encoded else Inl K_INVALID)"

fun ToPbType :: "TopologyChangeType \<Rightarrow> int" where
  "ToPbType SCALE_OUT = 0"
| "ToPbType SCALE_IN = 1"
| "ToPbType FAILURE = 2"

definition FromPbType :: "int \<Rightarrow> TopologyChangeType result" where
  "FromPbType type =
     (if type = 0 then Inr SCALE_OUT else if type = 1 then Inr SCALE_IN else if type = 2 then Inr FAILURE
      else Inl K_INVALID)"

fun state_code :: "MemberState \<Rightarrow> int" where
  "state_code INITIAL = 0"
| "state_code JOINING = 1"
| "state_code ACTIVE = 2"
| "state_code PRE_LEAVING = 3"
| "state_code LEAVING = 4"
| "state_code FAILED = 5"

definition state_of_code :: "int \<Rightarrow> MemberState result" where
  "state_of_code i =
     (if \<not> (i \<ge> 0 \<and> i \<le> 5) then Inl K_INVALID
      else Inr (if i = 0 then INITIAL else if i = 1 then JOINING else if i = 2 then ACTIVE
                else if i = 3 then PRE_LEAVING else if i = 4 then LEAVING else FAILED))"

definition ValidateTaskId :: "string \<Rightarrow> unit result" where
  "ValidateTaskId taskId = (case TaskKey taskId of Inl e \<Rightarrow> Inl e | Inr _ \<Rightarrow> Inr ())"

definition ValidateTaskContext :: "string \<Rightarrow> char \<Rightarrow> 64 word \<Rightarrow> unit result" where
  "ValidateTaskContext taskId kind epoch =
     (case ValidateTaskId taskId of
        Inl e \<Rightarrow> Inl e
      | Inr _ \<Rightarrow>
          let expected = [kind, CHR ''-'', CHR ''e''] @ to_string (unat epoch) @ ''-''
          in if take (length expected) taskId = expected then Inr () else Inl K_INVALID)"

definition ValidateMemberAddress :: "re2 \<Rightarrow> string \<Rightarrow> unit result" where
  "ValidateMemberAddress re address = (case NotifyKey re address of Inl e \<Rightarrow> Inl e | Inr _ \<Rightarrow> Inr ())"

fun ranges_loop :: "string \<Rightarrow> 32 word option \<Rightarrow> TopologyTaskRange list \<Rightarrow> bool" where
  "ranges_loop executor prev [] = True"
| "ranges_loop executor prev (rng # rest) =
     (if ttr_ownerAddress rng \<noteq> executor \<or> tr_from (ttr_range rng) > tr_end (ttr_range rng) then False
      else if (case prev of None \<Rightarrow> False | Some e \<Rightarrow> e \<ge> tr_from (ttr_range rng)) then False
      else ranges_loop executor (Some (tr_end (ttr_range rng))) rest)"

definition IsCanonicalRanges :: "TopologyTaskRange list \<Rightarrow> string \<Rightarrow> bool" where
  "IsCanonicalRanges ranges executor =
     (if ranges = [] \<or> length ranges > MAX_TOPOLOGY_TASK_RANGES \<or> executor = [] then False
      else ranges_loop executor None ranges)"

definition EncodeRanges :: "TopologyTaskRange list \<Rightarrow> TokenRangePb list" where
  "EncodeRanges = map (\<lambda>rng. \<lparr> rp_owner_address = ttr_ownerAddress rng, rp_from = tr_from (ttr_range rng),
     rp_end = tr_end (ttr_range rng), rp_finished = ttr_finished rng \<rparr>)"

definition DecodeRanges :: "TokenRangePb list \<Rightarrow> (TopologyTaskRange list \<times> string) result" where
  "DecodeRanges input =
     (if \<not> (input \<noteq> [] \<and> length input \<le> MAX_TOPOLOGY_TASK_RANGES) then Inl K_INVALID
      else
      let decoded = map (\<lambda>rangePb. \<lparr> ttr_ownerAddress = rp_owner_address rangePb,
             ttr_range = \<lparr> tr_from = rp_from rangePb, tr_end = rp_end rangePb \<rparr>, ttr_finished = rp_finished rangePb \<rparr>) input
      in if decoded = [] then Inl K_INVALID
         else let owner = ttr_ownerAddress (hd decoded)
              in if IsCanonicalRanges decoded owner then Inr (decoded, owner) else Inl K_INVALID)"

fun restart_loop :: "re2 \<Rightarrow> (string, int) omap \<Rightarrow> unit result" where
  "restart_loop re [] = Inr ()"
| "restart_loop re ((address, timestamp) # rest) =
     (case ValidateMemberAddress re address of
        Inl e \<Rightarrow> Inl e
      | Inr _ \<Rightarrow> if timestamp > 0 then restart_loop re rest else Inl K_INVALID)"

definition ValidateRestartFacts :: "re2 \<Rightarrow> (string, int) omap \<Rightarrow> unit result" where
  "ValidateRestartFacts re restartTimestamps =
     (if length restartTimestamps > MAX_RESTART_NOTIFY_ENTRIES then Inl K_INVALID else restart_loop re restartTimestamps)"

definition EncodeActiveBatch :: "ActiveBatch \<Rightarrow> ChangeBatchPb result" where
  "EncodeActiveBatch activeBatch =
     (if ab_epoch activeBatch > 0
      then Inr \<lparr> cb_type = ToPbType (ab_type activeBatch), cb_epoch = ab_epoch activeBatch \<rparr> else Inl K_INVALID)"

definition DecodeActiveBatch :: "ChangeBatchPb \<Rightarrow> ActiveBatch result" where
  "DecodeActiveBatch input =
     (if cb_epoch input > 0
      then case FromPbType (cb_type input) of Inl e \<Rightarrow> Inl e | Inr type \<Rightarrow> Inr \<lparr> ab_type = type, ab_epoch = cb_epoch input \<rparr>
      else Inl K_INVALID)"

section \<open>Topologies\<close>

definition encode_member :: "(string, MembershipPb) omap \<Rightarrow> Member \<Rightarrow> (string, MembershipPb) omap" where
  "encode_member pbs m =
     om_put (m_address m) \<lparr> mp_tokens = m_tokens m, mp_id = m_id m, mp_state = state_code (m_state m) \<rparr> pbs"

definition EncodeTopology :: "re2 \<Rightarrow> Wire \<Rightarrow> TopologyState \<Rightarrow> string result" where
  "EncodeTopology re wire state =
     (case ValidateAndCanonicalizeTopologyState re state of
        Inl e \<Rightarrow> Inl e
      | Inr canon \<Rightarrow>
          SerializeCanonical (ser_topology wire)
            \<lparr> cp_cluster_has_init = ts_clusterHasInit canon,
              cp_members = foldl encode_member [] (ts_members canon),
              cp_version = ts_version canon,
              cp_schema_version = SCHEMA_VERSION,
              cp_active_batch = map_option (\<lambda>b. \<lparr> cb_type = ToPbType (ab_type b), cb_epoch = ab_epoch b \<rparr>)
                (ts_activeBatch canon) \<rparr>)"

fun token_count_loop :: "(string, MembershipPb) omap \<Rightarrow> nat \<Rightarrow> unit result" where
  "token_count_loop [] tokenCount = Inr ()"
| "token_count_loop ((address, memberPb) # rest) tokenCount =
     (let tokenCount = tokenCount + length (mp_tokens memberPb)
      in if tokenCount \<le> MAX_TOPOLOGY_TOKENS then token_count_loop rest tokenCount else Inl K_INVALID)"

fun decode_members :: "(string, MembershipPb) omap \<Rightarrow> Member list result" where
  "decode_members [] = Inr []"
| "decode_members ((address, memberPb) # rest) =
     (case state_of_code (mp_state memberPb) of
        Inl e \<Rightarrow> Inl e
      | Inr st \<Rightarrow>
          (case decode_members rest of
             Inl e \<Rightarrow> Inl e
           | Inr members \<Rightarrow>
               Inr (\<lparr> m_identity = \<lparr> mi_id = mp_id memberPb, mi_address = address \<rparr>, m_state = st,
                      m_tokens = mp_tokens memberPb \<rparr> # members)))"

definition DecodeTopology :: "re2 \<Rightarrow> Wire \<Rightarrow> string \<Rightarrow> TopologyState result" where
  "DecodeTopology re wire value =
     (if length value > MAX_VALUE_BYTES then Inl K_INVALID
      else case parse_topology wire value of
        None \<Rightarrow> Inl K_INVALID
      | Some pb \<Rightarrow>
        if cp_schema_version pb \<noteq> SCHEMA_VERSION then Inl K_INVALID
        else if length (cp_members pb) > MAX_TOPOLOGY_MEMBERS then Inl K_INVALID
        else
      (case token_count_loop (cp_members pb) 0 of
        Inl e \<Rightarrow> Inl e
      | Inr _ \<Rightarrow>
      (case decode_members (cp_members pb) of
        Inl e \<Rightarrow> Inl e
      | Inr members \<Rightarrow>
      (case (case cp_active_batch pb of
               None \<Rightarrow> Inr None
             | Some b \<Rightarrow>
                 (case FromPbType (cb_type b) of
                    Inl e \<Rightarrow> Inl e
                  | Inr type \<Rightarrow> Inr (Some \<lparr> ab_type = type, ab_epoch = cb_epoch b \<rparr>))) of
        Inl e \<Rightarrow> Inl e
      | Inr batch \<Rightarrow>
          ValidateAndCanonicalizeTopologyState re
            \<lparr> ts_clusterHasInit = cp_cluster_has_init pb, ts_version = cp_version pb, ts_members = members,
              ts_activeBatch = batch \<rparr>))))"

section \<open>Tasks\<close>

definition EncodeMigrateTask :: "re2 \<Rightarrow> Wire \<Rightarrow> TopologyMigrateTask \<Rightarrow> string result" where
  "EncodeMigrateTask re wire task =
     (case ValidateTaskContext (mt_taskId task) (CHR ''m'') (mt_epoch task) of
        Inl e \<Rightarrow> Inl e
      | Inr _ \<Rightarrow>
      (case ValidateMemberAddress re (mt_targetAddress task) of
        Inl e \<Rightarrow> Inl e
      | Inr _ \<Rightarrow>
      (case ValidateMemberAddress re (mt_executorAddress task) of
        Inl e \<Rightarrow> Inl e
      | Inr _ \<Rightarrow>
          if \<not> (mt_epoch task > 0 \<and> IsCanonicalRanges (mt_sourceRanges task) (mt_executorAddress task)) then Inl K_INVALID
          else SerializeCanonical (ser_migrate wire)
                 \<lparr> mtp_target_address = mt_targetAddress task, mtp_source_ranges = EncodeRanges (mt_sourceRanges task) \<rparr>)))"

definition DecodeMigrateTask ::
  "re2 \<Rightarrow> Wire \<Rightarrow> string \<Rightarrow> TopologyChangeType \<Rightarrow> 64 word \<Rightarrow> string \<Rightarrow> TopologyMigrateTask result" where
  "DecodeMigrateTask re wire taskId type epoch value =
     (case ValidateTaskContext taskId (CHR ''m'') epoch of
        Inl e \<Rightarrow> Inl e
      | Inr _ \<Rightarrow>
        if \<not> (epoch > 0 \<and> length value \<le> MAX_VALUE_BYTES) then Inl K_INVALID
        else
      (case parse_migrate wire value of
        None \<Rightarrow> Inl K_INVALID
      | Some pb \<Rightarrow>
        if mtp_target_address pb = [] then Inl K_INVALID
        else
      (case ValidateMemberAddress re (mtp_target_address pb) of
        Inl e \<Rightarrow> Inl e
      | Inr _ \<Rightarrow>
      (case DecodeRanges (mtp_source_ranges pb) of
        Inl e \<Rightarrow> Inl e
      | Inr (ranges, executor) \<Rightarrow>
          Inr \<lparr> mt_taskId = taskId, mt_type = type, mt_epoch = epoch, mt_executorAddress = executor,
                mt_targetAddress = mtp_target_address pb, mt_sourceRanges = ranges \<rparr>))))"

definition EncodeDeleteTask :: "re2 \<Rightarrow> Wire \<Rightarrow> TopologyDeleteTask \<Rightarrow> string result" where
  "EncodeDeleteTask re wire task =
     (case ValidateTaskContext (dt_taskId task) (CHR ''d'') (dt_epoch task) of
        Inl e \<Rightarrow> Inl e
      | Inr _ \<Rightarrow>
      (case ValidateMemberAddress re (dt_failedAddress task) of
        Inl e \<Rightarrow> Inl e
      | Inr _ \<Rightarrow>
      (case ValidateMemberAddress re (dt_executorAddress task) of
        Inl e \<Rightarrow> Inl e
      | Inr _ \<Rightarrow>
          if \<not> (dt_epoch task > 0 \<and> IsCanonicalRanges (dt_recoveryRanges task) (dt_executorAddress task)) then Inl K_INVALID
          else SerializeCanonical (ser_delete wire)
                 \<lparr> dtp_failed_address = dt_failedAddress task, dtp_recovery_ranges = EncodeRanges (dt_recoveryRanges task) \<rparr>)))"

definition DecodeDeleteTask :: "re2 \<Rightarrow> Wire \<Rightarrow> string \<Rightarrow> 64 word \<Rightarrow> string \<Rightarrow> TopologyDeleteTask result" where
  "DecodeDeleteTask re wire taskId epoch value =
     (case ValidateTaskContext taskId (CHR ''d'') epoch of
        Inl e \<Rightarrow> Inl e
      | Inr _ \<Rightarrow>
        if \<not> (epoch > 0 \<and> length value \<le> MAX_VALUE_BYTES) then Inl K_INVALID
        else
      (case parse_delete wire value of
        None \<Rightarrow> Inl K_INVALID
      | Some pb \<Rightarrow>
        if dtp_failed_address pb = [] then Inl K_INVALID
        else
      (case ValidateMemberAddress re (dtp_failed_address pb) of
        Inl e \<Rightarrow> Inl e
      | Inr _ \<Rightarrow>
      (case DecodeRanges (dtp_recovery_ranges pb) of
        Inl e \<Rightarrow> Inl e
      | Inr (ranges, executor) \<Rightarrow>
          Inr \<lparr> dt_taskId = taskId, dt_epoch = epoch, dt_executorAddress = executor,
                dt_failedAddress = dtp_failed_address pb, dt_recoveryRanges = ranges \<rparr>))))"

section \<open>Notifications\<close>

fun notify_ids_loop :: "string \<Rightarrow> string list \<Rightarrow> unit result" where
  "notify_ids_loop prefix [] = Inr ()"
| "notify_ids_loop prefix (taskId # rest) =
     (case ValidateTaskId taskId of
        Inl e \<Rightarrow> Inl e
      | Inr _ \<Rightarrow> if take (length prefix) taskId = prefix then notify_ids_loop prefix rest else Inl K_INVALID)"

definition EncodeNotify :: "re2 \<Rightarrow> Wire \<Rightarrow> TopologyTaskNotify \<Rightarrow> string result" where
  "EncodeNotify re wire notify =
     (if \<not> (sorted (tn_taskIds notify) \<and> distinct_adj (tn_taskIds notify) \<and> length (tn_taskIds notify) \<le> MAX_NOTIFY_TASK_REFS)
      then Inl K_INVALID
      else if \<not> (tn_activeBatch notify \<noteq> None \<or> tn_taskIds notify = []) then Inl K_INVALID
      else
      (case ValidateRestartFacts re (tn_restartTimestampsByAddress notify) of
        Inl e \<Rightarrow> Inl e
      | Inr _ \<Rightarrow>
      (case (case tn_activeBatch notify of
               None \<Rightarrow> Inr None
             | Some b \<Rightarrow> (case EncodeActiveBatch b of Inl e \<Rightarrow> Inl e | Inr pb \<Rightarrow> Inr (Some pb))) of
        Inl e \<Rightarrow> Inl e
      | Inr batchPb \<Rightarrow>
      (case (case tn_activeBatch notify of
               None \<Rightarrow> Inr ()
             | Some b \<Rightarrow> notify_ids_loop (if ab_type b = FAILURE then ''d-e'' else ''m-e'') (tn_taskIds notify)) of
        Inl e \<Rightarrow> Inl e
      | Inr _ \<Rightarrow>
      (case SerializeCanonical (ser_notify wire)
              \<lparr> np_active_batch = batchPb, np_task_ids = tn_taskIds notify,
                np_restart_timestamps_by_address =
                  foldl (\<lambda>pbs p. om_put (fst p) (snd p) pbs) [] (tn_restartTimestampsByAddress notify) \<rparr> of
        Inl e \<Rightarrow> Inl e
      | Inr encoded \<Rightarrow> if length encoded \<le> MAX_NOTIFY_VALUE_BYTES then Inr encoded else Inl K_INVALID)))))"

definition ComposeNotify :: "re2 \<Rightarrow> Wire \<Rightarrow> TopologyTaskNotify \<Rightarrow> string \<Rightarrow> string result" where
  "ComposeNotify re wire taskNotify canonicalRestartNotify =
     (if tn_restartTimestampsByAddress taskNotify \<noteq> [] then Inl K_INVALID
      else case EncodeNotify re wire taskNotify of
             Inl e \<Rightarrow> Inl e
           | Inr encoded \<Rightarrow>
               if length canonicalRestartNotify \<le> MAX_NOTIFY_VALUE_BYTES - length encoded
               then Inr (encoded @ canonicalRestartNotify) else Inl K_INVALID)"

definition DecodeNotify :: "re2 \<Rightarrow> Wire \<Rightarrow> string \<Rightarrow> TopologyTaskNotify result" where
  "DecodeNotify re wire value =
     (if length value > MAX_NOTIFY_VALUE_BYTES then Inl K_INVALID
      else case parse_notify wire value of
        None \<Rightarrow> Inl K_INVALID
      | Some pb \<Rightarrow>
      (case (case np_active_batch pb of
               None \<Rightarrow> Inr None
             | Some b \<Rightarrow> (case DecodeActiveBatch b of Inl e \<Rightarrow> Inl e | Inr batch \<Rightarrow> Inr (Some batch))) of
        Inl e \<Rightarrow> Inl e
      | Inr batch \<Rightarrow>
          let decoded = \<lparr> tn_activeBatch = batch, tn_taskIds = np_task_ids pb,
                tn_restartTimestampsByAddress = np_restart_timestamps_by_address pb \<rparr>
          in (case EncodeNotify re wire decoded of
                Inl e \<Rightarrow> Inl e
              | Inr canon \<Rightarrow> if canon = value then Inr decoded else Inl K_INVALID)))"

section \<open>Round trips\<close>

definition wire_ok :: "Wire \<Rightarrow> bool" where
  "wire_ok wire \<longleftrightarrow>
     (\<forall>m b. ser_topology wire m = Some b \<longrightarrow> parse_topology wire b = Some m) \<and>
     (\<forall>m b. ser_migrate wire m = Some b \<longrightarrow> parse_migrate wire b = Some m) \<and>
     (\<forall>m b. ser_delete wire m = Some b \<longrightarrow> parse_delete wire b = Some m) \<and>
     (\<forall>m b. ser_notify wire m = Some b \<longrightarrow> parse_notify wire b = Some m)"

text \<open>
  Parsing a concatenation of two serialised messages gives their merge: a scalar field keeps its last value other
  than the default, an embedded message is merged field by field, repeated fields are
  concatenated, and the last entry of a map key wins. Nothing is assumed about the order in which a serialiser
  writes the fields.
\<close>

definition merge_batch :: "ChangeBatchPb \<Rightarrow> ChangeBatchPb \<Rightarrow> ChangeBatchPb" where
  "merge_batch a b =
     \<lparr> cb_type = (if cb_type b = 0 then cb_type a else cb_type b),
       cb_epoch = (if cb_epoch b = 0 then cb_epoch a else cb_epoch b) \<rparr>"

definition merge_optional :: "ChangeBatchPb option \<Rightarrow> ChangeBatchPb option \<Rightarrow> ChangeBatchPb option" where
  "merge_optional a b =
     (case b of None \<Rightarrow> a | Some y \<Rightarrow> (case a of None \<Rightarrow> Some y | Some x \<Rightarrow> Some (merge_batch x y)))"

definition merge_notify :: "TaskNotifyPb \<Rightarrow> TaskNotifyPb \<Rightarrow> TaskNotifyPb" where
  "merge_notify a b =
     \<lparr> np_active_batch = merge_optional (np_active_batch a) (np_active_batch b),
       np_task_ids = np_task_ids a @ np_task_ids b,
       np_restart_timestamps_by_address =
         foldl (\<lambda>pbs p. om_put (fst p) (snd p) pbs) (np_restart_timestamps_by_address a)
           (np_restart_timestamps_by_address b) \<rparr>"

definition notify_merges :: "Wire \<Rightarrow> bool" where
  "notify_merges wire \<longleftrightarrow>
     (\<forall>x y a b. parse_notify wire x = Some a \<longrightarrow> parse_notify wire y = Some b \<longrightarrow>
        parse_notify wire (x @ y) = Some (merge_notify a b))"

lemma FromPbType_ToPbType [simp]: "FromPbType (ToPbType type) = Inr type"
  by (cases type) (simp_all add: FromPbType_def)

lemma state_of_state_code [simp]: "state_of_code (state_code s) = Inr s"
  by (cases s) (simp_all add: state_of_code_def)

lemma om_put_last: "\<forall>p \<in> set m. fst p < k \<Longrightarrow> om_put k v m = m @ [(k, v)]"
  by (induction m) (auto simp: less_not_sym)

lemma foldl_om_put_append:
  assumes "sorted_wrt (<) (map f xs)" "\<forall>p \<in> set acc. \<forall>x \<in> set xs. fst p < f x"
  shows "foldl (\<lambda>pbs x. om_put (f x) (g x) pbs) acc xs = acc @ map (\<lambda>x. (f x, g x)) xs"
  using assms by (induction xs arbitrary: acc) (auto simp: om_put_last)

lemma foldl_om_put: "sorted_wrt (<) (map f xs) \<Longrightarrow> foldl (\<lambda>pbs x. om_put (f x) (g x) pbs) [] xs = map (\<lambda>x. (f x, g x)) xs"
  using foldl_om_put_append [of f xs "[]" g] by simp

definition member_pb :: "Member \<Rightarrow> MembershipPb" where
  "member_pb m = \<lparr> mp_tokens = m_tokens m, mp_id = m_id m, mp_state = state_code (m_state m) \<rparr>"

lemma encode_members:
  "sorted_wrt (<) (map m_address ms) \<Longrightarrow> foldl encode_member [] ms = map (\<lambda>m. (m_address m, member_pb m)) ms"
  using foldl_om_put [of m_address ms member_pb]
  by (simp add: encode_member_def [abs_def] member_pb_def [abs_def])

lemma decode_encode_members: "decode_members (map (\<lambda>m. (m_address m, member_pb m)) ms) = Inr ms"
  by (induction ms) (simp_all add: member_pb_def)

lemma token_count_map:
  "token_count_loop (map (\<lambda>m. (m_address m, member_pb m)) ms) n =
     (if ms = [] \<or> n + length (concat (map m_tokens ms)) \<le> MAX_TOPOLOGY_TOKENS then Inr () else Inl K_INVALID)"
  by (induction ms arbitrary: n) (auto simp: member_pb_def Let_def)

definition topology_pb :: "TopologyState \<Rightarrow> ClusterTopologyPb" where
  "topology_pb st =
     \<lparr> cp_cluster_has_init = ts_clusterHasInit st, cp_members = map (\<lambda>m. (m_address m, member_pb m)) (ts_members st),
       cp_version = ts_version st, cp_schema_version = SCHEMA_VERSION,
       cp_active_batch = map_option (\<lambda>b. \<lparr> cb_type = ToPbType (ab_type b), cb_epoch = ab_epoch b \<rparr>) (ts_activeBatch st) \<rparr>"

lemma canonical_strict:
  assumes "valid_topology re st"
  shows "sorted_wrt (<) (map m_address (ts_members (canonical st)))"
  using valid_canonical [OF assms] by (simp add: strict_sorted_iff valid_topology_def)

lemma EncodeTopology_eq:
  "EncodeTopology re wire st =
     (if valid_topology re st then SerializeCanonical (ser_topology wire) (topology_pb (canonical st)) else Inl K_INVALID)"
  using encode_members [OF canonical_strict, of re st]
  by (simp add: EncodeTopology_def validate_eq topology_pb_def)

lemma topology_pb_simps:
  "cp_cluster_has_init (topology_pb st) = ts_clusterHasInit st" "cp_version (topology_pb st) = ts_version st"
  "cp_members (topology_pb st) = map (\<lambda>m. (m_address m, member_pb m)) (ts_members st)"
  "cp_schema_version (topology_pb st) = SCHEMA_VERSION"
  by (simp_all add: topology_pb_def)

lemma topology_pb_batch:
  "(case cp_active_batch (topology_pb st) of None \<Rightarrow> Inr None
      | Some b \<Rightarrow> (case FromPbType (cb_type b) of Inl e \<Rightarrow> Inl e
          | Inr type \<Rightarrow> Inr (Some \<lparr> ab_type = type, ab_epoch = cb_epoch b \<rparr>))) = Inr (ts_activeBatch st)"
  by (cases "ts_activeBatch st") (simp_all add: topology_pb_def)

lemma topology_eta:
  "\<lparr> ts_clusterHasInit = ts_clusterHasInit st, ts_version = ts_version st, ts_members = ts_members st,
     ts_activeBatch = ts_activeBatch st \<rparr> = st"
  by (cases st) simp

lemma DecodeTopology_pb:
  assumes "parse_topology wire v = Some (topology_pb st)" "length v \<le> MAX_VALUE_BYTES"
  shows "DecodeTopology re wire v =
    (if length (ts_members st) > MAX_TOPOLOGY_MEMBERS \<or>
        (ts_members st \<noteq> [] \<and> length (concat (map m_tokens (ts_members st))) > MAX_TOPOLOGY_TOKENS) \<or> \<not> valid_topology re st
     then Inl K_INVALID else Inr (canonical st))"
  unfolding DecodeTopology_def assms(1) option.case topology_pb_simps topology_pb_batch decode_encode_members token_count_map
    sum.case topology_eta validate_eq
  using assms(2) by (simp add: not_less [symmetric])

lemma SerializeCanonical_Inr:
  "SerializeCanonical ser m = Inr v \<longleftrightarrow> ser m = Some v \<and> length v \<le> MAX_VALUE_BYTES"
  by (auto simp: SerializeCanonical_def split: option.splits if_splits)

lemma canonical_sizes:
  "length (ts_members (canonical st)) = length (ts_members st)"
  "length (concat (map m_tokens (ts_members (canonical st)))) = length (concat (map m_tokens (ts_members st)))"
proof -
  have "mset (concat (map m_tokens (ts_members (canonical st)))) = mset (concat (map m_tokens (ts_members st)))"
  proof -
    have "mset (concat (map m_tokens (ts_members (canonical st)))) =
        mset (concat (map m_tokens (sort_key m_address (ts_members st))))"
      by (simp add: canonical_def mset_concat_sort_tokens del: map_map mset_concat)
    also have "\<dots> = mset (concat (map m_tokens (ts_members st)))"
      by (simp add: mset_concat flip: sum_mset_sum_list)
    finally show ?thesis .
  qed
  then show "length (concat (map m_tokens (ts_members (canonical st)))) = length (concat (map m_tokens (ts_members st)))"
    by (rule mset_eq_length)
qed (simp add: canonical_def)

text \<open>
  C37. Topology round trip: decoding an encoded topology gives its canonical form if the topology is within the
  member and token limits of the decoder, and is refused otherwise, since the encoder does not apply these
  limits. Encoding the canonical form again gives the same bytes.
\<close>

theorem topology_codec_roundtrip:
  assumes "wire_ok wire" "EncodeTopology re wire st = Inr v"
  shows "DecodeTopology re wire v =
      (if length (ts_members st) \<le> MAX_TOPOLOGY_MEMBERS \<and>
          length (concat (map m_tokens (ts_members st))) \<le> MAX_TOPOLOGY_TOKENS
       then Inr (canonical st) else Inl K_INVALID)
    \<and> EncodeTopology re wire (canonical st) = Inr v"
proof -
  have valid: "valid_topology re st" and ser: "ser_topology wire (topology_pb (canonical st)) = Some v" "length v \<le> MAX_VALUE_BYTES"
    using assms(2) by (auto simp: EncodeTopology_eq SerializeCanonical_Inr split: if_splits)
  have parse: "parse_topology wire v = Some (topology_pb (canonical st))" using assms(1) ser(1) by (simp add: wire_ok_def)
  have empty: "ts_members (canonical st) = [] \<Longrightarrow> length (concat (map m_tokens (ts_members st))) \<le> MAX_TOPOLOGY_TOKENS"
    by (simp flip: canonical_sizes(2))
  have "DecodeTopology re wire v =
      (if length (ts_members st) \<le> MAX_TOPOLOGY_MEMBERS \<and>
          length (concat (map m_tokens (ts_members st))) \<le> MAX_TOPOLOGY_TOKENS
       then Inr (canonical st) else Inl K_INVALID)"
    using DecodeTopology_pb [OF parse ser(2), of re] valid_canonical [OF valid] empty
    unfolding canonical_sizes canonical_idem by (simp add: not_less not_le)
  moreover have "EncodeTopology re wire (canonical st) = Inr v"
    using valid_canonical [OF valid] ser by (simp add: canonical_idem EncodeTopology_eq SerializeCanonical_Inr)
  ultimately show ?thesis by simp
qed

lemma ranges_loop_owner: "ranges_loop executor prev rs \<Longrightarrow> r \<in> set rs \<Longrightarrow> ttr_ownerAddress r = executor"
  by (induction rs arbitrary: prev) (auto split: if_splits)

lemma DecodeRanges_EncodeRanges:
  assumes "IsCanonicalRanges rs executor"
  shows "DecodeRanges (EncodeRanges rs) = Inr (rs, executor)"
proof -
  have ne: "rs \<noteq> []" "length rs \<le> MAX_TOPOLOGY_TASK_RANGES" and loop: "ranges_loop executor None rs"
    using assms by (auto simp: IsCanonicalRanges_def split: if_splits)
  have "ttr_ownerAddress (hd rs) = executor" using ranges_loop_owner [OF loop] ne by simp
  moreover have "map (\<lambda>rangePb. \<lparr> ttr_ownerAddress = rp_owner_address rangePb,
      ttr_range = \<lparr> tr_from = rp_from rangePb, tr_end = rp_end rangePb \<rparr>, ttr_finished = rp_finished rangePb \<rparr>) (EncodeRanges rs) = rs"
    by (rule nth_equalityI) (simp_all add: EncodeRanges_def)
  moreover have "EncodeRanges rs \<noteq> []" "length (EncodeRanges rs) = length rs" using ne by (simp_all add: EncodeRanges_def)
  ultimately show ?thesis using ne assms unfolding DecodeRanges_def Let_def by simp
qed

lemma ValidateMemberAddress_ne: "ValidateMemberAddress re a = Inr u \<Longrightarrow> a \<noteq> []"
  by (auto simp: ValidateMemberAddress_def NotifyKey_def KeyHelper_ValidateAddress_def split: sum.splits if_splits)

lemma migrate_task_roundtrip:
  assumes "wire_ok wire" "EncodeMigrateTask re wire task = Inr v"
  shows "DecodeMigrateTask re wire (mt_taskId task) (mt_type task) (mt_epoch task) v = Inr task"
proof -
  have c: "ValidateTaskContext (mt_taskId task) (CHR ''m'') (mt_epoch task) = Inr ()"
    "ValidateMemberAddress re (mt_targetAddress task) = Inr ()" "mt_epoch task > 0"
    "IsCanonicalRanges (mt_sourceRanges task) (mt_executorAddress task)"
    "ser_migrate wire \<lparr> mtp_target_address = mt_targetAddress task, mtp_source_ranges = EncodeRanges (mt_sourceRanges task) \<rparr> = Some v"
    "length v \<le> MAX_VALUE_BYTES"
    using assms(2) by (auto simp: EncodeMigrateTask_def SerializeCanonical_Inr split: sum.splits if_splits)
  have "parse_migrate wire v = Some \<lparr> mtp_target_address = mt_targetAddress task, mtp_source_ranges = EncodeRanges (mt_sourceRanges task) \<rparr>"
    using assms(1) c(5) by (simp add: wire_ok_def)
  then show ?thesis
    using c ValidateMemberAddress_ne [OF c(2)] by (simp add: DecodeMigrateTask_def DecodeRanges_EncodeRanges)
qed

lemma delete_task_roundtrip:
  assumes "wire_ok wire" "EncodeDeleteTask re wire task = Inr v"
  shows "DecodeDeleteTask re wire (dt_taskId task) (dt_epoch task) v = Inr task"
proof -
  have c: "ValidateTaskContext (dt_taskId task) (CHR ''d'') (dt_epoch task) = Inr ()"
    "ValidateMemberAddress re (dt_failedAddress task) = Inr ()" "dt_epoch task > 0"
    "IsCanonicalRanges (dt_recoveryRanges task) (dt_executorAddress task)"
    "ser_delete wire \<lparr> dtp_failed_address = dt_failedAddress task, dtp_recovery_ranges = EncodeRanges (dt_recoveryRanges task) \<rparr> = Some v"
    "length v \<le> MAX_VALUE_BYTES"
    using assms(2) by (auto simp: EncodeDeleteTask_def SerializeCanonical_Inr split: sum.splits if_splits)
  have "parse_delete wire v = Some \<lparr> dtp_failed_address = dt_failedAddress task, dtp_recovery_ranges = EncodeRanges (dt_recoveryRanges task) \<rparr>"
    using assms(1) c(5) by (simp add: wire_ok_def)
  then show ?thesis
    using c ValidateMemberAddress_ne [OF c(2)] by (simp add: DecodeDeleteTask_def DecodeRanges_EncodeRanges)
qed

definition notify_ok :: "re2 \<Rightarrow> TopologyTaskNotify \<Rightarrow> bool" where
  "notify_ok re n \<longleftrightarrow>
     sorted (tn_taskIds n) \<and> distinct_adj (tn_taskIds n) \<and> length (tn_taskIds n) \<le> MAX_NOTIFY_TASK_REFS \<and>
     (tn_activeBatch n \<noteq> None \<or> tn_taskIds n = []) \<and> ValidateRestartFacts re (tn_restartTimestampsByAddress n) = Inr () \<and>
     (case tn_activeBatch n of
        None \<Rightarrow> True
      | Some b \<Rightarrow> ab_epoch b > 0 \<and> notify_ids_loop (if ab_type b = FAILURE then ''d-e'' else ''m-e'') (tn_taskIds n) = Inr ())"

definition notify_pb :: "TopologyTaskNotify \<Rightarrow> TaskNotifyPb" where
  "notify_pb n =
     \<lparr> np_active_batch = map_option (\<lambda>b. \<lparr> cb_type = ToPbType (ab_type b), cb_epoch = ab_epoch b \<rparr>) (tn_activeBatch n),
       np_task_ids = tn_taskIds n, np_restart_timestamps_by_address = tn_restartTimestampsByAddress n \<rparr>"

lemma om_rebuild: "om_ok m \<Longrightarrow> foldl (\<lambda>pbs p. om_put (fst p) (snd p) pbs) [] m = m"
  using foldl_om_put [of fst m snd] by (simp add: om_ok_def)

lemma EncodeNotify_Inr:
  assumes "om_ok (tn_restartTimestampsByAddress n)"
  shows "EncodeNotify re wire n = Inr v \<longleftrightarrow>
    notify_ok re n \<and> ser_notify wire (notify_pb n) = Some v \<and> length v \<le> MAX_NOTIFY_VALUE_BYTES"
proof -
  have "MAX_VALUE_BYTES = MAX_NOTIFY_VALUE_BYTES" by (simp add: MAX_VALUE_BYTES_def MAX_NOTIFY_VALUE_BYTES_def)
  then show ?thesis
    by (cases "tn_activeBatch n")
      (auto simp: EncodeNotify_def notify_ok_def notify_pb_def om_rebuild [OF assms] EncodeActiveBatch_def SerializeCanonical_Inr
        SerializeCanonical_def split: sum.splits if_splits option.splits)
qed

lemma DecodeNotify_parsed:
  assumes "om_ok (tn_restartTimestampsByAddress n)" "notify_ok re n" "parse_notify wire v = Some (notify_pb n)"
    and "length v \<le> MAX_NOTIFY_VALUE_BYTES"
  shows "DecodeNotify re wire v =
    (case SerializeCanonical (ser_notify wire) (notify_pb n) of
       Inl e \<Rightarrow> Inl e | Inr canon \<Rightarrow> if canon = v then Inr n else Inl K_INVALID)"
proof -
  have batch: "(case np_active_batch (notify_pb n) of None \<Rightarrow> Inr None
      | Some b \<Rightarrow> (case DecodeActiveBatch b of Inl e \<Rightarrow> Inl e | Inr batch \<Rightarrow> Inr (Some batch))) = Inr (tn_activeBatch n)"
    using assms(2) by (cases "tn_activeBatch n") (auto simp: notify_pb_def notify_ok_def DecodeActiveBatch_def)
  have eta: "\<lparr> tn_activeBatch = tn_activeBatch n, tn_taskIds = np_task_ids (notify_pb n),
      tn_restartTimestampsByAddress = np_restart_timestamps_by_address (notify_pb n) \<rparr> = n"
    by (cases n) (simp add: notify_pb_def)
  have "EncodeNotify re wire n = SerializeCanonical (ser_notify wire) (notify_pb n)"
  proof -
    have "MAX_VALUE_BYTES = MAX_NOTIFY_VALUE_BYTES" by (simp add: MAX_VALUE_BYTES_def MAX_NOTIFY_VALUE_BYTES_def)
    then show ?thesis
      using assms(2) by (cases "tn_activeBatch n")
        (auto simp: EncodeNotify_def notify_ok_def notify_pb_def om_rebuild [OF assms(1)] EncodeActiveBatch_def
          SerializeCanonical_def split: option.splits)
  qed
  then show ?thesis
    unfolding DecodeNotify_def assms(3) option.case batch sum.case Let_def eta using assms(4) by simp
qed

lemma notify_roundtrip:
  assumes "wire_ok wire" "om_ok (tn_restartTimestampsByAddress n)" "EncodeNotify re wire n = Inr v"
  shows "DecodeNotify re wire v = Inr n"
proof -
  have e: "notify_ok re n" "ser_notify wire (notify_pb n) = Some v" "length v \<le> MAX_NOTIFY_VALUE_BYTES"
    using assms(3) unfolding EncodeNotify_Inr [OF assms(2)] by simp_all
  moreover have "parse_notify wire v = Some (notify_pb n)" using assms(1) e(2) by (simp add: wire_ok_def)
  moreover have "MAX_VALUE_BYTES = MAX_NOTIFY_VALUE_BYTES" by (simp add: MAX_VALUE_BYTES_def MAX_NOTIFY_VALUE_BYTES_def)
  ultimately show ?thesis using DecodeNotify_parsed [OF assms(2)] by (simp add: SerializeCanonical_def)
qed

text \<open>
  C38. Composed notifications are never misread. Append separately encoded restart facts to an encoded
  task notification, and decode the result: protobuf parses the concatenation to the merge, whose content passes
  every check of the decoder, so the answer is the task notification together with
  exactly those restart facts if the composed bytes are what the serialiser writes for the
  merged message, and a refusal if the serialiser fails or orders the fields differently.
\<close>

theorem notify_compose_decodes:
  assumes "wire_ok wire" "notify_merges wire" "om_ok restarts"
    "EncodeNotify re wire \<lparr> tn_activeBatch = None, tn_taskIds = [], tn_restartTimestampsByAddress = restarts \<rparr> = Inr r"
    "ComposeNotify re wire task r = Inr v"
  shows "DecodeNotify re wire v =
    (case SerializeCanonical (ser_notify wire) (notify_pb (task \<lparr> tn_restartTimestampsByAddress := restarts \<rparr>)) of
       Inl e \<Rightarrow> Inl e
     | Inr canon \<Rightarrow> if canon = v then Inr (task \<lparr> tn_restartTimestampsByAddress := restarts \<rparr>) else Inl K_INVALID)"
proof -
  let ?n = "task \<lparr> tn_restartTimestampsByAddress := restarts \<rparr>"
  from assms(5) obtain e where nil: "tn_restartTimestampsByAddress task = []" and e: "EncodeNotify re wire task = Inr e"
    and len: "length r \<le> MAX_NOTIFY_VALUE_BYTES - length e" and v: "v = e @ r"
    by (auto simp: ComposeNotify_def split: if_splits sum.splits)
  have t: "notify_ok re task" "ser_notify wire (notify_pb task) = Some e" "length e \<le> MAX_NOTIFY_VALUE_BYTES"
    using e EncodeNotify_Inr [of task] nil by simp_all
  let ?restart = "\<lparr> np_active_batch = None, np_task_ids = [], np_restart_timestamps_by_address = restarts \<rparr>"
  have rr: "ValidateRestartFacts re restarts = Inr ()" "ser_notify wire ?restart = Some r"
    using assms(3,4) by (simp_all add: EncodeNotify_Inr notify_ok_def notify_pb_def)
  have "parse_notify wire e = Some (notify_pb task)" "parse_notify wire r = Some ?restart"
    using assms(1) t(2) rr(2) by (simp_all add: wire_ok_def)
  with assms(2) have "parse_notify wire v = Some (merge_notify (notify_pb task) ?restart)"
    unfolding v notify_merges_def by blast
  also have "merge_notify (notify_pb task) ?restart = notify_pb ?n"
    using nil by (simp add: merge_notify_def merge_optional_def notify_pb_def om_rebuild [OF assms(3)])
  finally have parse: "parse_notify wire v = Some (notify_pb ?n)" .
  have "notify_ok re ?n" using t(1) rr(1) by (cases "tn_activeBatch task") (simp_all add: notify_ok_def)
  moreover have "length v \<le> MAX_NOTIFY_VALUE_BYTES" using len t(3) by (simp add: v)
  ultimately show ?thesis using DecodeNotify_parsed [of ?n re wire v] assms(3) parse by simp
qed

section \<open>Concrete values\<close>

definition sample_wire :: Wire where
  "sample_wire =
     \<lparr> ser_topology = (\<lambda>m. if m = topology_pb (canonical sample_state) then Some ''x'' else None),
       parse_topology = (\<lambda>b. if b = ''x'' then Some (topology_pb (canonical sample_state)) else None),
       ser_migrate = (\<lambda>m. None), parse_migrate = (\<lambda>b. None), ser_delete = (\<lambda>m. None), parse_delete = (\<lambda>b. None),
       ser_notify = (\<lambda>m. None), parse_notify = (\<lambda>b. None) \<rparr>"

theorem topology_codec_roundtrip_witness:
  "wire_ok sample_wire \<and> EncodeTopology re2_model sample_wire sample_state = Inr ''x'' \<and>
   DecodeTopology re2_model sample_wire ''x'' = Inr (canonical sample_state)"
proof -
  have w: "wire_ok sample_wire" by (simp add: wire_ok_def sample_wire_def)
  have "isl (ValidateAndCanonicalizeTopologyState re2_model sample_state) = False" by code_simp
  then have "valid_topology re2_model sample_state" unfolding validate_eq by (simp split: if_splits)
  then have e: "EncodeTopology re2_model sample_wire sample_state = Inr ''x''"
    by (simp add: EncodeTopology_eq SerializeCanonical_def sample_wire_def MAX_VALUE_BYTES_def)
  have "length (ts_members sample_state) \<le> MAX_TOPOLOGY_MEMBERS"
    "length (concat (map m_tokens (ts_members sample_state))) \<le> MAX_TOPOLOGY_TOKENS"
    by (simp_all add: sample_state_def sample_member_def MAX_TOPOLOGY_MEMBERS_def MAX_TOPOLOGY_TOKENS_def)
  with topology_codec_roundtrip [OF w e] w e show ?thesis by simp
qed

definition sample_task_notify :: TopologyTaskNotify where
  "sample_task_notify = \<lparr> tn_activeBatch = Some \<lparr> ab_type = SCALE_OUT, ab_epoch = 2 \<rparr>,
     tn_taskIds = [''m-e2-'' @ replicate 32 (CHR ''a'')], tn_restartTimestampsByAddress = [] \<rparr>"

definition sample_restarts :: "(string, int) omap" where
  "sample_restarts = [(''10.0.0.1:80'', 7)]"

definition sample_restart_notify :: TopologyTaskNotify where
  "sample_restart_notify = \<lparr> tn_activeBatch = None, tn_taskIds = [], tn_restartTimestampsByAddress = sample_restarts \<rparr>"

text \<open>
  A concrete wire for notifications, with every message whose map is ordered serialisable. A message is a sequence of
  fields, each of three strings (a tag and two values), and a string is written as its
  characters, each after a 1 byte, and a 0 byte. The fields may come in any order and are merged in turn.
\<close>

definition enc_str :: "string \<Rightarrow> string" where
  "enc_str s = concat (map (\<lambda>c. [CHR 0x01, c]) s) @ [CHR 0x00]"

fun dec_strs :: "string \<Rightarrow> string list option" where
  "dec_strs [] = Some []"
| "dec_strs (x # xs) =
     (if x = CHR 0x00 then map_option (Cons []) (dec_strs xs)
      else case xs of
             [] \<Rightarrow> None
           | c # ys \<Rightarrow> (case dec_strs ys of Some (s # ss) \<Rightarrow> Some ((c # s) # ss) | _ \<Rightarrow> None))"

fun group3 :: "string list \<Rightarrow> (string \<times> string \<times> string) list option" where
  "group3 [] = Some []"
| "group3 (a # b # c # rest) = map_option (Cons (a, b, c)) (group3 rest)"
| "group3 _ = None"

definition int_str :: "int \<Rightarrow> string" where
  "int_str i = (if i < 0 then CHR ''-'' else CHR ''+'') # replicate (nat \<bar>i\<bar>) (CHR ''1'')"

definition str_int :: "string \<Rightarrow> int" where
  "str_int s = (if take 1 s = ''-'' then - int (length s - 1) else int (length s - 1))"

definition empty_notify :: TaskNotifyPb where
  "empty_notify = \<lparr> np_active_batch = None, np_task_ids = [], np_restart_timestamps_by_address = [] \<rparr>"

definition field_message :: "string \<times> string \<times> string \<Rightarrow> TaskNotifyPb" where
  "field_message f = (case f of (tag, x, y) \<Rightarrow>
     if tag = ''batch''
     then empty_notify \<lparr> np_active_batch := Some \<lparr> cb_type = str_int x, cb_epoch = word_of_int (str_int y) \<rparr> \<rparr>
     else if tag = ''task'' then empty_notify \<lparr> np_task_ids := [x] \<rparr>
     else if tag = ''restart'' then empty_notify \<lparr> np_restart_timestamps_by_address := [(x, str_int y)] \<rparr>
     else empty_notify)"

definition notify_fields :: "TaskNotifyPb \<Rightarrow> (string \<times> string \<times> string) list" where
  "notify_fields m =
     (case np_active_batch m of None \<Rightarrow> [] | Some b \<Rightarrow> [(''batch'', int_str (cb_type b), int_str (uint (cb_epoch b)))]) @
     map (\<lambda>t. (''task'', t, [])) (np_task_ids m) @
     map (\<lambda>p. (''restart'', fst p, int_str (snd p))) (np_restart_timestamps_by_address m)"

definition write_fields :: "(string \<times> string \<times> string) list \<Rightarrow> string" where
  "write_fields fs = concat (map (\<lambda>(a, b, c). enc_str a @ enc_str b @ enc_str c) fs)"

definition read_fields :: "string \<Rightarrow> TaskNotifyPb option" where
  "read_fields v =
     (case dec_strs v of
        None \<Rightarrow> None
      | Some ss \<Rightarrow> map_option (\<lambda>fs. foldl merge_notify empty_notify (map field_message fs)) (group3 ss))"

definition notify_wire :: Wire where
  "notify_wire = sample_wire \<lparr>
     ser_notify := (\<lambda>m. if om_ok (np_restart_timestamps_by_address m) then Some (write_fields (notify_fields m)) else None),
     parse_notify := read_fields \<rparr>"

lemma str_int_str [simp]: "str_int (int_str i) = i"
  by (simp add: str_int_def int_str_def)

lemma dec_strs_enc: "dec_strs (enc_str s @ v) = map_option (Cons s) (dec_strs v)"
  by (induction s) (auto simp: enc_str_def split: option.split)

lemma dec_strs_append: "dec_strs x = Some ss \<Longrightarrow> dec_strs (x @ y) = map_option ((@) ss) (dec_strs y)"
proof (induction x arbitrary: ss rule: dec_strs.induct)
  case (2 x xs)
  show ?case
  proof (cases "x = CHR 0x00")
    case True
    with 2 show ?thesis by (cases "dec_strs y") auto
  next
    case False
    with 2(3) obtain c ys s ts where *: "xs = c # ys" "dec_strs ys = Some (s # ts)" "ss = (c # s) # ts"
      by (auto split: list.splits option.splits)
    with 2(2) [OF False *(1) *(2)] False show ?thesis by (cases "dec_strs y") auto
  qed
qed (cases "dec_strs y"; simp)

lemma group3_append: "group3 ss = Some fs \<Longrightarrow> group3 (ss @ ts) = map_option ((@) fs) (group3 ts)"
  by (cases "group3 ts"; induction ss arbitrary: fs rule: group3.induct) auto

lemma read_write_fields:
  "read_fields (write_fields fs) = Some (foldl merge_notify empty_notify (map field_message fs))"
proof -
  have "dec_strs (write_fields fs) = Some (concat (map (\<lambda>(a, b, c). [a, b, c]) fs))"
    by (induction fs) (auto simp: write_fields_def dec_strs_enc)
  moreover have "group3 (concat (map (\<lambda>(a, b, c). [a, b, c]) fs)) = Some fs"
    by (induction fs) auto
  ultimately show ?thesis by (simp add: read_fields_def)
qed

lemma om_eqI: "om_ok m \<Longrightarrow> om_ok m' \<Longrightarrow> map_of m = map_of m' \<Longrightarrow> m = m'"
proof -
  assume ok: "om_ok m" "om_ok m'" and eq: "map_of m = map_of m'"
  have set: "set m = set m'" using om_set_iff [OF ok(1)] om_set_iff [OF ok(2)] eq by auto
  moreover have "inj_on fst (set m \<union> set m')" using om_ok_distinct [OF ok(1)] set by (simp add: distinct_map)
  ultimately show "m = m'"
    using ok map_sorted_distinct_set_unique [of fst m m'] by (simp add: om_ok_def strict_sorted_iff)
qed

abbreviation put_all :: "(string, int) omap \<Rightarrow> (string, int) omap \<Rightarrow> (string, int) omap" where
  "put_all \<equiv> foldl (\<lambda>pbs p. om_put (fst p) (snd p) pbs)"

lemma om_ok_put_all: "om_ok m \<Longrightarrow> om_ok (put_all m ps)"
  by (induction ps arbitrary: m) (simp_all add: om_ok_put)

lemma map_of_put_all: "map_of (put_all m ps) = map_of m ++ map_of (rev ps)"
  by (induction ps arbitrary: m) (auto simp: map_of_om_put map_add_def fun_eq_iff split: option.splits)

lemma put_all_put:
  assumes "om_ok m" "om_ok ps"
  shows "put_all m (om_put k v ps) = om_put k v (put_all m ps)"
proof (rule om_eqI)
  have rev: "map_of (rev qs) = map_of qs" if "om_ok qs" for qs :: "(string, int) omap"
    using map_of_eqI [of "rev qs" qs] om_set_iff om_ok_distinct [OF that]
    by (metis distinct_rev map_of_inject_set rev_map set_rev)
  show "map_of (put_all m (om_put k v ps)) = map_of (om_put k v (put_all m ps))"
    using assms(2) by (simp add: map_of_put_all rev om_ok_put map_of_om_put)
qed (simp_all add: assms om_ok_put_all om_ok_put)

lemma merge_empty:
  "merge_notify m empty_notify = m"
  "om_ok (np_restart_timestamps_by_address m) \<Longrightarrow> merge_notify empty_notify m = m"
  using om_rebuild [of "np_restart_timestamps_by_address m"]
  by (simp_all add: merge_notify_def empty_notify_def merge_optional_def split: option.split)

lemma merge_optional_assoc: "merge_optional (merge_optional a b) c = merge_optional a (merge_optional b c)"
  by (cases a; cases b; cases c) (simp_all add: merge_optional_def merge_batch_def)

lemma merge_field:
  assumes "om_ok (np_restart_timestamps_by_address a)" "om_ok (np_restart_timestamps_by_address b)"
  shows "merge_notify a (merge_notify b (field_message f)) = merge_notify (merge_notify a b) (field_message f)"
  using put_all_put [OF assms]
  by (cases f) (simp add: merge_notify_def merge_optional_assoc field_message_def empty_notify_def)

lemma merge_fields_ok:
  "om_ok (np_restart_timestamps_by_address a) \<Longrightarrow>
   om_ok (np_restart_timestamps_by_address (foldl merge_notify a (map field_message fs)))"
  by (induction fs arbitrary: a) (simp_all add: merge_notify_def om_ok_put_all)

lemma merge_fields:
  assumes "om_ok (np_restart_timestamps_by_address a)"
  shows "foldl merge_notify a (map field_message fs) =
    merge_notify a (foldl merge_notify empty_notify (map field_message fs))"
proof (induction fs rule: rev_induct)
  case (snoc f fs)
  have "om_ok (np_restart_timestamps_by_address (foldl merge_notify empty_notify (map field_message fs)))"
    by (rule merge_fields_ok) (simp add: empty_notify_def)
  with snoc merge_field [OF assms] show ?case by simp
qed (simp add: merge_empty)

lemma notify_wire_merges: "notify_merges notify_wire"
  unfolding notify_merges_def
proof (intro allI impI)
  fix x y a b assume p: "parse_notify notify_wire x = Some a" "parse_notify notify_wire y = Some b"
  obtain ss fs where x: "dec_strs x = Some ss" "group3 ss = Some fs"
    and a: "a = foldl merge_notify empty_notify (map field_message fs)"
    using p(1) by (auto simp: notify_wire_def read_fields_def split: option.splits)
  obtain ts gs where y: "dec_strs y = Some ts" "group3 ts = Some gs"
    and b: "b = foldl merge_notify empty_notify (map field_message gs)"
    using p(2) by (auto simp: notify_wire_def read_fields_def split: option.splits)
  have "om_ok (np_restart_timestamps_by_address a)" unfolding a by (rule merge_fields_ok) (simp add: empty_notify_def)
  with merge_fields [of a gs] show "parse_notify notify_wire (x @ y) = Some (merge_notify a b)"
    by (simp add: notify_wire_def read_fields_def dec_strs_append [OF x(1)] y group3_append [OF x(2)] b) (simp add: a)
qed

lemma notify_wire_parses:
  assumes "om_ok (np_restart_timestamps_by_address m)"
  shows "foldl merge_notify empty_notify (map field_message (notify_fields m)) = m"
proof -
  have tasks: "foldl merge_notify a (map field_message (map (\<lambda>t. (''task'', t, [])) ts)) =
      a \<lparr> np_task_ids := np_task_ids a @ ts \<rparr>" for a ts
    by (induction ts arbitrary: a)
      (simp_all add: field_message_def merge_notify_def merge_optional_def empty_notify_def)
  have restarts: "foldl merge_notify a (map field_message (map (\<lambda>p. (''restart'', fst p, int_str (snd p))) ps)) =
      a \<lparr> np_restart_timestamps_by_address := put_all (np_restart_timestamps_by_address a) ps \<rparr>" for a ps
    by (induction ps arbitrary: a)
      (simp_all add: field_message_def merge_notify_def merge_optional_def empty_notify_def)
  show ?thesis
    unfolding notify_fields_def map_append foldl_append tasks restarts
    using om_rebuild [OF assms]
    by (cases m) (simp add: field_message_def merge_notify_def merge_optional_def empty_notify_def split: option.split)
qed

lemma notify_wire_ok: "wire_ok notify_wire"
  using notify_wire_parses
  by (auto simp: wire_ok_def notify_wire_def sample_wire_def read_write_fields split: if_splits)

theorem notify_compose_decodes_witness:
  "wire_ok notify_wire \<and> notify_merges notify_wire \<and>
   DecodeNotify re2_model notify_wire
     (write_fields (notify_fields (notify_pb sample_task_notify)) @ write_fields (notify_fields (notify_pb sample_restart_notify)))
   = Inr (sample_task_notify \<lparr> tn_restartTimestampsByAddress := sample_restarts \<rparr>)"
proof -
  let ?t = "write_fields (notify_fields (notify_pb sample_task_notify))"
  let ?r = "write_fields (notify_fields (notify_pb sample_restart_notify))"
  have o: "om_ok sample_restarts" by (simp add: sample_restarts_def om_ok_def)
  have nil: "tn_restartTimestampsByAddress sample_task_notify = []" by (simp add: sample_task_notify_def)
  have size: "length ?t \<le> 1000" "length ?r \<le> 1000" by code_simp+
  have "notify_ids_loop ''m-e'' (tn_taskIds sample_task_notify) = Inr ()" by code_simp
  then have task_ok: "notify_ok re2_model sample_task_notify"
    by (simp add: notify_ok_def sample_task_notify_def MAX_NOTIFY_TASK_REFS_def ValidateRestartFacts_def)
  have "restart_loop re2_model sample_restarts = Inr ()" by code_simp
  then have restart_ok: "notify_ok re2_model sample_restart_notify"
    by (simp add: notify_ok_def sample_restart_notify_def ValidateRestartFacts_def sample_restarts_def
        MAX_RESTART_NOTIFY_ENTRIES_def)
  have ser: "ser_notify notify_wire (notify_pb n) = Some (write_fields (notify_fields (notify_pb n)))"
    if "om_ok (tn_restartTimestampsByAddress n)" for n
    using that by (simp add: notify_wire_def notify_pb_def)
  have r: "EncodeNotify re2_model notify_wire
      \<lparr> tn_activeBatch = None, tn_taskIds = [], tn_restartTimestampsByAddress = sample_restarts \<rparr> = Inr ?r"
    using restart_ok size(2) ser [of sample_restart_notify] o EncodeNotify_Inr [of sample_restart_notify re2_model notify_wire ?r]
    by (simp add: MAX_NOTIFY_VALUE_BYTES_def) (simp add: sample_restart_notify_def)
  have "EncodeNotify re2_model notify_wire sample_task_notify = Inr ?t"
    using task_ok size(1) ser [of sample_task_notify] EncodeNotify_Inr [of sample_task_notify re2_model notify_wire ?t]
    by (simp add: nil MAX_NOTIFY_VALUE_BYTES_def)
  then have c: "ComposeNotify re2_model notify_wire sample_task_notify ?r = Inr (?t @ ?r)"
    using size by (simp add: ComposeNotify_def nil MAX_NOTIFY_VALUE_BYTES_def)
  have "write_fields (notify_fields (notify_pb (sample_task_notify \<lparr> tn_restartTimestampsByAddress := sample_restarts \<rparr>))) = ?t @ ?r"
    by (simp add: write_fields_def notify_fields_def notify_pb_def sample_task_notify_def sample_restart_notify_def)
  then have "SerializeCanonical (ser_notify notify_wire)
      (notify_pb (sample_task_notify \<lparr> tn_restartTimestampsByAddress := sample_restarts \<rparr>)) = Inr (?t @ ?r)"
    using ser [of "sample_task_notify \<lparr> tn_restartTimestampsByAddress := sample_restarts \<rparr>"] o size
    by (simp add: SerializeCanonical_Inr MAX_VALUE_BYTES_def)
  with notify_compose_decodes [OF notify_wire_ok notify_wire_merges o r c] notify_wire_ok notify_wire_merges
  show ?thesis by simp
qed

end
