(* ===== verification/Membership_Types.thy ===== *)
theory Membership_Types
  imports Prelude
begin

text \<open>
  The data of \<^verbatim>\<open>cluster/membership/membership_types.h\<close>: what a worker publishes about itself in its membership
  lease, and what the controller reads back. Timestamps are the 64-bit signed values of the source as
  integers.
\<close>

datatype MemberLifecycleState =
  LIFECYCLE_UNKNOWN | STARTING | RESTARTING | RECOVERING | READY | EXITING | DOWNGRADE_RESTARTING | LIFECYCLE_FAILED

record MembershipValue =
  mv_timestamp :: int
  mv_lifecycleState :: MemberLifecycleState
  mv_hostId :: string
  mv_compatibilityVersion :: string

record MembershipRecord =
  mr_address :: string
  mr_state :: MemberLifecycleState
  mr_timestamp :: int
  mr_hostId :: string

datatype EndpointAvailability = ENDPOINT_UNKNOWN | REACHABLE | UNREACHABLE

end
