(* ===== verification/Task_Materializer.thy ===== *)
theory Task_Materializer
  imports Plan_Builder Topology_Codec Membership_Types
begin

text \<open>
  The derivation of tasks and notifications from a topology with an active batch, as
  \<^verbatim>\<open>cluster/control/topology_task_materializer.cpp\<close> does it: replan the owner changes, cut them into tasks of
  bounded size, name every task by a digest of its contents and collect the task names per executor.

  The SHA-256 hash behind the digests is OpenSSL's: the parameter \<open>sha\<close> gives the hexadecimal digest, or nothing
  when hashing fails. The ordered map of notifications is an ordered association list.
\<close>

section \<open>Digests\<close>

definition ID_HASH_CHARS :: nat where "ID_HASH_CHARS = 32"

definition byte_at :: "nat \<Rightarrow> 'a::len word \<Rightarrow> char" where
  "byte_at shift v = char_of (unat (and (drop_bit shift v) 0xff))"

definition AppendU64 :: "string \<Rightarrow> 64 word \<Rightarrow> string" where
  "AppendU64 seed v = seed @ map (\<lambda>shift. byte_at shift v) [56, 48, 40, 32, 24, 16, 8, 0]"

definition AppendU32 :: "string \<Rightarrow> 32 word \<Rightarrow> string" where
  "AppendU32 seed v = seed @ map (\<lambda>shift. byte_at shift v) [24, 16, 8, 0]"

definition AppendString :: "string \<Rightarrow> string \<Rightarrow> string" where
  "AppendString seed v = AppendU64 seed (of_nat (length v)) @ v"

definition AppendIdentity :: "string \<Rightarrow> MemberIdentity option \<Rightarrow> string" where
  "AppendIdentity seed identity =
     (case identity of
        None \<Rightarrow> seed @ [CHR 0x00]
      | Some i \<Rightarrow> AppendString (AppendString (seed @ [CHR 0x01]) (mi_id i)) (mi_address i))"

definition range_key :: "TokenRange \<Rightarrow> 32 word \<times> 32 word" where
  "range_key r = (tr_from r, tr_end r)"

definition AppendRanges :: "string \<Rightarrow> TokenRange list \<Rightarrow> string" where
  "AppendRanges seed ranges =
     (let ranges = sort_key range_key ranges
      in foldl (\<lambda>seed r. AppendU32 (AppendU32 seed (tr_from r)) (tr_end r)) (AppendU64 seed (of_nat (length ranges))) ranges)"

definition DigestPrefix :: "(string \<Rightarrow> string option) \<Rightarrow> string \<Rightarrow> string" where
  "DigestPrefix sha seed = (case sha seed of None \<Rightarrow> [] | Some digest \<Rightarrow> take ID_HASH_CHARS digest)"

definition ToRanges :: "TopologyTaskRange list \<Rightarrow> TokenRange list" where
  "ToRanges = map ttr_range"

section \<open>Plans and tasks\<close>

definition CanonicalizeRanges :: "TopologyTaskRange list \<Rightarrow> TopologyTaskRange list" where
  "CanonicalizeRanges = sort_key (\<lambda>r. range_key (ttr_range r))"

definition MatchesSnapshot :: "TopologySnapshot \<Rightarrow> TopologyState \<Rightarrow> bool" where
  "MatchesSnapshot latest next \<longleftrightarrow>
     ts_version (sn_state latest) = ts_version next \<and> ts_clusterHasInit (sn_state latest) = ts_clusterHasInit next \<and>
     ts_activeBatch (sn_state latest) = ts_activeBatch next \<and>
     length (ts_members (sn_state latest)) = length (ts_members next) \<and>
     list_all2 (\<lambda>left right. m_identity left = m_identity right \<and> m_state left = m_state right \<and> m_tokens left = m_tokens right)
       (ts_members (sn_state latest)) (ts_members next)"

fun disjoint_loop :: "32 word option \<Rightarrow> TokenRange list \<Rightarrow> bool" where
  "disjoint_loop prev [] = True"
| "disjoint_loop prev (r # rest) =
     (if \<not> tr_from r \<le> tr_end r then False
      else if (case prev of None \<Rightarrow> False | Some e \<Rightarrow> \<not> e < tr_from r) then False
      else disjoint_loop (Some (tr_end r)) rest)"

definition ValidateOwnerChange :: "TopologySnapshot \<Rightarrow> TopologyChangeType \<Rightarrow> TopologyOwnerChange \<Rightarrow> unit result" where
  "ValidateOwnerChange latest type change =
     (case oc_source change of
        None \<Rightarrow> Inl K_INVALID
      | Some changeSource \<Rightarrow>
        if oc_ranges change = [] then Inl K_INVALID
        else
      (case FindMemberByAddress latest (mi_address changeSource) of
        Inl e \<Rightarrow> Inl e
      | Inr source \<Rightarrow>
      (case FindMemberByAddress latest (mi_address (oc_target change)) of
        Inl e \<Rightarrow> Inl e
      | Inr target \<Rightarrow>
        if \<not> (m_identity source = changeSource \<and> m_identity target = oc_target change) then Inl K_INVALID
        else if \<not> (case type of
                     SCALE_OUT \<Rightarrow> IsCommittedMemberState (m_state source) \<and> m_state target = JOINING
                   | FAILURE \<Rightarrow> m_state source = FAILED \<and> m_state target = ACTIVE
                   | SCALE_IN \<Rightarrow> m_state source = LEAVING \<and> IsAdmittedScaleInMigrationTargetState (m_state target))
        then Inl K_INVALID
        else if disjoint_loop None (sort_key range_key (oc_ranges change)) then Inr () else Inl K_INVALID)))"

function chunk_loop :: "'a list \<Rightarrow> 'a list list" where
  "chunk_loop ranges =
     (if ranges = [] then []
      else take MAX_TOPOLOGY_TASK_RANGES ranges # chunk_loop (drop MAX_TOPOLOGY_TASK_RANGES ranges))"
  by pat_completeness auto
termination
  by (relation "measure length") (auto simp: MAX_TOPOLOGY_TASK_RANGES_def)

declare chunk_loop.simps [simp del]

definition chunk_task :: "TopologyChangeType \<Rightarrow> 64 word \<Rightarrow> string \<Rightarrow> string \<Rightarrow> TokenRange list \<Rightarrow> TopologyTask" where
  "chunk_task type epoch source target ranges =
     (if type = FAILURE
      then DeleteTask \<lparr> dt_taskId = [], dt_epoch = epoch, dt_executorAddress = target, dt_failedAddress = source,
             dt_recoveryRanges = CanonicalizeRanges
               (map (\<lambda>r. \<lparr> ttr_ownerAddress = target, ttr_range = r, ttr_finished = False \<rparr>) ranges) \<rparr>
      else MigrateTask \<lparr> mt_taskId = [], mt_type = type, mt_epoch = epoch, mt_executorAddress = source,
             mt_targetAddress = target, mt_sourceRanges = CanonicalizeRanges
               (map (\<lambda>r. \<lparr> ttr_ownerAddress = source, ttr_range = r, ttr_finished = False \<rparr>) ranges) \<rparr>)"

definition AppendTaskChunks ::
  "TopologyChangeType \<Rightarrow> 64 word \<Rightarrow> TopologyOwnerChange \<Rightarrow> TopologyTask list \<Rightarrow> TopologyTask list" where
  "AppendTaskChunks type epoch change tasks =
     (case oc_source change of
        None \<Rightarrow> tasks
      | Some source \<Rightarrow>
          tasks @ map (chunk_task type epoch (mi_address source) (mi_address (oc_target change)))
            (chunk_loop (sort_key range_key (oc_ranges change))))"

definition RebuildPlan :: "nat \<Rightarrow> TopologySnapshot \<Rightarrow> IPlanningAlgorithm \<Rightarrow> TopologyPlan result" where
  "RebuildPlan tokens_flag latest alg =
     (case ts_activeBatch (sn_state latest) of
        None \<Rightarrow> Inl K_INVALID
      | Some batch \<Rightarrow>
        let state = sn_state latest;
            selectedState = (case ab_type batch of SCALE_IN \<Rightarrow> LEAVING | FAILURE \<Rightarrow> FAILED | SCALE_OUT \<Rightarrow> JOINING);
            selected = map m_identity (filter (\<lambda>m. m_state m = selectedState) (ts_members state));
            current = (if selectedState = FAILED
                       then state \<lparr> ts_members := map revive_failed (ts_members state) \<rparr> else state)
        in if selected = [] then Inl K_INVALID
           else if ab_type batch = FAILURE \<and> \<not> list_ex (\<lambda>m. m_state m = ACTIVE) (ts_members state)
           then Inr \<lparr> tp_next = state, tp_ownerChanges = [] \<rparr>
           else case (case ab_type batch of
                        SCALE_OUT \<Rightarrow> alg_PlanScaleOut alg \<lparr> so_current = current, so_joining = selected, so_tokensPerMember = tokens_flag \<rparr>
                      | SCALE_IN \<Rightarrow> alg_PlanScaleIn alg \<lparr> si_current = current, si_leaving = selected \<rparr>
                      | FAILURE \<Rightarrow> alg_PlanFailure alg \<lparr> fp_current = current, fp_failed = selected \<rparr>) of
                  Inl e \<Rightarrow> Inl e
                | Inr plan \<Rightarrow> Inr (plan \<lparr> tp_next := state \<rparr>))"

definition BuildTaskId :: "(string \<Rightarrow> string option) \<Rightarrow> TopologyTask \<Rightarrow> string" where
  "BuildTaskId sha task =
     (case task of
        MigrateTask v \<Rightarrow>
          let kind = (case mt_type v of SCALE_OUT \<Rightarrow> CHR 0x00 | SCALE_IN \<Rightarrow> CHR 0x01 | FAILURE \<Rightarrow> CHR 0x02);
              seed = AppendRanges (AppendString (AppendString (AppendU64 [CHR 0x00, kind] (mt_epoch v)) (mt_executorAddress v))
                       (mt_targetAddress v)) (ToRanges (mt_sourceRanges v))
          in ''m-e'' @ to_string (unat (mt_epoch v)) @ ''-'' @ DigestPrefix sha seed
      | DeleteTask v \<Rightarrow>
          let seed = AppendRanges (AppendString (AppendString (AppendU64 [CHR 0x01, CHR 0x02] (dt_epoch v)) (dt_executorAddress v))
                       (dt_failedAddress v)) (ToRanges (dt_recoveryRanges v))
          in ''d-e'' @ to_string (unat (dt_epoch v)) @ ''-'' @ DigestPrefix sha seed)"

section \<open>Expected derived state\<close>

record ExpectedDerivedState =
  ed_tasks :: "TopologyTask list"
  ed_notifiesByAddress :: "(string, TopologyTaskNotify) omap"
  ed_notifyRecipients :: "string list"
  ed_canonicalRestartNotify :: string

definition empty_derived :: ExpectedDerivedState where
  "empty_derived = \<lparr> ed_tasks = [], ed_notifiesByAddress = [], ed_notifyRecipients = [], ed_canonicalRestartNotify = [] \<rparr>"

fun task_id :: "TopologyTask \<Rightarrow> string" where
  "task_id (MigrateTask v) = mt_taskId v"
| "task_id (DeleteTask v) = dt_taskId v"

fun task_executor :: "TopologyTask \<Rightarrow> string" where
  "task_executor (MigrateTask v) = mt_executorAddress v"
| "task_executor (DeleteTask v) = dt_executorAddress v"

fun set_task_id :: "string \<Rightarrow> TopologyTask \<Rightarrow> TopologyTask" where
  "set_task_id i (MigrateTask v) = MigrateTask (v \<lparr> mt_taskId := i \<rparr>)"
| "set_task_id i (DeleteTask v) = DeleteTask (v \<lparr> dt_taskId := i \<rparr>)"

fun changes_loop ::
  "TopologySnapshot \<Rightarrow> TopologyChangeType \<Rightarrow> 64 word \<Rightarrow> TopologyOwnerChange list \<Rightarrow> TopologyTask list \<Rightarrow> TopologyTask list result" where
  "changes_loop latest type epoch [] tasks = Inr tasks"
| "changes_loop latest type epoch (change # rest) tasks =
     (case ValidateOwnerChange latest type change of
        Inl e \<Rightarrow> Inl e
      | Inr _ \<Rightarrow> changes_loop latest type epoch rest (AppendTaskChunks type epoch change tasks))"

fun name_tasks :: "(string \<Rightarrow> string option) \<Rightarrow> TopologyTask list \<Rightarrow> TopologyTask list result" where
  "name_tasks sha [] = Inr []"
| "name_tasks sha (task # rest) =
     (let taskId = BuildTaskId sha task
      in if \<not> length taskId > ID_HASH_CHARS then Inl K_RUNTIME_ERROR
         else case name_tasks sha rest of Inl e \<Rightarrow> Inl e | Inr named \<Rightarrow> Inr (set_task_id taskId task # named))"

definition add_notify :: "ActiveBatch \<Rightarrow> (string, TopologyTaskNotify) omap \<Rightarrow> TopologyTask \<Rightarrow> (string, TopologyTaskNotify) omap" where
  "add_notify batch notifies task =
     (let old = (case map_of notifies (task_executor task) of
                   None \<Rightarrow> \<lparr> tn_activeBatch = None, tn_taskIds = [], tn_restartTimestampsByAddress = [] \<rparr>
                 | Some notify \<Rightarrow> notify)
      in om_put (task_executor task)
           (old \<lparr> tn_activeBatch := Some batch, tn_taskIds := tn_taskIds old @ [task_id task] \<rparr>) notifies)"

definition BuildExpected :: "(string \<Rightarrow> string option) \<Rightarrow> TopologySnapshot \<Rightarrow> TopologyPlan \<Rightarrow> ExpectedDerivedState result" where
  "BuildExpected sha latest plan =
     (case ts_activeBatch (sn_state latest) of
        None \<Rightarrow> Inl K_INVALID
      | Some batch \<Rightarrow>
        if \<not> MatchesSnapshot latest (tp_next plan) then Inl K_INVALID
        else
      (case changes_loop latest (ab_type batch) (ab_epoch batch) (tp_ownerChanges plan) [] of
        Inl e \<Rightarrow> Inl e
      | Inr tasks \<Rightarrow>
      (case name_tasks sha tasks of
        Inl e \<Rightarrow> Inl e
      | Inr named \<Rightarrow>
          let tasks = sort_key task_id named;
              notifies = foldl (add_notify \<lparr> ab_type = ab_type batch, ab_epoch = ab_epoch batch \<rparr>) [] tasks
          in Inr \<lparr> ed_tasks = tasks, ed_notifiesByAddress = notifies, ed_notifyRecipients = map fst notifies,
                   ed_canonicalRestartNotify = [] \<rparr>)))"

fun restart_facts_loop ::
  "MembershipRecord list \<Rightarrow> string list \<Rightarrow> (string, int) omap \<Rightarrow> (string list \<times> (string, int) omap) result" where
  "restart_facts_loop [] recipients restarts = Inr (recipients, restarts)"
| "restart_facts_loop (rec # rest) recipients restarts =
     (if mr_address rec = [] then Inl K_INVALID
      else if mr_state rec = RESTARTING
      then (if mr_timestamp rec > 0
            then restart_facts_loop rest (recipients @ [mr_address rec]) (om_put (mr_address rec) (mr_timestamp rec) restarts)
            else Inl K_INVALID)
      else restart_facts_loop rest (recipients @ [mr_address rec]) restarts)"

definition RebuildExpected ::
  "re2 \<Rightarrow> Wire \<Rightarrow> (string \<Rightarrow> string option) \<Rightarrow> nat \<Rightarrow> TopologySnapshot \<Rightarrow> IPlanningAlgorithm \<Rightarrow> MembershipRecord list \<Rightarrow> bool
     \<Rightarrow> ExpectedDerivedState result" where
  "RebuildExpected re wire sha tokens_flag latest alg memberships includeRestartFacts =
     (case (if ts_activeBatch (sn_state latest) \<noteq> None
            then (case RebuildPlan tokens_flag latest alg of Inl e \<Rightarrow> Inl e | Inr plan \<Rightarrow> BuildExpected sha latest plan)
            else Inr empty_derived) of
        Inl e \<Rightarrow> Inl e
      | Inr built \<Rightarrow>
        if \<not> includeRestartFacts then Inr built
        else
      (case restart_facts_loop memberships (ed_notifyRecipients built) [] of
        Inl e \<Rightarrow> Inl e
      | Inr (recipients, restarts) \<Rightarrow>
      (case EncodeNotify re wire \<lparr> tn_activeBatch = None, tn_taskIds = [], tn_restartTimestampsByAddress = restarts \<rparr> of
        Inl e \<Rightarrow> Inl e
      | Inr restartNotify \<Rightarrow>
          Inr (built \<lparr> ed_notifyRecipients := remdups_adj (sort recipients), ed_canonicalRestartNotify := restartNotify \<rparr>))))"

definition BuildEncodedNotifyFor :: "re2 \<Rightarrow> Wire \<Rightarrow> ExpectedDerivedState \<Rightarrow> string \<Rightarrow> string result" where
  "BuildEncodedNotifyFor re wire expected address =
     (if address \<notin> set (ed_notifyRecipients expected) then Inl K_INVALID
      else ComposeNotify re wire
             (case map_of (ed_notifiesByAddress expected) address of
                None \<Rightarrow> \<lparr> tn_activeBatch = None, tn_taskIds = [], tn_restartTimestampsByAddress = [] \<rparr>
              | Some taskPart \<Rightarrow> taskPart)
             (ed_canonicalRestartNotify expected))"

definition phase_byte :: "TopologyCallbackPhase \<Rightarrow> char" where
  "phase_byte phase = (case phase of PHASE_SCALE_OUT \<Rightarrow> CHR 0x00 | PHASE_SCALE_IN \<Rightarrow> CHR 0x01
     | PHASE_SCALE_IN_CLEANUP \<Rightarrow> CHR 0x02 | PHASE_FAILURE \<Rightarrow> CHR 0x03)"

definition BuildBusinessOperationId :: "(string \<Rightarrow> string option) \<Rightarrow> TopologyCallbackPhase \<Rightarrow> TopologyExecutionFence \<Rightarrow> string" where
  "BuildBusinessOperationId sha phase fence =
     (let source = (if phase = PHASE_FAILURE then None else ef_source fence);
          seed = AppendRanges (AppendIdentity (AppendIdentity (AppendIdentity [phase_byte phase] source) (ef_target fence))
                   (ef_failed fence)) (ef_ranges fence)
      in ''op-'' @ DigestPrefix sha seed)"

section \<open>Cutting and naming\<close>

text \<open>A task moves the tokens of its ranges from the member that loses them to the one that takes them.\<close>

fun moves :: "TopologyTask \<Rightarrow> string \<Rightarrow> string \<Rightarrow> 32 word \<Rightarrow> bool" where
  "moves (MigrateTask v) src dst t \<longleftrightarrow> mt_executorAddress v = src \<and> mt_targetAddress v = dst \<and>
     list_ex (\<lambda>r. in_range t (ttr_range r)) (mt_sourceRanges v)"
| "moves (DeleteTask v) src dst t \<longleftrightarrow> dt_failedAddress v = src \<and> dt_executorAddress v = dst \<and>
     list_ex (\<lambda>r. in_range t (ttr_range r)) (dt_recoveryRanges v)"

fun task_ranges :: "TopologyTask \<Rightarrow> TopologyTaskRange list" where
  "task_ranges (MigrateTask v) = mt_sourceRanges v"
| "task_ranges (DeleteTask v) = dt_recoveryRanges v"

fun task_epoch :: "TopologyTask \<Rightarrow> 64 word" where
  "task_epoch (MigrateTask v) = mt_epoch v"
| "task_epoch (DeleteTask v) = dt_epoch v"

lemma concat_chunk_loop: "concat (chunk_loop rs) = rs"
  by (induction rs rule: chunk_loop.induct) (subst chunk_loop.simps, simp)

lemma chunk_loop_bounds:
  "c \<in> set (chunk_loop rs) \<Longrightarrow> c \<noteq> [] \<and> length c \<le> MAX_TOPOLOGY_TASK_RANGES"
proof (induction rs rule: chunk_loop.induct)
  case (1 rs)
  from "1.prems" have "rs \<noteq> []" by (subst (asm) chunk_loop.simps) (auto split: if_splits)
  with 1 show ?case by (subst (asm) (2) chunk_loop.simps) (auto simp: MAX_TOPOLOGY_TASK_RANGES_def)
qed

lemma moves_chunk:
  "moves (chunk_task type epoch source target c) src dst t \<longleftrightarrow> source = src \<and> target = dst \<and> list_ex (in_range t) c"
  by (auto simp: chunk_task_def CanonicalizeRanges_def list_ex_iff)

lemma moves_AppendTaskChunks:
  "(\<exists>task \<in> set (AppendTaskChunks type epoch c tasks). moves task src dst t) \<longleftrightarrow>
     (\<exists>task \<in> set tasks. moves task src dst t) \<or>
     (\<exists>s. oc_source c = Some s \<and> mi_address s = src \<and> mi_address (oc_target c) = dst \<and> list_ex (in_range t) (oc_ranges c))"
proof (cases "oc_source c")
  case (Some s)
  have "(\<exists>x \<in> set (chunk_loop (sort_key range_key (oc_ranges c))). list_ex (in_range t) x) \<longleftrightarrow>
      list_ex (in_range t) (concat (chunk_loop (sort_key range_key (oc_ranges c))))"
    by (auto simp: list_ex_iff)
  also have "\<dots> \<longleftrightarrow> list_ex (in_range t) (oc_ranges c)" by (simp add: concat_chunk_loop list_ex_iff)
  finally show ?thesis by (simp add: AppendTaskChunks_def Some moves_chunk bex_Un)
qed (simp add: AppendTaskChunks_def)

lemma moves_changes_loop:
  assumes "changes_loop latest type epoch cs tasks = Inr tasks'"
  shows "(\<exists>task \<in> set tasks'. moves task src dst t) \<longleftrightarrow>
     (\<exists>task \<in> set tasks. moves task src dst t) \<or>
     (\<exists>c \<in> set cs. \<exists>s. oc_source c = Some s \<and> mi_address s = src \<and> mi_address (oc_target c) = dst \<and>
        list_ex (in_range t) (oc_ranges c))"
  using assms
proof (induction cs arbitrary: tasks)
  case (Cons c cs)
  then have "changes_loop latest type epoch cs (AppendTaskChunks type epoch c tasks) = Inr tasks'"
    by (auto split: sum.splits)
  from Cons.IH [OF this] show ?case unfolding moves_AppendTaskChunks by simp
qed simp

lemma name_tasks_map:
  "name_tasks sha tasks = Inr named \<Longrightarrow>
    named = map (\<lambda>task. set_task_id (BuildTaskId sha task) task) tasks \<and>
    (\<forall>task \<in> set tasks. length (BuildTaskId sha task) > ID_HASH_CHARS)"
  by (induction tasks arbitrary: named) (auto simp: Let_def split: if_splits sum.splits)

lemma set_task_id_simps [simp]:
  "moves (set_task_id i task) = moves task" "task_id (set_task_id i task) = i"
  "task_executor (set_task_id i task) = task_executor task" "task_ranges (set_task_id i task) = task_ranges task"
  "task_epoch (set_task_id i task) = task_epoch task"
  by (cases task; simp add: fun_eq_iff)+

lemma batch_eta [simp]: "\<lparr> ab_type = ab_type b, ab_epoch = ab_epoch b \<rparr> = b"
  by (cases b) simp

lemma BuildExpected_Inr:
  assumes "BuildExpected sha latest plan = Inr e"
  obtains batch tasks where "ts_activeBatch (sn_state latest) = Some batch" "MatchesSnapshot latest (tp_next plan)"
    "changes_loop latest (ab_type batch) (ab_epoch batch) (tp_ownerChanges plan) [] = Inr tasks"
    "set (ed_tasks e) = (\<lambda>task. set_task_id (BuildTaskId sha task) task) ` set tasks"
    "sorted (map task_id (ed_tasks e))"
    "ed_notifiesByAddress e = foldl (add_notify batch) [] (ed_tasks e)"
    "ed_notifyRecipients e = map fst (ed_notifiesByAddress e)"
    "\<forall>task \<in> set tasks. length (BuildTaskId sha task) > ID_HASH_CHARS"
proof -
  from assms obtain batch tasks named where *: "ts_activeBatch (sn_state latest) = Some batch"
    "MatchesSnapshot latest (tp_next plan)"
    "changes_loop latest (ab_type batch) (ab_epoch batch) (tp_ownerChanges plan) [] = Inr tasks"
    "name_tasks sha tasks = Inr named" "ed_tasks e = sort_key task_id named"
    "ed_notifiesByAddress e = foldl (add_notify batch) [] (ed_tasks e)"
    "ed_notifyRecipients e = map fst (ed_notifiesByAddress e)"
    by (auto simp: BuildExpected_def Let_def split: option.splits if_splits sum.splits)
  show ?thesis using that [OF *(1-3) _ _ *(6,7)] name_tasks_map [OF *(4)] by (simp add: *(5))
qed

lemma BuildExpected_moves:
  assumes "BuildExpected sha latest plan = Inr e"
  shows "(\<exists>task \<in> set (ed_tasks e). moves task src dst t) \<longleftrightarrow>
     (\<exists>c \<in> set (tp_ownerChanges plan). \<exists>s. oc_source c = Some s \<and> mi_address s = src \<and> mi_address (oc_target c) = dst \<and>
        list_ex (in_range t) (oc_ranges c))"
proof -
  from assms obtain batch :: ActiveBatch and tasks
    where *: "changes_loop latest (ab_type batch) (ab_epoch batch) (tp_ownerChanges plan) [] = Inr tasks"
      "set (ed_tasks e) = (\<lambda>task. set_task_id (BuildTaskId sha task) task) ` set tasks"
    by (rule BuildExpected_Inr)
  have "(\<exists>task \<in> set (ed_tasks e). moves task src dst t) \<longleftrightarrow> (\<exists>task \<in> set tasks. moves task src dst t)"
    unfolding *(2) by (simp only: bex_simps set_task_id_simps)
  also have "\<dots> \<longleftrightarrow> (\<exists>c \<in> set (tp_ownerChanges plan). \<exists>s. oc_source c = Some s \<and> mi_address s = src \<and>
      mi_address (oc_target c) = dst \<and> list_ex (in_range t) (oc_ranges c))"
    unfolding moves_changes_loop [OF *(1), of src dst t] by (simp only: list.set bex_empty simp_thms)
  finally show ?thesis .
qed

section \<open>Well-formed tasks\<close>

lemma disjoint_loop_sorted:
  "disjoint_loop prev rs \<Longrightarrow>
    (\<forall>r \<in> set rs. tr_from r \<le> tr_end r) \<and> sorted_wrt (\<lambda>a b. tr_end a < tr_from b) rs \<and>
    (\<forall>e. prev = Some e \<longrightarrow> (\<forall>r \<in> set rs. e < tr_from r))"
proof (induction rs arbitrary: prev)
  case (Cons r rs)
  then have r: "tr_from r \<le> tr_end r" "\<And>e. prev = Some e \<Longrightarrow> e < tr_from r" "disjoint_loop (Some (tr_end r)) rs"
    by (auto split: if_splits option.splits)
  from Cons.IH [OF r(3)] r(1,2) show ?case by fastforce
qed simp

lemma ranges_loopI:
  "\<forall>r \<in> set rs. ttr_ownerAddress r = a \<and> tr_from (ttr_range r) \<le> tr_end (ttr_range r) \<Longrightarrow>
    sorted_wrt (\<lambda>x y. tr_end (ttr_range x) < tr_from (ttr_range y)) rs \<Longrightarrow>
    (\<forall>e. prev = Some e \<longrightarrow> (\<forall>r \<in> set rs. e < tr_from (ttr_range r))) \<Longrightarrow> ranges_loop a prev rs"
proof (induction rs arbitrary: prev)
  case (Cons r rs)
  then have "ranges_loop a (Some (tr_end (ttr_range r))) rs" by simp
  with Cons.prems show ?case by (simp add: not_less not_le split: option.split)
qed simp

lemma sorted_wrt_chunk:
  "sorted_wrt P (concat cs) \<Longrightarrow> c \<in> set cs \<Longrightarrow> sorted_wrt P c"
  by (induction cs) (auto simp: sorted_wrt_append)

lemma chunk_canonical:
  assumes "disjoint_loop None rs" "c \<in> set (chunk_loop rs)" "a \<noteq> []"
  shows "IsCanonicalRanges (CanonicalizeRanges (map (\<lambda>r. \<lparr> ttr_ownerAddress = a, ttr_range = r, ttr_finished = False \<rparr>) c)) a"
proof -
  let ?f = "\<lambda>r. \<lparr> ttr_ownerAddress = a, ttr_range = r, ttr_finished = False \<rparr>"
  note d = disjoint_loop_sorted [OF assms(1)]
  have c: "sorted_wrt (\<lambda>a b. tr_end a < tr_from b) c"
    by (rule sorted_wrt_chunk [OF _ assms(2)]) (use d in \<open>simp add: concat_chunk_loop\<close>)
  have "set c \<subseteq> set (concat (chunk_loop rs))" using assms(2) by auto
  then have "set c \<subseteq> set rs" unfolding concat_chunk_loop .
  with d have le: "\<forall>r \<in> set c. tr_from r \<le> tr_end r" by blast
  have "range_key x \<le> range_key y" if "x \<in> set c" "tr_end x < tr_from y" for x y
  proof -
    have "tr_from x < tr_from y" by (rule le_less_trans [OF _ that(2)]) (use le that(1) in simp)
    then show ?thesis by (simp add: range_key_def)
  qed
  then have "sorted_wrt (\<lambda>a b. range_key a \<le> range_key b) c" by (rule sorted_wrt_mono_rel [OF _ c])
  then have "sorted (map (\<lambda>r. range_key (ttr_range r)) (map ?f c))" by (simp add: sorted_map comp_def)
  then have "CanonicalizeRanges (map ?f c) = map ?f c"
    unfolding CanonicalizeRanges_def by (rule sort_key_id_if_sorted)
  moreover have "ranges_loop a None (map ?f c)"
    by (rule ranges_loopI) (use c le in \<open>simp_all add: sorted_wrt_map\<close>)
  ultimately show ?thesis
    using chunk_loop_bounds [OF assms(2)] assms(3) by (simp add: IsCanonicalRanges_def del: ranges_loop.simps)
qed

text \<open>A task derived for a snapshot: both ends are members, the ranges are canonical, kind and epoch are the batch's.\<close>

fun derived_task :: "TopologySnapshot \<Rightarrow> TopologyChangeType \<Rightarrow> 64 word \<Rightarrow> TopologyTask \<Rightarrow> bool" where
  "derived_task s type epoch (MigrateTask v) \<longleftrightarrow> type \<noteq> FAILURE \<and> mt_type v = type \<and> mt_epoch v = epoch \<and>
     (\<exists>m m'. FindMemberByAddress s (mt_executorAddress v) = Inr m \<and> FindMemberByAddress s (mt_targetAddress v) = Inr m') \<and>
     (mt_executorAddress v \<noteq> [] \<longrightarrow> IsCanonicalRanges (mt_sourceRanges v) (mt_executorAddress v))"
| "derived_task s type epoch (DeleteTask v) \<longleftrightarrow> type = FAILURE \<and> dt_epoch v = epoch \<and>
     (\<exists>m m'. FindMemberByAddress s (dt_failedAddress v) = Inr m \<and> FindMemberByAddress s (dt_executorAddress v) = Inr m') \<and>
     (dt_executorAddress v \<noteq> [] \<longrightarrow> IsCanonicalRanges (dt_recoveryRanges v) (dt_executorAddress v))"

lemma derived_AppendTaskChunks:
  assumes "ValidateOwnerChange s type c = Inr ()" "\<forall>task \<in> set tasks. derived_task s type epoch task"
  shows "\<forall>task \<in> set (AppendTaskChunks type epoch c tasks). derived_task s type epoch task"
proof -
  from assms(1) obtain src where c: "oc_source c = Some src" "disjoint_loop None (sort_key range_key (oc_ranges c))"
    "\<exists>m. FindMemberByAddress s (mi_address src) = Inr m" "\<exists>m. FindMemberByAddress s (mi_address (oc_target c)) = Inr m"
    by (auto simp: ValidateOwnerChange_def split: option.splits if_splits sum.splits)
  have "derived_task s type epoch (chunk_task type epoch (mi_address src) (mi_address (oc_target c)) x)"
    if "x \<in> set (chunk_loop (sort_key range_key (oc_ranges c)))" for x
    using chunk_canonical [OF c(2) that] c(3,4) by (auto simp: chunk_task_def)
  with assms(2) show ?thesis by (auto simp: AppendTaskChunks_def c(1))
qed

lemma derived_changes_loop:
  "changes_loop s type epoch cs tasks = Inr tasks' \<Longrightarrow> \<forall>task \<in> set tasks. derived_task s type epoch task \<Longrightarrow>
    \<forall>task \<in> set tasks'. derived_task s type epoch task"
proof (induction cs arbitrary: tasks)
  case (Cons c cs)
  then have "ValidateOwnerChange s type c = Inr ()"
    "changes_loop s type epoch cs (AppendTaskChunks type epoch c tasks) = Inr tasks'"
    by (auto split: sum.splits)
  with Cons.IH Cons.prems(2) derived_AppendTaskChunks show ?case by blast
qed simp

lemma derived_set_task_id [simp]: "derived_task s type epoch (set_task_id i task) = derived_task s type epoch task"
  by (cases task) simp_all

subsection \<open>Task names\<close>

text \<open>What the code relies on of SHA-256: a hexadecimal digest has 64 lower-case digits.\<close>

definition sha_ok :: "(string \<Rightarrow> string option) \<Rightarrow> bool" where
  "sha_ok sha \<longleftrightarrow> (\<forall>x d. sha x = Some d \<longrightarrow> length d = 64 \<and> list_all IsLowerHex d)"

lemma to_string_first: "0 < n \<Longrightarrow> char_in (CHR ''1'') (CHR ''9'') (hd (to_string n))"
proof (induction n rule: to_string.induct)
  case (1 n)
  show ?case
  proof (cases "n < 10")
    case True
    then have "n \<in> {1, 2, 3, 4, 5, 6, 7, 8, 9}" using "1.prems" by auto
    then show ?thesis by (auto simp: to_string.simps [of n] char_in_def digit_char_def)
  next
    case False
    then show ?thesis using 1 by (simp add: to_string.simps [of n] hd_append)
  qed
qed

lemma find_skip: "\<forall>a \<in> set as. \<not> P a \<Longrightarrow> P b \<Longrightarrow> find P (as @ b # bs) = Some b"
  by (induction as) auto

lemma find_first:
  assumes "\<forall>c \<in> set ds. c \<noteq> x" "length p = n"
  shows "find_char_from (p @ ds @ x # rest) x n = Some (n + length ds)"
proof -
  let ?l = "length (p @ ds @ x # rest)"
  have "[n..<?l] = [n..<n + length ds] @ [n + length ds..<?l]"
    using assms(2) upt_add_eq_append [of n "n + length ds" "Suc (length rest)"] by (simp add: add.assoc)
  also have "[n + length ds..<?l] = (n + length ds) # [Suc (n + length ds)..<?l]"
    using assms(2) by (intro upt_conv_Cons) simp
  finally have up: "[n..<?l] = [n..<n + length ds] @ (n + length ds) # [Suc (n + length ds)..<?l]" .
  have no: "\<forall>i \<in> set [n..<n + length ds]. (p @ ds @ x # rest) ! i \<noteq> x"
  proof
    fix i assume "i \<in> set [n..<n + length ds]"
    then have "(p @ ds @ x # rest) ! i = ds ! (i - n)" "i - n < length ds" using assms(2) by (auto simp: nth_append)
    then show "(p @ ds @ x # rest) ! i \<noteq> x" using assms(1) by simp
  qed
  have "(p @ ds @ x # rest) ! (n + length ds) = x" using assms(2) by (simp add: nth_append)
  then show ?thesis unfolding find_char_from_def up by (rule find_skip [OF no])
qed

lemma valid_task_id:
  assumes "kind = CHR ''m'' \<or> kind = CHR ''d''" "0 < n" "length h = TASK_DIGEST_SIZE" "list_all IsLowerHex h"
  shows "IsValidTaskId (kind # ''-e'' @ to_string n @ CHR ''-'' # h)"
proof -
  let ?i = "kind # ''-e'' @ to_string n @ CHR ''-'' # h"
  have ne: "\<forall>c \<in> set (to_string n). c \<noteq> CHR ''-''" using to_string_digits by (force simp: isdigit_code)
  have f: "find_char_from ?i (CHR ''-'') TASK_KIND_PREFIX_SIZE = Some (3 + length (to_string n))"
    using find_first [OF ne, of "kind # ''-e''" 3 h] by (simp add: TASK_KIND_PREFIX_SIZE_def)
  have nth: "?i ! (3 + j) = to_string n ! j" if "j < length (to_string n)" for j
    using that by (simp add: nth_append numeral_3_eq_3)
  have "isdigit (?i ! i)" if "3 \<le> i" "i < 3 + length (to_string n)" for i
    using nth [of "i - 3"] that to_string_digits [OF nth_mem, of "i - 3" n] by simp
  then have dg: "list_all (\<lambda>i. isdigit (?i ! i)) [TASK_KIND_PREFIX_SIZE..<3 + length (to_string n)]"
    by (auto simp: list_all_iff TASK_KIND_PREFIX_SIZE_def)
  have "?i ! TASK_KIND_PREFIX_SIZE = hd (to_string n)"
    using nth [of 0] by (simp add: hd_conv_nth TASK_KIND_PREFIX_SIZE_def)
  then have first: "char_in (CHR ''1'') (CHR ''9'') (?i ! TASK_KIND_PREFIX_SIZE)" using to_string_first [OF assms(2)] by simp
  have pos: "length (to_string n) > 0" by simp
  have tl: "drop (3 + length (to_string n) + 1) ?i = h" by (simp add: numeral_3_eq_3)
  have len: "length ?i = 4 + length (to_string n) + TASK_DIGEST_SIZE" using assms(3) by simp
  have pre: "take 3 ?i = ''m-e'' \<or> take 3 ?i = ''d-e''" using assms(1) by auto
  have "\<not> length ?i < MIN_TASK_ID_SIZE" using pos unfolding len by (simp add: MIN_TASK_ID_SIZE_def TASK_KIND_PREFIX_SIZE_def Suc_le_eq)
  moreover have "3 + length (to_string n) \<noteq> TASK_KIND_PREFIX_SIZE" using pos by (simp add: TASK_KIND_PREFIX_SIZE_def)
  ultimately show ?thesis
    unfolding IsValidTaskId_def f option.case using first dg tl pre assms(4) len by simp
qed

lemma BuildTaskId_form:
  obtains kind seed where "BuildTaskId sha task = kind # ''-e'' @ to_string (unat (task_epoch task)) @ CHR ''-'' # DigestPrefix sha seed"
    "kind = (case task of MigrateTask _ \<Rightarrow> CHR ''m'' | DeleteTask _ \<Rightarrow> CHR ''d'')"
  by (cases task) (auto simp: BuildTaskId_def Let_def)

lemma DigestPrefix_ok:
  assumes "sha_ok sha"
  shows "DigestPrefix sha seed = [] \<or> length (DigestPrefix sha seed) = TASK_DIGEST_SIZE \<and> list_all IsLowerHex (DigestPrefix sha seed)"
  using assms unfolding sha_ok_def DigestPrefix_def ID_HASH_CHARS_def TASK_DIGEST_SIZE_def
  by (auto split: option.splits simp: list_all_iff dest: in_set_takeD)

lemma named_task_id:
  assumes "sha_ok sha" "length (BuildTaskId sha task) > ID_HASH_CHARS" "task_epoch task > 0"
  shows "ValidateTaskContext (BuildTaskId sha task) (case task of MigrateTask _ \<Rightarrow> CHR ''m'' | DeleteTask _ \<Rightarrow> CHR ''d'')
      (task_epoch task) = Inr ()"
proof -
  obtain kind seed where i: "BuildTaskId sha task = kind # ''-e'' @ to_string (unat (task_epoch task)) @ CHR ''-'' # DigestPrefix sha seed"
    and k: "kind = (case task of MigrateTask _ \<Rightarrow> CHR ''m'' | DeleteTask _ \<Rightarrow> CHR ''d'')"
    by (rule BuildTaskId_form)
  have "unat (task_epoch task) < 2 ^ 64" using unsigned_less [of "task_epoch task"] by simp
  then have "length (to_string (unat (task_epoch task))) \<le> 20" by (intro length_to_string) simp_all
  then have "DigestPrefix sha seed \<noteq> []" using assms(2) unfolding i by (auto simp: ID_HASH_CHARS_def)
  with DigestPrefix_ok [OF assms(1), of seed]
  have d: "length (DigestPrefix sha seed) = TASK_DIGEST_SIZE" "list_all IsLowerHex (DigestPrefix sha seed)" by auto
  have "0 < unat (task_epoch task)" using assms(3) by (simp add: unat_gt_0 word_greater_zero_iff)
  then have "IsValidTaskId (BuildTaskId sha task)"
    unfolding i using k by (intro valid_task_id d) (auto split: TopologyTask.splits)
  then show ?thesis
    by (simp add: ValidateTaskContext_def ValidateTaskId_def TaskKey_def i k)
qed

lemma member_address_ok:
  assumes "Create re st rv dig = Inr s" "FindMemberByAddress s a = Inr m"
  shows "ValidateMemberAddress re a = Inr ()" "a \<noteq> []"
proof -
  from assms(1) obtain s: "s = snapshot_of (canonical st) rv dig" and v: "valid_topology re (canonical st)"
    by (rule created_snapshot)
  have d: "distinct (map m_address (ts_members (canonical st)))" using v by (simp add: valid_topology_def)
  have "m \<in> set (ts_members (canonical st)) \<and> m_address m = a"
    using assms(2) unfolding s FindMemberByAddress_iff(1) [OF d] .
  then have "canonical_address re a" using v by (auto simp: valid_topology_def valid_member_def)
  then show "ValidateMemberAddress re a = Inr ()" "a \<noteq> []"
    by (auto simp: canonical_address_def ValidateMemberAddress_def NotifyKey_def KeyHelper_ValidateAddress_def)
qed

text \<open>A task passes every check of its encoder: encoding it is the serialisation of its message.\<close>

fun encodes :: "re2 \<Rightarrow> Wire \<Rightarrow> TopologyTask \<Rightarrow> bool" where
  "encodes re wire (MigrateTask v) \<longleftrightarrow> EncodeMigrateTask re wire v =
     SerializeCanonical (ser_migrate wire)
       \<lparr> mtp_target_address = mt_targetAddress v, mtp_source_ranges = EncodeRanges (mt_sourceRanges v) \<rparr>"
| "encodes re wire (DeleteTask v) \<longleftrightarrow> EncodeDeleteTask re wire v =
     SerializeCanonical (ser_delete wire)
       \<lparr> dtp_failed_address = dt_failedAddress v, dtp_recovery_ranges = EncodeRanges (dt_recoveryRanges v) \<rparr>"

lemma derived_encodes:
  assumes "Create re st rv dig = Inr s" "sha_ok sha" "derived_task s type epoch task" "epoch > 0"
    "length (BuildTaskId sha task) > ID_HASH_CHARS"
  shows "encodes re wire (set_task_id (BuildTaskId sha task) task)"
proof -
  have e: "task_epoch task = epoch" using assms(3) by (cases task) auto
  note c = named_task_id [OF assms(2,5), unfolded e, OF assms(4)] and a = member_address_ok [OF assms(1)]
  show ?thesis
  proof (cases task)
    case (MigrateTask v)
    with assms(3) a have "ValidateMemberAddress re (mt_targetAddress v) = Inr ()"
      "ValidateMemberAddress re (mt_executorAddress v) = Inr ()" "mt_executorAddress v \<noteq> []" "mt_epoch v = epoch"
      by auto
    then show ?thesis using assms(3,4) c by (simp add: MigrateTask EncodeMigrateTask_def)
  next
    case (DeleteTask v)
    with assms(3) a have "ValidateMemberAddress re (dt_failedAddress v) = Inr ()"
      "ValidateMemberAddress re (dt_executorAddress v) = Inr ()" "dt_executorAddress v \<noteq> []" "dt_epoch v = epoch"
      by auto
    then show ?thesis using assms(3,4) c by (simp add: DeleteTask EncodeDeleteTask_def)
  qed
qed

subsection \<open>Notifications\<close>

lemma map_of_add_notify:
  "map_of (add_notify batch m task) a =
     (if task_executor task = a
      then Some \<lparr> tn_activeBatch = Some batch,
        tn_taskIds = (case map_of m a of None \<Rightarrow> [] | Some n \<Rightarrow> tn_taskIds n) @ [task_id task],
        tn_restartTimestampsByAddress = (case map_of m a of None \<Rightarrow> [] | Some n \<Rightarrow> tn_restartTimestampsByAddress n) \<rparr>
      else map_of m a)"
  by (auto simp: add_notify_def Let_def map_of_om_put split: option.split)

lemma foldl_add_notify:
  "map_of (foldl (add_notify batch) m tasks) a =
     (if filter (\<lambda>task. task_executor task = a) tasks = [] then map_of m a
      else Some \<lparr> tn_activeBatch = Some batch,
        tn_taskIds = (case map_of m a of None \<Rightarrow> [] | Some n \<Rightarrow> tn_taskIds n) @
          map task_id (filter (\<lambda>task. task_executor task = a) tasks),
        tn_restartTimestampsByAddress = (case map_of m a of None \<Rightarrow> [] | Some n \<Rightarrow> tn_restartTimestampsByAddress n) \<rparr>)"
  by (induction tasks arbitrary: m) (simp_all add: map_of_add_notify)

lemma om_ok_notifies: "om_ok m \<Longrightarrow> om_ok (foldl (add_notify batch) m tasks)"
  by (induction tasks arbitrary: m) (simp_all add: add_notify_def Let_def om_ok_put)

lemma derived_state_facts:
  assumes "Create re st rv dig = Inr s" "BuildExpected sha s plan = Inr e" "sha_ok sha"
  shows "\<forall>task \<in> set (ed_tasks e). encodes re wire task \<and> length (task_ranges task) \<in> {1..MAX_TOPOLOGY_TASK_RANGES} \<and>
      (\<exists>batch. ts_activeBatch st = Some batch \<and> task_epoch task = ab_epoch batch)"
    and "map_of (ed_notifiesByAddress e) a =
      (if filter (\<lambda>task. task_executor task = a) (ed_tasks e) = [] then None
       else Some \<lparr> tn_activeBatch = ts_activeBatch st,
         tn_taskIds = map task_id (filter (\<lambda>task. task_executor task = a) (ed_tasks e)),
         tn_restartTimestampsByAddress = [] \<rparr>)"
    and "sorted (map task_id (ed_tasks e))"
proof -
  obtain batch tasks where b: "ts_activeBatch (sn_state s) = Some batch"
    and l: "changes_loop s (ab_type batch) (ab_epoch batch) (tp_ownerChanges plan) [] = Inr tasks"
    and t: "set (ed_tasks e) = (\<lambda>task. set_task_id (BuildTaskId sha task) task) ` set tasks"
    and o: "sorted (map task_id (ed_tasks e))"
    and n: "ed_notifiesByAddress e = foldl (add_notify batch) [] (ed_tasks e)"
    and named: "\<forall>task \<in> set tasks. length (BuildTaskId sha task) > ID_HASH_CHARS"
    using assms(2) by (rule BuildExpected_Inr)
  have bt: "ts_activeBatch st = Some batch" using b created_tokens(1) [OF assms(1)] by (simp add: canonical_def)
  have ep: "ab_epoch batch > 0"
    using created_tokens(3) [OF assms(1)] by (simp add: valid_topology_def batch_states_ok_def bt)
  have d: "\<forall>task \<in> set tasks. derived_task s (ab_type batch) (ab_epoch batch) task"
    by (rule derived_changes_loop [OF l]) simp
  have "encodes re wire task \<and> length (task_ranges task) \<in> {1..MAX_TOPOLOGY_TASK_RANGES} \<and> task_epoch task = ab_epoch batch"
    if "task \<in> set (ed_tasks e)" for task
  proof -
    from that obtain x where x: "task = set_task_id (BuildTaskId sha x) x" "x \<in> set tasks" unfolding t by auto
    have dx: "derived_task s (ab_type batch) (ab_epoch batch) x" using d x by blast
    have "encodes re wire task"
      unfolding x(1) using derived_encodes [OF assms(1,3) dx ep] named x(2) by blast
    moreover have "length (task_ranges x) \<in> {1..MAX_TOPOLOGY_TASK_RANGES} \<and> task_epoch x = ab_epoch batch"
      using dx member_address_ok(2) [OF assms(1)]
      by (cases x) (auto simp: IsCanonicalRanges_def Suc_le_eq split: if_splits)
    ultimately show ?thesis by (simp add: x(1))
  qed
  then show "\<forall>task \<in> set (ed_tasks e). encodes re wire task \<and> length (task_ranges task) \<in> {1..MAX_TOPOLOGY_TASK_RANGES} \<and>
      (\<exists>batch. ts_activeBatch st = Some batch \<and> task_epoch task = ab_epoch batch)"
    using bt by auto
  show "map_of (ed_notifiesByAddress e) a =
      (if filter (\<lambda>task. task_executor task = a) (ed_tasks e) = [] then None
       else Some \<lparr> tn_activeBatch = ts_activeBatch st,
         tn_taskIds = map task_id (filter (\<lambda>task. task_executor task = a) (ed_tasks e)),
         tn_restartTimestampsByAddress = [] \<rparr>)"
    unfolding n foldl_add_notify by (simp add: bt)
  show "sorted (map task_id (ed_tasks e))" by (rule o)
qed

section \<open>Tasks and routing\<close>

lemma RebuildExpected_tasks:
  assumes "RebuildExpected re wire sha k s alg memberships facts = Inr e" "ts_activeBatch (sn_state s) = Some b"
  obtains plan e' where "RebuildPlan k s alg = Inr plan" "BuildExpected sha s plan = Inr e'" "ed_tasks e = ed_tasks e'"
    "ed_notifiesByAddress e = ed_notifiesByAddress e'"
  using assms by (auto simp: RebuildExpected_def split: sum.splits if_splits)

abbreviation in_state :: "MemberState \<Rightarrow> Member list \<Rightarrow> MemberIdentity list" where
  "in_state x ms \<equiv> map m_identity (filter (\<lambda>m. m_state m = x) ms)"

abbreviation changes_token :: "TopologyPlan \<Rightarrow> MemberIdentity \<Rightarrow> MemberIdentity \<Rightarrow> 32 word \<Rightarrow> bool" where
  "changes_token plan S T t \<equiv>
     \<exists>c \<in> set (tp_ownerChanges plan). oc_source c = Some S \<and> oc_target c = T \<and> list_ex (in_range t) (oc_ranges c)"

lemma rebuilt_scale_out:
  assumes "PlanScaleOut re \<lparr> so_current = st, so_joining = in_state JOINING (ts_members st), so_tokensPerMember = k \<rparr> = Inr plan"
    "successor (ring_of committed (ts_members st)) t v"
    "successor (ring_of (\<lambda>m. committed m \<or> m_state m = JOINING) (ts_members st)) t w"
  shows "changes_token plan S T t \<longleftrightarrow> S = to_identity v \<and> T = to_identity w \<and> S \<noteq> T"
proof -
  obtain new where new: "tp_next plan = st \<lparr> ts_members := ts_members st @ new \<rparr>" "placement_names (ts_members st @ new)"
    "\<forall>m \<in> set new. m_state m = JOINING \<and> m_tokens m \<noteq> [] \<and> m_identity m \<in> set (in_state JOINING (ts_members st))"
    "\<forall>x \<in> set (in_state JOINING (ts_members st)). \<exists>m \<in> set (ts_members st @ new). m_identity m = x \<and> m_state m = JOINING"
    using PlanScaleOut_new [OF assms(1), unfolded ScaleOutPlanInput.select_convs] by (elim exE conjE)
  have "m_address ` set (ts_members st) \<inter> m_address ` set new = {}" using new(2) by (simp add: placement_names_def)
  moreover have "m_address ` set new \<subseteq> m_address ` set (ts_members st)"
  proof clarify
    fix m assume "m \<in> set new"
    then have "m_identity m \<in> set (in_state JOINING (ts_members st))" using new(3) by blast
    then obtain n where "n \<in> set (ts_members st)" "m_identity m = m_identity n" by (auto simp only: set_map set_filter)
    then show "m_address m \<in> m_address ` set (ts_members st)" by simp
  qed
  ultimately have "m_address ` set new = {}" by (simp only: Int_absorb1)
  then have "new = []" by simp
  then have "ts_members (tp_next plan) = ts_members st" using new(1) by simp
  then have "successor (ring_of (\<lambda>m. committed m \<or> m_state m = JOINING) (ts_members (tp_next plan))) t w"
    using assms(3) by simp
  note c = scale_out_plan_changes [OF assms(1) _ this, unfolded ScaleOutPlanInput.select_convs, OF assms(2), of S T]
  show ?thesis by (rule c [THEN conjunct2, THEN conjunct2, THEN conjunct2])
qed

lemma rebuilt_scale_in:
  assumes "PlanScaleIn re \<lparr> si_current = st, si_leaving = in_state LEAVING (ts_members st) \<rparr> = Inr plan"
    "distinct (map m_address (ts_members st))" "distinct (concat (map m_tokens (ts_members st)))"
    "successor (ring_of committed (ts_members st)) t v"
    "successor (ring_of (\<lambda>m. committed m \<and> m_state m \<noteq> LEAVING) (ts_members st)) t w"
  shows "changes_token plan S T t \<longleftrightarrow> S = to_identity v \<and> T = to_identity w \<and> S \<noteq> T"
proof -
  let ?ms = "ts_members st" and ?stay = "\<lambda>m. committed m \<and> m_state m \<noteq> LEAVING"
  have inj: "m = n" if "m \<in> set ?ms" "n \<in> set ?ms" "m_identity m = m_identity n" for m n
    by (rule inj_onD [of m_address "set ?ms"]) (use assms(2) that in \<open>simp_all add: distinct_map\<close>)
  have lv: "m_identity m \<in> set (in_state LEAVING ?ms) \<longleftrightarrow> m_state m = LEAVING" if "m \<in> set ?ms" for m
    using that inj by force
  have ring: "ring_of (\<lambda>m. committed m \<and> m_identity m \<notin> set (in_state LEAVING ?ms)) ?ms = ring_of ?stay ?ms"
    using lv unfolding ring_of_def by blast
  have iff: "changes_token plan S T t \<longleftrightarrow> S = to_identity v \<and> T = to_identity w \<and> S \<in> set (in_state LEAVING ?ms)"
    using scale_in_plan_changes [OF assms(1), of t v w S T] assms(4,5) ring by simp
  obtain m where m: "m \<in> set ?ms" "committed m" "to_identity v = m_identity m" "to_token v \<in> set (m_tokens m)"
    using assms(4) by (auto simp: successor_def elim: ring_ofE)
  obtain n where n: "n \<in> set ?ms" "?stay n" "to_identity w = m_identity n"
    using assms(5) by (auto simp: successor_def elim!: ring_ofE)
  have "to_identity v = to_identity w" if "m_state m \<noteq> LEAVING"
  proof -
    have "\<lparr> to_token = to_token v, to_identity = m_identity m \<rparr> \<in> ring_of ?stay ?ms"
      unfolding ring_of_def using m that by blast
    moreover have "\<lparr> to_token = to_token v, to_identity = m_identity m \<rparr> = v" using m(3) by (cases v) auto
    ultimately have "v \<in> ring_of ?stay ?ms" by simp
    moreover have "ring_of ?stay ?ms \<subseteq> ring_of committed ?ms" by (rule ring_of_mono) auto
    ultimately have "successor (ring_of ?stay ?ms) t v" using assms(4) unfolding successor_def by blast
    then show ?thesis using successor_unique [OF ring_of_inj [OF assms(3)] _ assms(5)] by simp
  qed
  then have "to_identity v \<in> set (in_state LEAVING ?ms) \<longleftrightarrow> to_identity v \<noteq> to_identity w"
    using lv [OF m(1)] lv [OF n(1)] m(3) n(2,3) by auto
  then show ?thesis unfolding iff by blast
qed

lemma rebuilt_plan_routing:
  assumes "Create re st rv dig = Inr s" "ts_activeBatch st = Some b" "ab_type b \<noteq> FAILURE"
    "RebuildPlan k s (HashAlgorithm re) = Inr plan" "LocateOwner s t = Inr m" "LocateProspectiveOwner s t = Inr m'"
  shows "changes_token plan S T t \<longleftrightarrow> S = m_identity m \<and> T = m_identity m' \<and> S \<noteq> T"
    and "m \<in> set (ts_members (sn_state s))" "m' \<in> set (ts_members (sn_state s))"
    and "distinct (map m_address (ts_members (sn_state s)))"
proof -
  from assms(1) have st: "sn_state s = canonical st" and val: "valid_topology re (canonical st)"
    by (auto elim: created_snapshot)
  have b: "ts_activeBatch (sn_state s) = Some b" using assms(2) by (simp add: st canonical_def)
  have d: "distinct (map m_address (ts_members (sn_state s)))" "distinct (concat (map m_tokens (ts_members (sn_state s))))"
    using val by (simp_all add: st valid_topology_def)
  let ?ms = "ts_members (sn_state s)"
  note l = locate_owner_ring [OF assms(1), of t]
  from l assms(5) obtain v where v: "successor (ring_of committed ?ms) t v" "to_identity v = m_identity m" and m: "m \<in> set ?ms"
    by (auto simp: locates_def)
  have pr: "prospective st = (if ab_type b = SCALE_OUT then (\<lambda>m. committed m \<or> m_state m = JOINING)
      else (\<lambda>m. committed m \<and> m_state m \<noteq> LEAVING))"
    using assms(2,3) by (cases "ab_type b") (auto simp: fun_eq_iff prospective_def IsProspective_def)
  have ne: "ring_of (prospective st) ?ms \<noteq> {}"
  proof (cases "ab_type b = SCALE_OUT")
    case True
    have "v \<in> ring_of committed ?ms" using v by (simp add: successor_def)
    then show ?thesis unfolding pr if_P [OF True] ring_of_def by blast
  next
    case False
    then have "ab_type b = SCALE_IN" using assms(3) by (cases "ab_type b") auto
    with assms(4) obtain built where
      built: "PlanScaleIn re \<lparr> si_current = sn_state s, si_leaving = in_state LEAVING ?ms \<rparr> = Inr built"
      by (auto simp: RebuildPlan_def b HashAlgorithm_def Let_def split: if_splits sum.splits)
    then obtain to where to: "BuildOwners ?ms False (map mi_address (in_state LEAVING ?ms)) False = Inr to"
      by (auto elim: PlanScaleIn_cases)
    have "to \<noteq> []" using BuildOwners_ring(1) [OF to d(2)] by (simp add: ring_ok_def)
    then have "ring_of (eligible_owner False (map mi_address (in_state LEAVING ?ms)) False) ?ms \<noteq> {}"
      using BuildOwners_ring(2) [OF to d(2)] by auto
    then show ?thesis unfolding pr if_not_P [OF False] eligible_simps ring_of_def by force
  qed
  then have "locates (Inr m') (prospective st) ?ms t" using l assms(6) by simp
  then obtain p where p: "successor (ring_of (prospective st) ?ms) t \<lparr> to_token = p, to_identity = m_identity m' \<rparr>"
    and m': "m' \<in> set ?ms"
    by (auto simp: locates_def)
  define w where "w = \<lparr> to_token = p, to_identity = m_identity m' \<rparr>"
  have w: "successor (ring_of (prospective st) ?ms) t w" "to_identity w = m_identity m'" using p by (simp_all add: w_def)
  show "m \<in> set ?ms" "m' \<in> set ?ms" "distinct (map m_address ?ms)" by (rule m m' d(1))+
  show "changes_token plan S T t \<longleftrightarrow> S = m_identity m \<and> T = m_identity m' \<and> S \<noteq> T"
  proof (cases "ab_type b")
    case SCALE_OUT
    with assms(4) obtain built where "PlanScaleOut re \<lparr> so_current = sn_state s, so_joining = in_state JOINING ?ms,
        so_tokensPerMember = k \<rparr> = Inr built" "tp_ownerChanges plan = tp_ownerChanges built"
      by (auto simp: RebuildPlan_def b HashAlgorithm_def Let_def split: if_splits sum.splits)
    with rebuilt_scale_out [OF this(1), of t v w S T] v w SCALE_OUT show ?thesis by (simp add: pr)
  next
    case SCALE_IN
    with assms(4) obtain built where "PlanScaleIn re \<lparr> si_current = sn_state s, si_leaving = in_state LEAVING ?ms \<rparr> = Inr built"
        "tp_ownerChanges plan = tp_ownerChanges built"
      by (auto simp: RebuildPlan_def b HashAlgorithm_def Let_def split: if_splits sum.splits)
    with rebuilt_scale_in [OF this(1) d, of t v w S T] v w SCALE_IN show ?thesis by (simp add: pr)
  qed (use assms(3) in simp)
qed

text \<open>
  C39. Tasks agree with routing: the tasks derived for a scale-out or scale-in batch move a token from one address
  to another exactly when routing returns the first as the token's owner during the batch and the second as its
  prospective owner, and the two differ.
\<close>

theorem migration_tasks_match_routing:
  assumes "Create re st rv dig = Inr s" "ts_activeBatch st = Some b" "ab_type b \<noteq> FAILURE"
    "RebuildExpected re wire sha k s (HashAlgorithm re) memberships facts = Inr e"
    "LocateOwner s t = Inr m" "LocateProspectiveOwner s t = Inr m'"
  shows "(\<exists>task \<in> set (ed_tasks e). moves task src dst t) \<longleftrightarrow> src = m_address m \<and> dst = m_address m' \<and> src \<noteq> dst"
proof -
  have "ts_activeBatch (sn_state s) = Some b" using assms(2) created_tokens(1) [OF assms(1)] by (simp add: canonical_def)
  from assms(4) this obtain plan e' where plan: "RebuildPlan k s (HashAlgorithm re) = Inr plan"
    and e': "BuildExpected sha s plan = Inr e'" "ed_tasks e = ed_tasks e'"
    by (rule RebuildExpected_tasks)
  note r = rebuilt_plan_routing [OF assms(1-3) plan assms(5,6)]
  have "(\<exists>task \<in> set (ed_tasks e). moves task src dst t) \<longleftrightarrow>
      (\<exists>S T. changes_token plan S T t \<and> mi_address S = src \<and> mi_address T = dst)"
    unfolding e'(2) BuildExpected_moves [OF e'(1)] by blast
  also have "\<dots> \<longleftrightarrow> src = m_address m \<and> dst = m_address m' \<and> m_identity m \<noteq> m_identity m'" unfolding r(1) by blast
  also have "\<dots> \<longleftrightarrow> src = m_address m \<and> dst = m_address m' \<and> src \<noteq> dst"
    using r(2-4) by (auto simp: distinct_map dest: inj_onD)
  finally show ?thesis .
qed

text \<open>
  C40. Derived state: every task derived for a published topology carries the batch's epoch and between 1 and
  \<^verbatim>\<open>MAX_TOPOLOGY_TASK_RANGES\<close> ranges, and passes every check of its encoder; the notification of an address
  lists exactly the tasks that address executes, in the order of their names.
\<close>

theorem derived_state_exact:
  assumes "Create re st rv dig = Inr s" "BuildExpected sha s plan = Inr e" "sha_ok sha"
  shows "(\<forall>task \<in> set (ed_tasks e). encodes re wire task \<and> length (task_ranges task) \<in> {1..MAX_TOPOLOGY_TASK_RANGES} \<and>
      (\<exists>batch. ts_activeBatch st = Some batch \<and> task_epoch task = ab_epoch batch)) \<and>
    map_of (ed_notifiesByAddress e) a =
      (if filter (\<lambda>task. task_executor task = a) (ed_tasks e) = [] then None
       else Some \<lparr> tn_activeBatch = ts_activeBatch st,
         tn_taskIds = map task_id (filter (\<lambda>task. task_executor task = a) (ed_tasks e)),
         tn_restartTimestampsByAddress = [] \<rparr>) \<and>
    sorted (map task_id (ed_tasks e))"
  by (intro conjI derived_state_facts [OF assms])

section \<open>Concrete tasks\<close>

definition sample_sha :: "string \<Rightarrow> string option" where
  "sample_sha x = Some sample_digest"

lemma sample_sha_ok: "sha_ok sample_sha"
proof -
  have "list_all IsLowerHex sample_digest" by code_simp
  moreover have "length sample_digest = 64" by (simp add: sample_digest_def)
  ultimately show ?thesis by (simp add: sha_ok_def sample_sha_def)
qed

definition rebuilt :: "ExpectedDerivedState result" where
  "rebuilt = (case Create re2_model sample_state 5 sample_digest of
     Inl e \<Rightarrow> Inl e
   | Inr s \<Rightarrow> RebuildExpected re2_model sample_wire sample_sha 1 s (HashAlgorithm re2_model) [] False)"

theorem migration_tasks_match_routing_witness:
  "\<exists>s e task. Create re2_model sample_state 5 sample_digest = Inr s \<and>
     RebuildExpected re2_model sample_wire sample_sha 1 s (HashAlgorithm re2_model) [] False = Inr e \<and>
     task \<in> set (ed_tasks e) \<and> moves task ''10.0.0.1:80'' ''10.0.0.3:80'' 5"
proof -
  have "isl (Create re2_model sample_state 5 sample_digest) = False" by code_simp
  then obtain s where s: "Create re2_model sample_state 5 sample_digest = Inr s"
    by (cases "Create re2_model sample_state 5 sample_digest") auto
  have "isl rebuilt = False" by code_simp
  then obtain e where e: "RebuildExpected re2_model sample_wire sample_sha 1 s (HashAlgorithm re2_model) [] False = Inr e"
    by (cases rebuilt) (auto simp: rebuilt_def s)
  have "(case Create re2_model sample_state 5 sample_digest of Inl e \<Rightarrow> Inl e | Inr s \<Rightarrow> LocateOwner s 5) =
      Inr (sample_member (CHR ''a'') ''10.0.0.1:80'' ACTIVE [10, 20])" by code_simp
  then have o: "LocateOwner s 5 = Inr (sample_member (CHR ''a'') ''10.0.0.1:80'' ACTIVE [10, 20])" by (simp add: s)
  have "(case Create re2_model sample_state 5 sample_digest of Inl e \<Rightarrow> Inl e | Inr s \<Rightarrow> LocateProspectiveOwner s 5) =
      Inr (sample_member (CHR ''c'') ''10.0.0.3:80'' JOINING [6, 30])" by code_simp
  then have p: "LocateProspectiveOwner s 5 = Inr (sample_member (CHR ''c'') ''10.0.0.3:80'' JOINING [6, 30])" by (simp add: s)
  have "ts_activeBatch sample_state = Some \<lparr> ab_type = SCALE_OUT, ab_epoch = 2 \<rparr>" by (simp add: sample_state_def)
  from migration_tasks_match_routing [OF s this _ e o p, of "''10.0.0.1:80''" "''10.0.0.3:80''"]
  show ?thesis using s e by (auto simp: sample_member_def)
qed

definition built_result :: "ExpectedDerivedState result" where
  "built_result = (case Create re2_model sample_state 5 sample_digest of
     Inl e \<Rightarrow> Inl e
   | Inr s \<Rightarrow> BuildExpected sample_sha s \<lparr> tp_next = canonical sample_state, tp_ownerChanges =
       [\<lparr> oc_source = Some identity_a, oc_target = identity_c, oc_ranges = [\<lparr> tr_from = 0, tr_end = 6 \<rparr>] \<rparr>] \<rparr>)"

definition derived_id :: string where
  "derived_id = ''m-e2-'' @ replicate 32 (CHR ''a'')"

theorem derived_state_exact_witness:
  "\<exists>e. built_result = Inr e \<and> sha_ok sample_sha \<and>
     map_of (ed_notifiesByAddress e) ''10.0.0.1:80'' =
       Some \<lparr> tn_activeBatch = Some \<lparr> ab_type = SCALE_OUT, ab_epoch = 2 \<rparr>, tn_taskIds = [derived_id],
         tn_restartTimestampsByAddress = [] \<rparr>"
proof -
  have "isl (Create re2_model sample_state 5 sample_digest) = False" by code_simp
  then obtain s where s: "Create re2_model sample_state 5 sample_digest = Inr s"
    by (cases "Create re2_model sample_state 5 sample_digest") auto
  have "isl built_result = False" by code_simp
  then obtain e where e: "built_result = Inr e" by (metis sum.collapse(2))
  have "map task_id (filter (\<lambda>task. task_executor task = ''10.0.0.1:80'') (ed_tasks (projr built_result))) = [derived_id]"
    by code_simp
  then have i: "map task_id (filter (\<lambda>task. task_executor task = ''10.0.0.1:80'') (ed_tasks e)) = [derived_id]"
    unfolding e sum.sel .
  from e s have "\<exists>plan. BuildExpected sample_sha s plan = Inr e" by (auto simp: built_result_def)
  then obtain plan where b: "BuildExpected sample_sha s plan = Inr e" ..
  have "filter (\<lambda>task. task_executor task = ''10.0.0.1:80'') (ed_tasks e) \<noteq> []" using i by auto
  moreover have "ts_activeBatch sample_state = Some \<lparr> ab_type = SCALE_OUT, ab_epoch = 2 \<rparr>" by (simp add: sample_state_def)
  ultimately show ?thesis
    using derived_state_exact [OF s b sample_sha_ok, of sample_wire "''10.0.0.1:80''"] i
    by (intro exI [of _ e] conjI e sample_sha_ok) simp
qed

end
