(* ===== verification/Failure_Classifier.thy ===== *)
theory Failure_Classifier
  imports Topology_Snapshot Membership_Types "HOL-Library.Signed_Division"
begin

text \<open>
  The failure classifier of \<^verbatim>\<open>cluster/control/topology_failure_classifier.cpp\<close>: timers that turn the absence of a
  member's lease into a confirmed failure, and that stand still while the membership table cannot be read.

  Time points are integers in nanoseconds, as \<^verbatim>\<open>std::chrono::steady_clock\<close> has them, and the timeout is in
  seconds. The hash map of timers is a partial function; every loop over it in the source treats its entries
  independently. Operations that change the timers return the new classifier also when they fail.
\<close>

definition DurationMs :: "int \<Rightarrow> int \<Rightarrow> int" where
  "DurationMs start end_time = (end_time - start) sdiv 1000000"

record MemberAbsenceObservation =
  ao_identity :: MemberIdentity
  ao_state :: MemberState
  ao_missingMs :: int

record MemberAbsenceSample =
  as_identity :: MemberIdentity
  as_state :: MemberState

record FailureClassification =
  cl_removeInitial :: "MemberIdentity list"
  cl_removeJoining :: "MemberIdentity list"
  cl_confirmedFailure :: "MemberIdentity list"
  cl_newlyMissing :: "MemberAbsenceObservation list"
  cl_restored :: "MemberAbsenceObservation list"
  cl_confirmedMissing :: "MemberAbsenceObservation list"

record TopologyFailureClassifier =
  fc_nodeDeadTimeout :: int
  fc_missingSince :: "string \<rightharpoonup> int"
  fc_pausedAt :: "int option"

definition TopologyFailureClassifier_make :: "int \<Rightarrow> TopologyFailureClassifier" where
  "TopologyFailureClassifier_make nodeDeadTimeout =
     \<lparr> fc_nodeDeadTimeout = nodeDeadTimeout, fc_missingSince = Map.empty, fc_pausedAt = None \<rparr>"

definition empty_classification :: FailureClassification where
  "empty_classification = \<lparr> cl_removeInitial = [], cl_removeJoining = [], cl_confirmedFailure = [],
     cl_newlyMissing = [], cl_restored = [], cl_confirmedMissing = [] \<rparr>"

definition timed_out :: "int \<Rightarrow> int \<Rightarrow> int \<Rightarrow> bool" where
  "timed_out nodeDeadTimeout since now \<longleftrightarrow> now - since \<ge> nodeDeadTimeout * 1000000000"

definition Resume :: "TopologyFailureClassifier \<Rightarrow> int \<Rightarrow> TopologyFailureClassifier" where
  "Resume fc now =
     (case fc_pausedAt fc of
        None \<Rightarrow> fc
      | Some pausedAt \<Rightarrow>
          fc \<lparr> fc_missingSince := (\<lambda>address. map_option (\<lambda>since. since + (now - pausedAt)) (fc_missingSince fc address)),
               fc_pausedAt := None \<rparr>)"

definition Pause :: "TopologyFailureClassifier \<Rightarrow> int \<Rightarrow> TopologyFailureClassifier" where
  "Pause fc now = (if fc_pausedAt fc = None then fc \<lparr> fc_pausedAt := Some now \<rparr> else fc)"

definition ResetMissing :: "TopologyFailureClassifier \<Rightarrow> string \<Rightarrow> TopologyFailureClassifier" where
  "ResetMissing fc address = fc \<lparr> fc_missingSince := (fc_missingSince fc)(address := None) \<rparr>"

definition Reset :: "TopologyFailureClassifier \<Rightarrow> TopologyFailureClassifier" where
  "Reset fc = fc \<lparr> fc_missingSince := Map.empty, fc_pausedAt := None \<rparr>"

fun insert_addresses :: "string list \<Rightarrow> string list \<Rightarrow> string list result" where
  "insert_addresses [] seen = Inr seen"
| "insert_addresses (address # rest) seen =
     (if address \<noteq> [] \<and> address \<notin> set seen then insert_addresses rest (address # seen) else Inl K_INVALID)"

type_synonym observe_acc = "(string \<rightharpoonup> int) \<times> FailureClassification \<times> MemberIdentity list"

definition observe_member :: "int \<Rightarrow> string list \<Rightarrow> int \<Rightarrow> observe_acc \<Rightarrow> Member \<Rightarrow> observe_acc" where
  "observe_member nodeDeadTimeout present now acc member =
     (case acc of (missingSince, observed, retainedFailed) \<Rightarrow>
        if m_state member = FAILED
        then (missingSince(m_address member := None), observed, retainedFailed @ [m_identity member])
        else if m_address member \<in> set present
        then (case missingSince (m_address member) of
                None \<Rightarrow> (missingSince, observed, retainedFailed)
              | Some missing \<Rightarrow>
                  (missingSince(m_address member := None),
                   observed \<lparr> cl_restored := cl_restored observed @
                     [\<lparr> ao_identity = m_identity member, ao_state = m_state member, ao_missingMs = DurationMs missing now \<rparr>] \<rparr>,
                   retainedFailed))
        else if m_state member = INITIAL
        then (missingSince, observed \<lparr> cl_removeInitial := cl_removeInitial observed @ [m_identity member] \<rparr>, retainedFailed)
        else if m_state member = JOINING
        then (missingSince, observed \<lparr> cl_removeJoining := cl_removeJoining observed @ [m_identity member] \<rparr>, retainedFailed)
        else
          let inserted = (missingSince (m_address member) = None);
              since = (case missingSince (m_address member) of None \<Rightarrow> now | Some since \<Rightarrow> since);
              missingMs = (if inserted then 0 else DurationMs since now);
              observation = \<lparr> ao_identity = m_identity member, ao_state = m_state member, ao_missingMs = missingMs \<rparr>;
              observed = (if inserted
                          then observed \<lparr> cl_newlyMissing := cl_newlyMissing observed @ [observation] \<rparr>
                          else observed);
              observed = (if timed_out nodeDeadTimeout since now
                          then observed \<lparr> cl_confirmedMissing := cl_confirmedMissing observed @ [observation],
                                 cl_confirmedFailure := cl_confirmedFailure observed @ [m_identity member] \<rparr>
                          else observed)
          in (missingSince(m_address member \<mapsto> since), observed, retainedFailed))"

definition merge_retained :: "FailureClassification \<Rightarrow> MemberIdentity list \<Rightarrow> FailureClassification" where
  "merge_retained observed retainedFailed =
     (if cl_confirmedFailure observed \<noteq> []
      then observed \<lparr> cl_confirmedFailure := sort_key mi_address (cl_confirmedFailure observed @ retainedFailed) \<rparr>
      else observed)"

definition drop_unknown :: "TopologySnapshot \<Rightarrow> (string \<rightharpoonup> int) \<Rightarrow> (string \<rightharpoonup> int)" where
  "drop_unknown topology missingSince =
     (\<lambda>address. case FindMemberByAddress topology address of Inl _ \<Rightarrow> None | Inr _ \<Rightarrow> missingSince address)"

definition Observe ::
  "TopologyFailureClassifier \<Rightarrow> TopologySnapshot \<Rightarrow> MembershipRecord list \<Rightarrow> int
     \<Rightarrow> TopologyFailureClassifier \<times> FailureClassification result" where
  "Observe fc topology members now =
     (if fc_nodeDeadTimeout fc < 0 then (fc, Inl K_INVALID)
      else
      let fc = Resume fc now
      in case insert_addresses (map mr_address members) [] of
           Inl e \<Rightarrow> (fc, Inl e)
         | Inr present \<Rightarrow>
             (case foldl (observe_member (fc_nodeDeadTimeout fc) present now)
                     (fc_missingSince fc, empty_classification, []) (ts_members (sn_state topology)) of
                (missingSince, observed, retainedFailed) \<Rightarrow>
                  (fc \<lparr> fc_missingSince := drop_unknown topology missingSince \<rparr>,
                   Inr (merge_retained observed retainedFailed))))"

definition sample_step ::
  "int \<Rightarrow> int \<Rightarrow> (string \<rightharpoonup> int) \<times> MemberAbsenceObservation list \<Rightarrow> MemberAbsenceSample
     \<Rightarrow> (string \<rightharpoonup> int) \<times> MemberAbsenceObservation list" where
  "sample_step nodeDeadTimeout now acc sample =
     (case acc of (missingSince, observed) \<Rightarrow>
        let address = mi_address (as_identity sample);
            inserted = (missingSince address = None);
            since = (case missingSince address of None \<Rightarrow> now | Some since \<Rightarrow> since);
            missingMs = (if inserted then 0 else DurationMs since now)
        in (missingSince(address \<mapsto> since),
            if timed_out nodeDeadTimeout since now
            then observed @ [\<lparr> ao_identity = as_identity sample, ao_state = as_state sample, ao_missingMs = missingMs \<rparr>]
            else observed))"

definition ObserveMissingSamples ::
  "TopologyFailureClassifier \<Rightarrow> MemberAbsenceSample list \<Rightarrow> int
     \<Rightarrow> TopologyFailureClassifier \<times> MemberAbsenceObservation list result" where
  "ObserveMissingSamples fc samples now =
     (if fc_nodeDeadTimeout fc < 0 then (fc, Inl K_INVALID)
      else case insert_addresses (map (mi_address \<circ> as_identity) samples) [] of
             Inl e \<Rightarrow> (fc, Inl e)
           | Inr sampledAddresses \<Rightarrow>
               let fc = fc \<lparr> fc_missingSince :=
                     (\<lambda>address. if address \<in> set sampledAddresses then fc_missingSince fc address else None) \<rparr>;
                   fc = Resume fc now
               in (case foldl (sample_step (fc_nodeDeadTimeout fc) now) (fc_missingSince fc, []) samples of
                     (missingSince, observed) \<Rightarrow> (fc \<lparr> fc_missingSince := missingSince \<rparr>, Inr observed)))"

section \<open>Runs of the classifier\<close>

datatype fc_op =
  OpObserve TopologySnapshot "MembershipRecord list" int
| OpSamples "MemberAbsenceSample list" int
| OpPause int
| OpResetMissing string
| OpReset

fun fc_apply :: "TopologyFailureClassifier \<Rightarrow> fc_op \<Rightarrow> TopologyFailureClassifier" where
  "fc_apply fc (OpObserve topology members now) = fst (Observe fc topology members now)"
| "fc_apply fc (OpSamples samples now) = fst (ObserveMissingSamples fc samples now)"
| "fc_apply fc (OpPause now) = Pause fc now"
| "fc_apply fc (OpResetMissing address) = ResetMissing fc address"
| "fc_apply fc OpReset = Reset fc"

definition fc_run :: "int \<Rightarrow> fc_op list \<Rightarrow> TopologyFailureClassifier" where
  "fc_run timeout ops = foldl fc_apply (TopologyFailureClassifier_make timeout) ops"

fun fc_confirms :: "TopologyFailureClassifier \<Rightarrow> fc_op \<Rightarrow> MemberAbsenceObservation list" where
  "fc_confirms fc (OpObserve topology members now) =
     (case snd (Observe fc topology members now) of Inl _ \<Rightarrow> [] | Inr cls \<Rightarrow> cl_confirmedMissing cls)"
| "fc_confirms fc (OpSamples samples now) =
     (case snd (ObserveMissingSamples fc samples now) of Inl _ \<Rightarrow> [] | Inr confirmed \<Rightarrow> confirmed)"
| "fc_confirms fc op = []"

definition unique_addresses :: "string list \<Rightarrow> bool" where
  "unique_addresses xs \<longleftrightarrow> distinct xs \<and> [] \<notin> set xs"

text \<open>
  An operation shows a member missing at a time when it is a well-formed read-back without the member's lease,
  or a well-formed sample list with the member. It is quiet about the member when it gives no sign of life and
  does not forget the timer.
\<close>

fun shows_missing :: "string \<Rightarrow> fc_op \<Rightarrow> int \<Rightarrow> bool" where
  "shows_missing a (OpObserve topology members now) t \<longleftrightarrow>
     unique_addresses (map mr_address members) \<and> a \<notin> mr_address ` set members \<and> t = now"
| "shows_missing a (OpSamples samples now) t \<longleftrightarrow>
     unique_addresses (map (mi_address \<circ> as_identity) samples) \<and> a \<in> (mi_address \<circ> as_identity) ` set samples \<and> t = now"
| "shows_missing a op t \<longleftrightarrow> False"

fun quiet :: "string \<Rightarrow> fc_op \<Rightarrow> bool" where
  "quiet a (OpObserve topology members now) \<longleftrightarrow>
     \<not> unique_addresses (map mr_address members) \<or> a \<notin> mr_address ` set members"
| "quiet a (OpSamples samples now) \<longleftrightarrow>
     \<not> unique_addresses (map (mi_address \<circ> as_identity) samples) \<or> a \<in> (mi_address \<circ> as_identity) ` set samples"
| "quiet a (OpPause now) \<longleftrightarrow> True"
| "quiet a (OpResetMissing b) \<longleftrightarrow> b \<noteq> a"
| "quiet a OpReset \<longleftrightarrow> False"

text \<open>
  The time the membership table could not be read: from the first failed read to the next read-back.
\<close>

fun pause_step :: "int option \<Rightarrow> fc_op \<Rightarrow> int option" where
  "pause_step p (OpObserve topology members now) = None"
| "pause_step p (OpSamples samples now) =
     (if unique_addresses (map (mi_address \<circ> as_identity) samples) then None else p)"
| "pause_step p (OpPause now) = (case p of None \<Rightarrow> Some now | Some q \<Rightarrow> Some q)"
| "pause_step p (OpResetMissing a) = p"
| "pause_step p OpReset = None"

fun pause_cost :: "int option \<Rightarrow> fc_op \<Rightarrow> int" where
  "pause_cost p (OpObserve topology members now) = (case p of None \<Rightarrow> 0 | Some q \<Rightarrow> now - q)"
| "pause_cost p (OpSamples samples now) =
     (if unique_addresses (map (mi_address \<circ> as_identity) samples)
      then (case p of None \<Rightarrow> 0 | Some q \<Rightarrow> now - q) else 0)"
| "pause_cost p op = 0"

fun paused_total :: "int option \<Rightarrow> fc_op list \<Rightarrow> int" where
  "paused_total p [] = 0"
| "paused_total p (op # ops) = pause_cost p op + paused_total (pause_step p op) ops"

definition created_by :: "re2 \<Rightarrow> TopologySnapshot \<Rightarrow> bool" where
  "created_by re topology \<longleftrightarrow> (\<exists>st rv dig. Create re st rv dig = Inr topology)"

fun op_ok :: "re2 \<Rightarrow> fc_op \<Rightarrow> bool" where
  "op_ok re (OpObserve topology members now) \<longleftrightarrow> created_by re topology"
| "op_ok re op \<longleftrightarrow> True"

lemma insert_addresses_eq:
  "insert_addresses xs seen =
     (if distinct xs \<and> [] \<notin> set xs \<and> set xs \<inter> set seen = {} then Inr (rev xs @ seen) else Inl K_INVALID)"
  by (induction xs arbitrary: seen) auto

lemma insert_unique:
  "insert_addresses xs [] = (if unique_addresses xs then Inr (rev xs) else Inl K_INVALID)"
  by (simp add: insert_addresses_eq unique_addresses_def)

lemma paused_total_append:
  "paused_total p (xs @ ys) = paused_total p xs + paused_total (foldl pause_step p xs) ys"
  by (induction xs arbitrary: p) auto

lemma timeout_const [simp]:
  "fc_nodeDeadTimeout (Resume fc now) = fc_nodeDeadTimeout fc"
  "fc_nodeDeadTimeout (fc_apply fc op) = fc_nodeDeadTimeout fc"
  by (cases op; auto simp: Resume_def Pause_def ResetMissing_def Reset_def Observe_def ObserveMissingSamples_def Let_def
      split: option.splits sum.splits prod.splits)+

lemma Resume_missing:
  "fc_missingSince (Resume fc now) a =
     map_option (\<lambda>t. t + (case fc_pausedAt fc of None \<Rightarrow> 0 | Some q \<Rightarrow> now - q)) (fc_missingSince fc a)"
  "fc_pausedAt (Resume fc now) = None"
  by (auto simp: Resume_def option.map_ident split: option.splits)

lemma observe_fold:
  assumes "foldl (observe_member tmo present now) (ms0, cls0, rf0) members = (ms', cls', rf')"
  shows "(ms' a = Some t \<longrightarrow>
      (ms0 a = Some t \<or> t = now \<and> a \<notin> set present) \<and> (a \<in> m_address ` set members \<longrightarrow> a \<notin> set present)) \<and>
    (x \<in> set (cl_confirmedMissing cls') \<longrightarrow> x \<in> set (cl_confirmedMissing cls0) \<or>
      (\<exists>since. timed_out tmo since now \<and> mi_address (ao_identity x) \<notin> set present \<and>
        (ms0 (mi_address (ao_identity x)) = Some since \<or> since = now)))"
  using assms
proof (induction members arbitrary: a t ms' cls' rf' rule: rev_induct)
  case (snoc m members)
  obtain ms cls rf where acc: "foldl (observe_member tmo present now) (ms0, cls0, rf0) members = (ms, cls, rf)"
    by (metis prod_cases3)
  from snoc.prems have step: "observe_member tmo present now (ms, cls, rf) m = (ms', cls', rf')" by (simp add: acc)
  note IH = snoc.IH [OF acc]
  have first: "(ms0 a = Some t \<or> t = now \<and> a \<notin> set present) \<and> (a \<in> m_address ` set (members @ [m]) \<longrightarrow> a \<notin> set present)"
    if "ms' a = Some t"
    using step that IH [of a t]
    by (auto simp: observe_member_def Let_def split: if_splits option.splits)
  have second: "x \<in> set (cl_confirmedMissing cls0) \<or> (\<exists>since. timed_out tmo since now \<and>
      mi_address (ao_identity x) \<notin> set present \<and> (ms0 (mi_address (ao_identity x)) = Some since \<or> since = now))"
    if "x \<in> set (cl_confirmedMissing cls')"
  proof (cases "x \<in> set (cl_confirmedMissing cls)")
    case True
    then show ?thesis using IH by blast
  next
    case False
    with step that have "mi_address (ao_identity x) = m_address m" "m_address m \<notin> set present"
      and since: "(ms (m_address m) = None \<and> timed_out tmo now now) \<or>
        (\<exists>since. ms (m_address m) = Some since \<and> timed_out tmo since now)"
      by (auto simp: observe_member_def Let_def split: if_splits option.splits)
    then show ?thesis using IH [of "m_address m"] by fastforce
  qed
  show ?case using first second by blast
qed simp

lemma sample_fold:
  assumes "foldl (sample_step tmo now) (ms0, xs0) samples = (ms', xs')"
  shows "(ms' a = Some t \<longrightarrow> ms0 a = Some t \<or> t = now \<and> a \<in> (mi_address \<circ> as_identity) ` set samples) \<and>
    (x \<in> set xs' \<longrightarrow> x \<in> set xs0 \<or>
      (\<exists>since. timed_out tmo since now \<and> mi_address (ao_identity x) \<in> (mi_address \<circ> as_identity) ` set samples \<and>
        (ms0 (mi_address (ao_identity x)) = Some since \<or> since = now)))"
  using assms
proof (induction samples arbitrary: a t ms' xs' rule: rev_induct)
  case (snoc m samples)
  obtain ms xs where acc: "foldl (sample_step tmo now) (ms0, xs0) samples = (ms, xs)" by force
  from snoc.prems have step: "sample_step tmo now (ms, xs) m = (ms', xs')" by (simp add: acc)
  note IH = snoc.IH [OF acc]
  let ?a = "mi_address (as_identity m)"
  have first: "ms0 a = Some t \<or> t = now \<and> a \<in> (mi_address \<circ> as_identity) ` set (samples @ [m])" if "ms' a = Some t"
    using step that IH [of a t] by (auto simp: sample_step_def Let_def split: if_splits option.splits)
  have second: "x \<in> set xs0 \<or> (\<exists>since. timed_out tmo since now \<and>
      mi_address (ao_identity x) \<in> (mi_address \<circ> as_identity) ` set (samples @ [m]) \<and>
      (ms0 (mi_address (ao_identity x)) = Some since \<or> since = now))" if "x \<in> set xs'"
  proof (cases "x \<in> set xs")
    case True
    then show ?thesis using IH by fastforce
  next
    case False
    with step that have "mi_address (ao_identity x) = ?a"
      and since: "(ms ?a = None \<and> timed_out tmo now now) \<or> (\<exists>since. ms ?a = Some since \<and> timed_out tmo since now)"
      by (auto simp: sample_step_def Let_def split: if_splits option.splits)
    then show ?thesis using IH [of ?a] by fastforce
  qed
  show ?case using first second by blast
qed simp

lemma created_present:
  assumes "created_by re topology" "FindMemberByAddress topology a = Inr m"
  shows "a \<in> m_address ` set (ts_members (sn_state topology))"
proof -
  obtain st rv dig where "Create re st rv dig = Inr topology" using assms(1) by (auto simp: created_by_def)
  then obtain "topology = snapshot_of (canonical st) rv dig" "valid_topology re (canonical st)" "sn_state topology = canonical st"
    by (rule created_snapshot)
  then show ?thesis
    using assms(2) FindMemberByAddress_iff(1) [of "canonical st" rv dig a m] by (auto simp: valid_topology_def)
qed

lemma Observe_steps:
  assumes "0 \<le> fc_nodeDeadTimeout fc" "unique_addresses (map mr_address members)"
  obtains ms cls rf where
    "foldl (observe_member (fc_nodeDeadTimeout fc) (rev (map mr_address members)) now)
       (fc_missingSince (Resume fc now), empty_classification, []) (ts_members (sn_state topology)) = (ms, cls, rf)"
    "Observe fc topology members now =
       ((Resume fc now) \<lparr> fc_missingSince := drop_unknown topology ms \<rparr>, Inr (merge_retained cls rf))"
proof -
  obtain ms cls rf where "foldl (observe_member (fc_nodeDeadTimeout fc) (rev (map mr_address members)) now)
       (fc_missingSince (Resume fc now), empty_classification, []) (ts_members (sn_state topology)) = (ms, cls, rf)"
    by (metis prod_cases3)
  with that assms show ?thesis by (simp add: Observe_def insert_unique Let_def del: rev_map)
qed

lemma Samples_steps:
  assumes "0 \<le> fc_nodeDeadTimeout fc" "unique_addresses (map (mi_address \<circ> as_identity) samples)"
  obtains ms xs where
    "foldl (sample_step (fc_nodeDeadTimeout fc) now)
       (fc_missingSince (Resume (fc \<lparr> fc_missingSince := (\<lambda>a. if a \<in> (mi_address \<circ> as_identity) ` set samples
          then fc_missingSince fc a else None) \<rparr>) now), []) samples = (ms, xs)"
    "fc_missingSince (fst (ObserveMissingSamples fc samples now)) = ms"
    "fc_pausedAt (fst (ObserveMissingSamples fc samples now)) = None"
    "snd (ObserveMissingSamples fc samples now) = Inr xs"
proof -
  obtain ms xs where "foldl (sample_step (fc_nodeDeadTimeout fc) now)
       (fc_missingSince (Resume (fc \<lparr> fc_missingSince := (\<lambda>a. if a \<in> (mi_address \<circ> as_identity) ` set samples
          then fc_missingSince fc a else None) \<rparr>) now), []) samples = (ms, xs)" by force
  with that assms show ?thesis
    by (simp add: ObserveMissingSamples_def insert_unique Let_def Resume_missing del: rev_map comp_apply)
qed

lemma paused_step:
  "0 \<le> fc_nodeDeadTimeout fc \<Longrightarrow> fc_pausedAt (fc_apply fc op) = pause_step (fc_pausedAt fc) op"
  by (cases op; auto simp: Pause_def ResetMissing_def Reset_def Observe_def ObserveMissingSamples_def Let_def insert_unique
      Resume_missing split: option.splits sum.splits prod.splits)

lemma missing_step:
  assumes "0 \<le> fc_nodeDeadTimeout fc" "op_ok re op" "fc_missingSince (fc_apply fc op) a = Some t'"
  shows "shows_missing a op t' \<or>
    quiet a op \<and> (\<exists>t. fc_missingSince fc a = Some t \<and> t' = t + pause_cost (fc_pausedAt fc) op)"
proof (cases op)
  case (OpObserve topology members now)
  show ?thesis
  proof (cases "unique_addresses (map mr_address members)")
    case True
    obtain ms cls rf where f: "foldl (observe_member (fc_nodeDeadTimeout fc) (rev (map mr_address members)) now)
       (fc_missingSince (Resume fc now), empty_classification, []) (ts_members (sn_state topology)) = (ms, cls, rf)"
      and o: "Observe fc topology members now =
       ((Resume fc now) \<lparr> fc_missingSince := drop_unknown topology ms \<rparr>, Inr (merge_retained cls rf))"
      by (rule Observe_steps [OF assms(1) True])
    have d: "drop_unknown topology ms a = Some t'" using assms(3) o OpObserve by simp
    then have ms: "ms a = Some t'" and "\<exists>m. FindMemberByAddress topology a = Inr m"
      by (auto simp: drop_unknown_def split: sum.splits)
    then have "a \<in> m_address ` set (ts_members (sn_state topology))"
      using created_present assms(2) OpObserve by auto
    with observe_fold [OF f, of a t'] ms
    have "a \<notin> mr_address ` set members" "fc_missingSince (Resume fc now) a = Some t' \<or> t' = now" by auto
    then show ?thesis using True OpObserve by (auto simp: Resume_missing)
  next
    case False
    then have "fc_missingSince (Resume fc now) a = Some t'"
      using assms(1,3) OpObserve by (simp add: Observe_def insert_unique Let_def)
    then show ?thesis using False OpObserve by (auto simp: Resume_missing)
  qed
next
  case (OpSamples samples now)
  show ?thesis
  proof (cases "unique_addresses (map (mi_address \<circ> as_identity) samples)")
    case True
    let ?fc = "fc \<lparr> fc_missingSince := (\<lambda>a. if a \<in> (mi_address \<circ> as_identity) ` set samples
          then fc_missingSince fc a else None) \<rparr>"
    obtain ms xs where f: "foldl (sample_step (fc_nodeDeadTimeout fc) now) (fc_missingSince (Resume ?fc now), []) samples = (ms, xs)"
      and o: "fc_missingSince (fst (ObserveMissingSamples fc samples now)) = ms"
      by (rule Samples_steps [OF assms(1) True])
    have "fc_missingSince (Resume ?fc now) a = Some t' \<or> t' = now \<and> a \<in> (mi_address \<circ> as_identity) ` set samples"
      using sample_fold [OF f, of a t'] assms(3) o OpSamples by auto
    then show ?thesis using True OpSamples by (auto simp: Resume_missing split: if_splits)
  next
    case False
    then show ?thesis using assms(1,3) OpSamples by (simp add: ObserveMissingSamples_def insert_unique)
  qed
qed (use assms(3) in \<open>auto simp: Pause_def ResetMissing_def Reset_def split: if_splits\<close>)

definition window :: "fc_op list \<Rightarrow> string \<Rightarrow> int \<Rightarrow> bool" where
  "window ops a t \<longleftrightarrow> (\<exists>pre op0 post t0. ops = pre @ op0 # post \<and> shows_missing a op0 t0 \<and>
     list_all (quiet a) post \<and> t = t0 + paused_total None post)"

lemma window_start: "shows_missing a op t \<Longrightarrow> window (ops @ [op]) a t"
  unfolding window_def by (intro exI [of _ ops] exI [of _ op] exI [of _ "[]"] exI [of _ t]) simp

lemma shows_missing_resumes: "shows_missing a op t \<Longrightarrow> pause_step p op = None"
  by (cases op) auto

lemma window_quiet:
  assumes "window ops a t" "quiet a op"
  shows "window (ops @ [op]) a (t + pause_cost (foldl pause_step None ops) op)"
proof -
  from assms(1) obtain pre op0 post t0 where w: "ops = pre @ op0 # post" "shows_missing a op0 t0"
    "list_all (quiet a) post" "t = t0 + paused_total None post"
    by (auto simp: window_def)
  have "foldl pause_step None ops = foldl pause_step None post" by (simp add: w(1) shows_missing_resumes [OF w(2)])
  then have "t + pause_cost (foldl pause_step None ops) op = t0 + paused_total None (post @ [op])"
    by (simp add: w(4) paused_total_append)
  with w assms(2) show ?thesis
    unfolding window_def by (intro exI [of _ pre] exI [of _ op0] exI [of _ "post @ [op]"] exI [of _ t0]) simp
qed

lemma fc_run_inv:
  assumes "0 \<le> timeout" "list_all (op_ok re) ops"
  shows "fc_nodeDeadTimeout (fc_run timeout ops) = timeout \<and>
    fc_pausedAt (fc_run timeout ops) = foldl pause_step None ops \<and>
    (\<forall>a t. fc_missingSince (fc_run timeout ops) a = Some t \<longrightarrow> window ops a t)"
  using assms(2)
proof (induction ops rule: rev_induct)
  case Nil
  then show ?case by (simp add: fc_run_def TopologyFailureClassifier_make_def)
next
  case (snoc op ops)
  then have IH: "fc_nodeDeadTimeout (fc_run timeout ops) = timeout" "fc_pausedAt (fc_run timeout ops) = foldl pause_step None ops"
    "\<And>a t. fc_missingSince (fc_run timeout ops) a = Some t \<Longrightarrow> window ops a t" and ok: "op_ok re op"
    by auto
  have run: "fc_run timeout (ops @ [op]) = fc_apply (fc_run timeout ops) op" by (simp add: fc_run_def)
  have "window (ops @ [op]) a t'" if "fc_missingSince (fc_run timeout (ops @ [op])) a = Some t'" for a t'
    using missing_step [of "fc_run timeout ops" re op a t'] assms(1) IH ok that run
    by (auto intro: window_start window_quiet)
  then show ?case using IH assms(1) by (simp add: run paused_step)
qed

lemma confirms_step:
  assumes "0 \<le> fc_nodeDeadTimeout fc" "op_ok re op" "x \<in> set (fc_confirms fc op)"
  shows "\<exists>t now. timed_out (fc_nodeDeadTimeout fc) t now \<and> shows_missing (mi_address (ao_identity x)) op now \<and>
    (t = now \<or> (\<exists>t0. fc_missingSince fc (mi_address (ao_identity x)) = Some t0 \<and> t = t0 + pause_cost (fc_pausedAt fc) op))"
proof (cases op)
  case (OpObserve topology members now)
  have u: "unique_addresses (map mr_address members)"
    using assms(1,3) OpObserve by (auto simp: Observe_def insert_unique Let_def split: if_splits)
  obtain ms cls rf where f: "foldl (observe_member (fc_nodeDeadTimeout fc) (rev (map mr_address members)) now)
       (fc_missingSince (Resume fc now), empty_classification, []) (ts_members (sn_state topology)) = (ms, cls, rf)"
    and o: "Observe fc topology members now =
       ((Resume fc now) \<lparr> fc_missingSince := drop_unknown topology ms \<rparr>, Inr (merge_retained cls rf))"
    by (rule Observe_steps [OF assms(1) u])
  have "x \<in> set (cl_confirmedMissing cls)"
    using assms(3) o OpObserve by (auto simp: merge_retained_def split: if_splits)
  with observe_fold [OF f, where x = x, THEN conjunct2] obtain since where "timed_out (fc_nodeDeadTimeout fc) since now"
    "mi_address (ao_identity x) \<notin> mr_address ` set members"
    "fc_missingSince (Resume fc now) (mi_address (ao_identity x)) = Some since \<or> since = now"
    by (auto simp: empty_classification_def)
  then show ?thesis using u OpObserve by (auto simp: Resume_missing)
next
  case (OpSamples samples now)
  have u: "unique_addresses (map (mi_address \<circ> as_identity) samples)"
    using assms(1,3) OpSamples by (auto simp: ObserveMissingSamples_def insert_unique split: if_splits)
  let ?fc = "fc \<lparr> fc_missingSince := (\<lambda>a. if a \<in> (mi_address \<circ> as_identity) ` set samples
        then fc_missingSince fc a else None) \<rparr>"
  obtain ms xs where f: "foldl (sample_step (fc_nodeDeadTimeout fc) now) (fc_missingSince (Resume ?fc now), []) samples = (ms, xs)"
    and o: "snd (ObserveMissingSamples fc samples now) = Inr xs"
    by (rule Samples_steps [OF assms(1) u])
  have "x \<in> set xs" using assms(3) o OpSamples by simp
  with sample_fold [OF f, where x = x, THEN conjunct2] obtain since where "timed_out (fc_nodeDeadTimeout fc) since now"
    "mi_address (ao_identity x) \<in> (mi_address \<circ> as_identity) ` set samples"
    "fc_missingSince (Resume ?fc now) (mi_address (ao_identity x)) = Some since \<or> since = now"
    by auto
  then show ?thesis using u OpSamples by (auto simp: Resume_missing split: if_splits)
qed (use assms(3) in auto)

text \<open>
  C35. No premature failure: whatever sequence of observations, sample rounds, pauses and resets the classifier
  sees, a member is reported as confirmed missing only if an earlier observation showed it missing, nothing since
  gave a sign of life, and the time since then, not counting the periods in which the membership table was
  unreadable, is at least the timeout.
\<close>

theorem failure_never_premature:
  assumes "0 \<le> timeout" "list_all (op_ok re) (ops @ [op])"
    "x \<in> set (fc_confirms (fc_run timeout ops) op)" "a = mi_address (ao_identity x)"
  shows "\<exists>pre op0 post t0 now. ops @ [op] = pre @ op0 # post \<and> shows_missing a op0 t0 \<and> list_all (quiet a) post \<and>
    shows_missing a op now \<and> now - t0 - paused_total None post \<ge> timeout * 1000000000"
proof -
  have ops: "list_all (op_ok re) ops" "op_ok re op" using assms(2) by simp_all
  note inv = fc_run_inv [OF assms(1) ops(1)]
  from confirms_step [of "fc_run timeout ops" re op x] inv assms ops(2) obtain t now
    where t: "timed_out timeout t now" "shows_missing a op now"
      "t = now \<or> (\<exists>t0. fc_missingSince (fc_run timeout ops) a = Some t0 \<and> t = t0 + pause_cost (foldl pause_step None ops) op)"
    by auto
  have "quiet a op" using t(2) by (cases op) auto
  with t inv have "window (ops @ [op]) a t" by (auto intro: window_start window_quiet)
  then show ?thesis using t(1,2) unfolding window_def timed_out_def by (smt (verit))
qed

definition absent_run :: "TopologySnapshot \<Rightarrow> fc_op list" where
  "absent_run topology = [OpObserve topology [] 0, OpPause 1000000000, OpObserve topology [] 3000000000]"

theorem failure_never_premature_witness:
  "\<exists>topology x pre op0 post t0 now.
     x \<in> set (fc_confirms (fc_run 2 (absent_run topology)) (OpObserve topology [] 4000000000)) \<and>
     absent_run topology @ [OpObserve topology [] 4000000000] = pre @ op0 # post \<and>
     now - t0 - paused_total None post \<ge> 2 * 1000000000"
proof -
  define topology where "topology = snapshot_of (canonical sample_state) 5 (replicate 64 (CHR ''a''))"
  have c: "created_by re2_model topology" unfolding topology_def created_by_def using sample_created by blast
  let ?op = "OpObserve topology [] 4000000000"
  have "fc_confirms (fc_run 2 (absent_run topology)) ?op \<noteq> []" unfolding topology_def by code_simp
  then obtain x where x: "x \<in> set (fc_confirms (fc_run 2 (absent_run topology)) ?op)"
    using hd_in_set by blast
  have "list_all (op_ok re2_model) (absent_run topology @ [?op])" using c by (simp add: absent_run_def)
  from failure_never_premature [OF zero_le_numeral this x refl] x show ?thesis by blast
qed

end
