(* ===== verification/Store_Backend.thy ===== *)
theory Store_Backend
  imports Coordinator_Store
begin

text \<open>
  The coordination backend of a controller that runs inside the coordinator,
  \<^verbatim>\<open>coordinator/coordinator_store_backend.cpp\<close>: reads and compare-and-swap on the coordinator store.

  A compare-and-swap reads the key, calls a process function on its value and writes the answer back under a check
  of the version it read, up to \<^verbatim>\<open>MAX_CAS_ATTEMPTS\<close> times. Other threads work between the read and the write: the
  argument \<open>ifc\<close> is what they do to the store in each attempt. A process function is a lambda that also writes
  captured variables, which are the state \<open>'o\<close> it takes and returns; it answers the next value, if any, or an error
  status, and whether the loop may retry.
\<close>

section \<open>Keys and results\<close>

definition MAX_CAS_ATTEMPTS :: nat where "MAX_CAS_ATTEMPTS = 16"

record RangeSearchResult =
  rs_key :: string
  rs_value :: string
  rs_modRevision :: int
  rs_version :: int

type_synonym 'o ProcessFunction = "'o \<Rightarrow> string \<Rightarrow> 'o \<times> string option result \<times> bool"

definition BuildPhysicalKey :: "string \<Rightarrow> string \<Rightarrow> string" where
  "BuildPhysicalKey tableName key = tableName @ ''/'' @ key"

definition Backend_RemoveTablePrefix :: "string \<Rightarrow> string \<Rightarrow> string" where
  "Backend_RemoveTablePrefix physicalKey tableName = drop (length tableName + 1) physicalKey"

definition IsRetryableCasConflict :: "StatusCode \<Rightarrow> bool" where
  "IsRetryableCasConflict code \<longleftrightarrow> code = K_INVALID \<or> code = K_TRY_AGAIN \<or> code = K_NOT_FOUND"

definition BuildResult :: "KeyValueEntry \<Rightarrow> RangeSearchResult" where
  "BuildResult entry =
     \<lparr> rs_key = kve_key entry, rs_value = kve_value entry, rs_modRevision = kve_modRevision entry,
       rs_version = kve_version entry \<rparr>"

definition StringPlusOne :: "string \<Rightarrow> string" where
  "StringPlusOne val =
     (case dropWhile (\<lambda>c. \<not> of_char c < (0xff :: nat)) (rev val) of
        [] \<Rightarrow> []
      | c # front \<Rightarrow> rev front @ [char_of (of_char c + 1 :: nat)])"

definition GetStorePrefix :: "string \<Rightarrow> string result" where
  "GetStorePrefix tableName = (if tableName = [] then Inl K_INVALID else Inr tableName)"

section \<open>Operations\<close>

definition ReadExact :: "string \<Rightarrow> CoordinatorStore \<Rightarrow> KeyValueEntry result" where
  "ReadExact physicalKey s =
     (case CoordinatorStore_Range physicalKey [] [] s of
        Inl e \<Rightarrow> Inl e
      | Inr (entries, _) \<Rightarrow>
          if entries = [] then Inl K_NOT_FOUND
          else if length entries \<noteq> 1 then Inl K_KVSTORE_ERROR
          else Inr (hd entries))"

definition Backend_GetAll ::
  "string \<Rightarrow> (string \<times> string) list \<Rightarrow> CoordinatorStore \<Rightarrow> ((string \<times> string) list \<times> int) result" where
  "Backend_GetAll tableName outKeyValues s =
     (case GetStorePrefix tableName of
        Inl e \<Rightarrow> Inl e
      | Inr prefix \<Rightarrow>
          let rangeKey = prefix @ ''/''
          in (case CoordinatorStore_Range rangeKey (StringPlusOne rangeKey) [] s of
                Inl e \<Rightarrow> Inl e
              | Inr (entries, responseRevision) \<Rightarrow>
                  Inr (outKeyValues
                         @ map (\<lambda>entry. (Backend_RemoveTablePrefix (kve_key entry) prefix, kve_value entry)) entries,
                       responseRevision)))"

definition Backend_Get :: "string \<Rightarrow> string \<Rightarrow> CoordinatorStore \<Rightarrow> RangeSearchResult result" where
  "Backend_Get tableName key s =
     (case GetStorePrefix tableName of
        Inl e \<Rightarrow> Inl e
      | Inr prefix \<Rightarrow>
          (case ReadExact (BuildPhysicalKey prefix key) s of
             Inl e \<Rightarrow> Inl e
           | Inr entry \<Rightarrow> Inr (BuildResult entry)))"

text \<open>The entry an attempt starts from: the stored one, or the empty one of version 0.\<close>

definition absentEntry :: "string \<Rightarrow> KeyValueEntry" where
  "absentEntry physicalKey =
     \<lparr> kve_key = physicalKey, kve_value = [], kve_version = COORDINATOR_KEY_NOT_EXISTS_VERSION, kve_modRevision = 0 \<rparr>"

fun RunCas_loop ::
  "(nat \<Rightarrow> CoordinatorStore \<Rightarrow> CoordinatorStore) \<Rightarrow> int \<Rightarrow> string \<Rightarrow> 'o ProcessFunction \<Rightarrow> int \<Rightarrow> nat \<Rightarrow> StatusCode
     \<Rightarrow> 'o \<Rightarrow> CoordinatorStore \<Rightarrow> (CoordinatorStore \<times> 'o \<times> RangeSearchResult result) option" where
  "RunCas_loop ifc now physicalKey process expectedRevision 0 lastError x s = Some (s, x, Inl lastError)"
| "RunCas_loop ifc now physicalKey process expectedRevision (Suc n) lastError x s0 =
     (let s = ifc (Suc (2 * n)) s0;
          readStatus = ReadExact physicalKey s;
          current = (case readStatus of Inl _ \<Rightarrow> absentEntry physicalKey | Inr entry \<Rightarrow> entry)
      in if \<not> isl readStatus \<or> readStatus = Inl K_NOT_FOUND
         then case process x (kve_value current) of
                (x', Inl processStatus, retry) \<Rightarrow>
                  if \<not> retry then Some (s, x', Inl processStatus)
                  else RunCas_loop ifc now physicalKey process expectedRevision n processStatus x' s
              | (x', Inr None, retry) \<Rightarrow> Some (s, x', Inr (BuildResult current))
              | (x', Inr (Some next), retry) \<Rightarrow>
                  let s1 = ifc (2 * n) s
                  in (case CoordinatorStore_Put now physicalKey next 0 (kve_version current)
                             COORDINATOR_NO_MOD_REVISION_CHECK expectedRevision s1 of
                        None \<Rightarrow> None
                      | Some (Inr (s2, version, revision)) \<Rightarrow>
                          Some (s2, x', Inr \<lparr> rs_key = physicalKey, rs_value = next, rs_modRevision = revision,
                                             rs_version = version \<rparr>)
                      | Some (Inl putStatus) \<Rightarrow>
                          if expectedRevision \<noteq> COORDINATOR_NO_GLOBAL_REVISION_CHECK \<and> putStatus = K_TRY_AGAIN
                          then Some (s1, x', Inl putStatus)
                          else if \<not> IsRetryableCasConflict putStatus then Some (s1, x', Inl putStatus)
                          else RunCas_loop ifc now physicalKey process expectedRevision n putStatus x' s1)
         else Some (s, x, Inl (projl readStatus)))"

definition RunCas ::
  "(nat \<Rightarrow> CoordinatorStore \<Rightarrow> CoordinatorStore) \<Rightarrow> int \<Rightarrow> string \<Rightarrow> 'o ProcessFunction \<Rightarrow> int
     \<Rightarrow> 'o \<Rightarrow> CoordinatorStore \<Rightarrow> (CoordinatorStore \<times> 'o \<times> RangeSearchResult result) option" where
  "RunCas ifc now physicalKey process expectedRevision x s =
     RunCas_loop ifc now physicalKey process expectedRevision MAX_CAS_ATTEMPTS K_TRY_AGAIN x s"

text \<open>The process function is \<open>None\<close> when the \<^verbatim>\<open>std::function\<close> is null.\<close>

definition Backend_CAS ::
  "(nat \<Rightarrow> CoordinatorStore \<Rightarrow> CoordinatorStore) \<Rightarrow> int \<Rightarrow> string \<Rightarrow> string \<Rightarrow> 'o ProcessFunction option
     \<Rightarrow> 'o \<Rightarrow> CoordinatorStore \<Rightarrow> (CoordinatorStore \<times> 'o \<times> RangeSearchResult result) option" where
  "Backend_CAS ifc now tableName key process x s =
     (case process of
        None \<Rightarrow> Some (s, x, Inl K_INVALID)
      | Some f \<Rightarrow>
          (case GetStorePrefix tableName of
             Inl e \<Rightarrow> Some (s, x, Inl e)
           | Inr prefix \<Rightarrow>
               RunCas ifc now (BuildPhysicalKey prefix key) f COORDINATOR_NO_GLOBAL_REVISION_CHECK x s))"

definition Backend_CASAtRevision ::
  "(nat \<Rightarrow> CoordinatorStore \<Rightarrow> CoordinatorStore) \<Rightarrow> int \<Rightarrow> string \<Rightarrow> string \<Rightarrow> 'o ProcessFunction option \<Rightarrow> int
     \<Rightarrow> 'o \<Rightarrow> CoordinatorStore \<Rightarrow> (CoordinatorStore \<times> 'o \<times> RangeSearchResult result) option" where
  "Backend_CASAtRevision ifc now tableName key process expectedRevision x s =
     (case process of
        None \<Rightarrow> Some (s, x, Inl K_INVALID)
      | Some f \<Rightarrow>
          if \<not> expectedRevision > 0 then Some (s, x, Inl K_INVALID)
          else case GetStorePrefix tableName of
                 Inl e \<Rightarrow> Some (s, x, Inl e)
               | Inr prefix \<Rightarrow> RunCas ifc now (BuildPhysicalKey prefix key) f expectedRevision x s)"

text \<open>The overload of \<^verbatim>\<open>CAS\<close> on an expected value; \<open>ifc\<close> is what happens between its read and its write.\<close>

definition Backend_CAS_value ::
  "(CoordinatorStore \<Rightarrow> CoordinatorStore) \<Rightarrow> int \<Rightarrow> string \<Rightarrow> string \<Rightarrow> string \<Rightarrow> string \<Rightarrow> CoordinatorStore
     \<Rightarrow> (CoordinatorStore \<times> unit result) option" where
  "Backend_CAS_value ifc now tableName key oldValue newValue s =
     (case GetStorePrefix tableName of
        Inl e \<Rightarrow> Some (s, Inl e)
      | Inr prefix \<Rightarrow>
          let physicalKey = BuildPhysicalKey prefix key;
              expectedVersion = (case ReadExact physicalKey s of
                 Inr current \<Rightarrow> if kve_value current = oldValue then Inr (kve_version current) else Inl K_TRY_AGAIN
               | Inl rc \<Rightarrow> if rc \<noteq> K_NOT_FOUND then Inl rc else Inr COORDINATOR_KEY_NOT_EXISTS_VERSION)
          in (case expectedVersion of
                Inl e \<Rightarrow> Some (s, Inl e)
              | Inr expected \<Rightarrow>
                  (case CoordinatorStore_Put now physicalKey newValue 0 expected COORDINATOR_NO_MOD_REVISION_CHECK
                          COORDINATOR_NO_GLOBAL_REVISION_CHECK (ifc s) of
                     None \<Rightarrow> None
                   | Some (Inl e) \<Rightarrow> Some (ifc s, Inl e)
                   | Some (Inr (s2, _, _)) \<Rightarrow> Some (s2, Inr ()))))"

definition Backend_Delete :: "string \<Rightarrow> string \<Rightarrow> CoordinatorStore \<Rightarrow> CoordinatorStore \<times> unit result" where
  "Backend_Delete tableName key s =
     (case GetStorePrefix tableName of
        Inl e \<Rightarrow> (s, Inl e)
      | Inr prefix \<Rightarrow>
          (case CoordinatorStore_DeleteRange (BuildPhysicalKey prefix key) [] COORDINATOR_NO_MOD_REVISION_CHECK s of
             Inl e \<Rightarrow> (s, Inl e)
           | Inr (s1, _, _) \<Rightarrow> (s1, Inr ())))"

section \<open>Compare-and-swap is atomic\<close>

text \<open>
  The specification: the process function is called on the value of the key in one state and its answer is written
  to that same state, with no version check.
\<close>

definition cas_atomic ::
  "int \<Rightarrow> string \<Rightarrow> 'o ProcessFunction \<Rightarrow> int \<Rightarrow> 'o \<Rightarrow> CoordinatorStore
     \<Rightarrow> (CoordinatorStore \<times> 'o \<times> RangeSearchResult result) option" where
  "cas_atomic now key process expectedRevision x s =
     (let current = (case map_of (kv_data (memKv s)) key of
                       None \<Rightarrow> absentEntry key | Some e \<Rightarrow> toKeyValueEntry (key, e))
      in case process x (kve_value current) of
           (x', Inl e, _) \<Rightarrow> Some (s, x', Inl e)
         | (x', Inr None, _) \<Rightarrow> Some (s, x', Inr (BuildResult current))
         | (x', Inr (Some next), _) \<Rightarrow>
             (case CoordinatorStore_Put now key next 0 COORDINATOR_NO_VERSION_CHECK
                     COORDINATOR_NO_MOD_REVISION_CHECK expectedRevision s of
                None \<Rightarrow> None
              | Some (Inl e) \<Rightarrow> Some (s, x', Inl e)
              | Some (Inr (s2, version, revision)) \<Rightarrow>
                  Some (s2, x', Inr \<lparr> rs_key = key, rs_value = next, rs_modRevision = revision,
                                     rs_version = version \<rparr>)))"

text \<open>An operation spares a key when it cannot delete it. Writing it is allowed.\<close>

fun spares :: "string \<Rightarrow> KvOp \<Rightarrow> bool" where
  "spares key (OpPut _ _ _ _ _ _) = True"
| "spares key (OpKeepAlive _ _) = True"
| "spares key (OpDelete k rangeEnd _) = (\<not> inScope k rangeEnd key)"
| "spares key (OpExpire k _ _) = (k \<noteq> key)"

text \<open>What other threads do: at most \<open>b\<close> operations of \<open>E\<close> at a time, on an initialised store.\<close>

definition interference :: "KvOp set \<Rightarrow> nat \<Rightarrow> (nat \<Rightarrow> CoordinatorStore \<Rightarrow> CoordinatorStore) \<Rightarrow> bool" where
  "interference E b ifc \<longleftrightarrow>
     (\<forall>i s. CheckInitialized s \<longrightarrow> CheckInitialized (ifc i s)
        \<and> (\<exists>ops. set ops \<subseteq> E \<and> length ops \<le> b \<and> memKv (ifc i s) = fst (kv_run (memKv s) ops)))"

definition reached :: "KvOp set \<Rightarrow> CoordinatorStore \<Rightarrow> CoordinatorStore \<Rightarrow> bool" where
  "reached E s s' \<longleftrightarrow> CheckInitialized s' \<and> (\<exists>ops. set ops \<subseteq> E \<and> memKv s' = fst (kv_run (memKv s) ops))"

lemma fold_om_del_other:
  "key \<notin> set ks \<Longrightarrow> map_of (fold om_del ks m) key = map_of m key"
  by (induction ks arbitrary: m) (simp_all add: store_simps)

lemma kv_step_spares:
  assumes inv: "kv_inv s" and r: "kv_revision s < i64_max" and k: "spares key op"
    and e: "map_of (kv_data s) key = Some e"
  shows "\<exists>e'. map_of (kv_data (fst (kv_step s op))) key = Some e'
    \<and> (ve_version e < ve_version e' \<or> ve_version e' = ve_version e \<and> ve_value e' = ve_value e)"
proof (cases op)
  case (OpPut k' v ttl ev em eg)
  have "ve_version e < ve_version (Put_stored (Some e) v ttl r')" for r'
    by (simp add: Put_stored_version [OF kv_invD(4) [OF inv e] r])
  with OpPut e show ?thesis
    by (auto simp: store_simps split: sum.splits elim!: Put_cases)
next
  case (OpKeepAlive k' em)
  with e show ?thesis
    by (auto simp: store_simps split: sum.splits elim!: KeepAlive_cases)
next
  case (OpDelete k' re em)
  with k have "key \<notin> set (map fst (selectRange k' re s))"
    using selectRange_set [OF inv, of k' re] by auto
  with OpDelete e show ?thesis
    by (auto simp: fold_om_del_other split: sum.splits elim!: Delete_cases)
next
  case (OpExpire k' rv gen)
  with k e show ?thesis
    by (cases rule: Expire_cases [of k' rv gen s]) (auto simp: store_simps)
qed

lemma kv_run_spares:
  assumes "kv_inv s" "kv_revision s + int (length ops) \<le> i64_max" "\<forall>op \<in> set ops. spares key op"
    and "map_of (kv_data s) key = Some e"
  shows "\<exists>e'. map_of (kv_data (fst (kv_run s ops))) key = Some e'
    \<and> (ve_version e < ve_version e' \<or> ve_version e' = ve_version e \<and> ve_value e' = ve_value e)"
  using assms
proof (induction ops arbitrary: s e)
  case (Cons op ops)
  from Cons.prems have lt: "kv_revision s < i64_max" by simp
  let ?s1 = "fst (kv_step s op)"
  obtain e1 where e1: "map_of (kv_data ?s1) key = Some e1"
    "ve_version e < ve_version e1 \<or> ve_version e1 = ve_version e \<and> ve_value e1 = ve_value e"
    using kv_step_spares [OF Cons.prems(1) lt _ Cons.prems(4), of op] Cons.prems(3) by auto
  have "\<exists>e'. map_of (kv_data (fst (kv_run ?s1 ops))) key = Some e'
    \<and> (ve_version e1 < ve_version e' \<or> ve_version e' = ve_version e1 \<and> ve_value e' = ve_value e1)"
    by (rule Cons.IH) (use Cons.prems e1 kv_step_revision [OF Cons.prems(1) lt, of op]
        kv_step_inv [OF Cons.prems(1) lt] in auto)
  with e1(2) show ?case by (force simp: split_beta)
qed auto

lemma kv_run_append: "fst (kv_run s (xs @ ys)) = fst (kv_run (fst (kv_run s xs)) ys)"
  by (induction xs arbitrary: s) (simp_all add: split_beta)

lemma reached_refl: "CheckInitialized s \<Longrightarrow> reached E s s"
  unfolding reached_def by (auto intro: exI [of _ "[]"])

lemma reached_trans: "reached E s s1 \<Longrightarrow> reached E s1 s2 \<Longrightarrow> reached E s s2"
  unfolding reached_def by (metis kv_run_append le_sup_iff set_append)

lemma interference_step:
  assumes "interference E b ifc" "CheckInitialized s" "kv_inv (memKv s)"
    and "kv_revision (memKv s) + int b \<le> i64_max"
  shows "reached E s (ifc i s)" "CheckInitialized (ifc i s)" "kv_inv (memKv (ifc i s))"
    "kv_revision (memKv (ifc i s)) \<le> kv_revision (memKv s) + int b"
proof -
  from assms(1,2) obtain ops where ops: "set ops \<subseteq> E" "length ops \<le> b" "memKv (ifc i s) = fst (kv_run (memKv s) ops)"
    and init: "CheckInitialized (ifc i s)"
    unfolding interference_def by blast
  from ops(2) assms(4) have le: "kv_revision (memKv s) + int (length ops) \<le> i64_max" by simp
  show "CheckInitialized (ifc i s)" by (rule init)
  show "reached E s (ifc i s)" unfolding reached_def using ops init by blast
  show "kv_inv (memKv (ifc i s))" using kv_run_inv [OF assms(3) le] ops(3) by simp
  show "kv_revision (memKv (ifc i s)) \<le> kv_revision (memKv s) + int b"
    using kv_run_revision [OF assms(3) le] ops(2,3) by simp
qed

lemma interference_spares:
  assumes "interference E b ifc" "CheckInitialized s" "kv_inv (memKv s)"
    and "kv_revision (memKv s) + int b \<le> i64_max" "\<forall>op \<in> E. spares key op"
    and "map_of (kv_data (memKv s)) key = Some e"
  shows "\<exists>e'. map_of (kv_data (memKv (ifc i s))) key = Some e'
    \<and> (ve_version e < ve_version e' \<or> ve_version e' = ve_version e \<and> ve_value e' = ve_value e)"
proof -
  from assms(1,2) obtain ops where ops: "set ops \<subseteq> E" "length ops \<le> b" "memKv (ifc i s) = fst (kv_run (memKv s) ops)"
    unfolding interference_def by blast
  show ?thesis unfolding ops(3)
    by (rule kv_run_spares) (use ops(1,2) assms(3-6) in auto)
qed

lemma ReadExact_eq:
  "CheckInitialized s \<Longrightarrow> ReadExact key s =
     (case map_of (kv_data (memKv s)) key of None \<Rightarrow> Inl K_NOT_FOUND | Some e \<Rightarrow> Inr (toKeyValueEntry (key, e)))"
  by (simp add: ReadExact_def CoordinatorStore_Range_def MemoryKvStore_Range_def selectRange_def split: option.splits)

lemma Put_fence_drop:
  assumes "MemoryKvStore_Put key val ttl v COORDINATOR_NO_MOD_REVISION_CHECK eg s = Inr res"
  shows "MemoryKvStore_Put key val ttl COORDINATOR_NO_VERSION_CHECK COORDINATOR_NO_MOD_REVISION_CHECK eg s = Inr res"
  using assms
  by (auto simp: MemoryKvStore_Put_def Put_fences_def coordinator_consts Let_def split: option.splits if_splits)

lemma CoordinatorStore_Put_cases:
  assumes "CheckInitialized s"
  obtains (fail) e where "CoordinatorStore_Put now key val 0 v COORDINATOR_NO_MOD_REVISION_CHECK eg s = Some (Inl e)"
  | (written) s2 ver rv where
      "CoordinatorStore_Put now key val 0 v COORDINATOR_NO_MOD_REVISION_CHECK eg s = Some (Inr (s2, ver, rv))"
      "CoordinatorStore_Put now key val 0 COORDINATOR_NO_VERSION_CHECK COORDINATOR_NO_MOD_REVISION_CHECK eg s
         = Some (Inr (s2, ver, rv))"
      "Put_fences (memKv s) (map_of (kv_data (memKv s)) key) v COORDINATOR_NO_MOD_REVISION_CHECK eg = None"
proof (cases "MemoryKvStore_Put key val 0 v COORDINATOR_NO_MOD_REVISION_CHECK eg (memKv s)")
  case (Inl e)
  with assms show thesis by (intro fail [of e]) (simp add: CoordinatorStore_Put_def)
next
  case (Inr res)
  obtain kv pr evs where res: "res = (kv, pr, evs)" by (cases res)
  have "Put_fences (memKv s) (map_of (kv_data (memKv s)) key) v COORDINATOR_NO_MOD_REVISION_CHECK eg = None"
    using Inr res by (auto elim: Put_cases)
  with assms Inr res Put_fence_drop [OF Inr] show thesis
    by (intro written) (simp_all add: CoordinatorStore_Put_def Let_def)
qed

text \<open>
  The value an attempt read is still the value of the key when its checked write succeeds: nobody else wrote the
  key, for that would have raised its version.
\<close>

abbreviation currentEntry :: "string \<Rightarrow> CoordinatorStore \<Rightarrow> KeyValueEntry" where
  "currentEntry key s \<equiv> (case map_of (kv_data (memKv s)) key of
     None \<Rightarrow> absentEntry key | Some e \<Rightarrow> toKeyValueEntry (key, e))"

lemma checked_write_current:
  assumes "interference E b ifc" "CheckInitialized s" "kv_inv (memKv s)"
    and "kv_revision (memKv s) + int b \<le> i64_max" "\<forall>op \<in> E. spares key op"
    and f: "Put_fences (memKv (ifc i s)) (map_of (kv_data (memKv (ifc i s))) key) (kve_version (currentEntry key s))
              COORDINATOR_NO_MOD_REVISION_CHECK eg = None"
  shows "kve_value (currentEntry key (ifc i s)) = kve_value (currentEntry key s)"
proof (cases "map_of (kv_data (memKv s)) key")
  case None
  with f have "map_of (kv_data (memKv (ifc i s))) key = None"
    by (auto simp: Put_fences_def absentEntry_def coordinator_consts split: if_splits)
  with None show ?thesis by simp
next
  case (Some e)
  obtain e' where e': "map_of (kv_data (memKv (ifc i s))) key = Some e'"
    "ve_version e < ve_version e' \<or> ve_version e' = ve_version e \<and> ve_value e' = ve_value e"
    using interference_spares [OF assms(1-5) Some] by blast
  have "1 \<le> ve_version e" using kv_invD(4) [OF assms(3) Some] by (simp add: entry_ok_def)
  with f e'(1) Some have "ve_version e' = ve_version e"
    by (auto simp: Put_fences_def toKeyValueEntry_def coordinator_consts split: if_splits)
  with e' Some show ?thesis by (simp add: toKeyValueEntry_def)
qed

definition cas_linearized ::
  "KvOp set \<Rightarrow> int \<Rightarrow> string \<Rightarrow> 'o ProcessFunction \<Rightarrow> int \<Rightarrow> CoordinatorStore
     \<Rightarrow> (CoordinatorStore \<times> 'o \<times> RangeSearchResult result) option \<Rightarrow> bool" where
  "cas_linearized E now key process eg s out \<longleftrightarrow>
     (\<exists>s' x' r. out = Some (s', x', r)
        \<and> (case r of
             Inl _ \<Rightarrow> reached E s s'
           | Inr _ \<Rightarrow> \<exists>\<sigma> x0. reached E s \<sigma> \<and> cas_atomic now key process eg x0 \<sigma> = Some (s', x', r)))"

lemma cas_linearized_error: "reached E s s' \<Longrightarrow> cas_linearized E now key process eg s (Some (s', x, Inl e))"
  by (simp add: cas_linearized_def)

lemma cas_linearized_done:
  "reached E s \<sigma> \<Longrightarrow> cas_atomic now key process eg x0 \<sigma> = Some (s', x, Inr r)
   \<Longrightarrow> cas_linearized E now key process eg s (Some (s', x, Inr r))"
  by (auto simp: cas_linearized_def)

lemma cas_linearized_later:
  assumes "reached E s s1" "cas_linearized E now key process eg s1 out"
  shows "cas_linearized E now key process eg s out"
  using assms(2) reached_trans [OF assms(1)] unfolding cas_linearized_def
  by (auto split: sum.splits) blast+

lemma RunCas_loop_linearized:
  assumes ifc: "interference E b ifc" and sp: "\<forall>op \<in> E. spares key op"
    and "CheckInitialized s" "kv_inv (memKv s)" "kv_revision (memKv s) + int (2 * n * b) \<le> i64_max"
  shows "cas_linearized E now key process eg s (RunCas_loop ifc now key process eg n lastError x s)"
  using assms(3-)
proof (induction n arbitrary: lastError x s)
  case 0
  then show ?case by (simp add: cas_linearized_error reached_refl)
next
  case (Suc n)
  let ?s = "ifc (Suc (2 * n)) s" and ?s1 = "ifc (2 * n) (ifc (Suc (2 * n)) s)"
  have bd: "kv_revision (memKv s) + 2 * int b + int (2 * n * b) \<le> i64_max" "0 \<le> int (2 * n * b)"
    using Suc.prems(3) by (simp_all add: algebra_simps)
  have b0: "kv_revision (memKv s) + int b \<le> i64_max" using bd by linarith
  note A = interference_step [OF ifc Suc.prems(1,2) b0, of "Suc (2 * n)"]
  have b1: "kv_revision (memKv ?s) + int b \<le> i64_max" using A(4) bd by linarith
  note B = interference_step [OF ifc A(2,3) b1, of "2 * n"]
  have r1: "reached E s ?s1" using A(1) B(1) by (rule reached_trans)
  have n0: "kv_revision (memKv ?s) + int (2 * n * b) \<le> i64_max" using A(4) bd by linarith
  have n1: "kv_revision (memKv ?s1) + int (2 * n * b) \<le> i64_max" using A(4) B(4) bd by linarith
  let ?cur = "currentEntry key ?s"
  have cur: "(case ReadExact key ?s of Inl _ \<Rightarrow> absentEntry key | Inr entry \<Rightarrow> entry) = ?cur"
    and ok: "\<not> isl (ReadExact key ?s) \<or> ReadExact key ?s = Inl K_NOT_FOUND"
    by (simp_all add: ReadExact_eq [OF A(2)] split: option.splits)
  obtain x' out retry where p: "process x (kve_value ?cur) = (x', out, retry)" by (cases "process x (kve_value ?cur)")
  note step = RunCas_loop.simps(2) Let_def cur if_P [OF ok] p
  consider (error) e where "out = Inl e" | (keep) "out = Inr None" | (put) v where "out = Inr (Some v)"
    by (metis option.exhaust sum.exhaust)
  then show ?case
  proof cases
    case error
    then show ?thesis
      unfolding step by (simp add: cas_linearized_error [OF A(1)] cas_linearized_later [OF A(1) Suc.IH [OF A(2,3) n0]])
  next
    case keep
    have "cas_atomic now key process eg x ?s = Some (?s, x', Inr (BuildResult ?cur))"
      using p keep by (simp add: cas_atomic_def Let_def)
    with keep show ?thesis unfolding step by (simp add: cas_linearized_done [OF A(1)])
  next
    case (put v)
    show ?thesis
    proof (cases rule: CoordinatorStore_Put_cases [OF B(2), of now key v "kve_version ?cur" eg, case_names fail written])
      case (fail e)
      have "cas_linearized E now key process eg s (RunCas_loop ifc now key process eg n e x' ?s1)"
        by (rule cas_linearized_later [OF r1 Suc.IH [OF B(2,3) n1]])
      with put fail show ?thesis
        unfolding step by (auto simp: cas_linearized_error [OF r1])
    next
      case (written s2 ver rv)
      have "kve_value (currentEntry key ?s1) = kve_value ?cur"
        by (rule checked_write_current [OF ifc A(2,3) b1 sp written(3)])
      with p put written(2) have "cas_atomic now key process eg x ?s1 =
          Some (s2, x', Inr \<lparr> rs_key = key, rs_value = v, rs_modRevision = rv, rs_version = ver \<rparr>)"
        by (simp add: cas_atomic_def Let_def)
      with put written(1) show ?thesis
        unfolding step by (simp add: cas_linearized_done [OF r1])
    qed
  qed
qed

text \<open>
  C5. Compare-and-swap is one atomic step. Whatever other threads do to the store before each read and between
  the read and the write of each attempt, as long as they do not delete the key, \<^verbatim>\<open>RunCas\<close> returns. When it succeeds, its
  result is that of reading the key, calling the process function and writing the answer with nothing in
  between, in some state that only the other threads brought about. When it fails, it has written nothing.
\<close>

theorem run_cas_atomic:
  assumes "interference E b ifc" "\<forall>op \<in> E. spares key op"
    and "CheckInitialized s" "kv_inv (memKv s)" "kv_revision (memKv s) + 32 * int b \<le> i64_max"
  shows "\<exists>s' x' r. RunCas ifc now key process expectedRevision x s = Some (s', x', r)
    \<and> (case r of
         Inl _ \<Rightarrow> reached E s s'
       | Inr _ \<Rightarrow> \<exists>\<sigma> x0. reached E s \<sigma> \<and> cas_atomic now key process expectedRevision x0 \<sigma> = Some (s', x', r))"
  using RunCas_loop_linearized [OF assms(1-4), of MAX_CAS_ATTEMPTS now process expectedRevision K_TRY_AGAIN x] assms(5)
  unfolding cas_linearized_def RunCas_def by (simp add: MAX_CAS_ATTEMPTS_def)

definition backend_ex :: CoordinatorStore where
  "backend_ex = CoordinatorStore_new (Some kv_ex1) (Some WatchRegistry_init) (Some (WatchDispatcher_init 4)) (Some TtlManager_init)"

text \<open>Another thread runs the operations \<open>ops i\<close> on the store at its \<open>i\<close>-th turn.\<close>

definition run_others :: "(nat \<Rightarrow> KvOp list) \<Rightarrow> nat \<Rightarrow> CoordinatorStore \<Rightarrow> CoordinatorStore" where
  "run_others ops i s = s\<lparr>co_memKvStore := map_option (\<lambda>kv. fst (kv_run kv (ops i))) (co_memKvStore s)\<rparr>"

lemma run_others_interference:
  assumes "\<And>i. set (ops i) \<subseteq> E" "\<And>i. length (ops i) \<le> b"
  shows "interference E b (run_others ops)"
  unfolding interference_def
proof (intro allI impI conjI)
  fix i s assume s: "CheckInitialized s"
  then show "CheckInitialized (run_others ops i s)" by (simp add: CheckInitialized_def run_others_def)
  from s have "memKv (run_others ops i s) = fst (kv_run (memKv s) (ops i))"
    by (auto simp: CheckInitialized_def run_others_def)
  with assms show "\<exists>l. set l \<subseteq> E \<and> length l \<le> b \<and> memKv (run_others ops i s) = fst (kv_run (memKv s) l)" by blast
qed

text \<open>A process function that appends to the value and remembers what it read.\<close>

definition append_process :: "string list ProcessFunction" where
  "append_process seen v = (seen @ [v], Inr (Some (v @ ''+'')), True)"

theorem run_cas_atomic_witness:
  "let ifc = run_others (\<lambda>i. if i = 30 then [OpPut ''a'' ''2'' 0 (- 1) 0 0] else [])
   in \<exists>s' x' r. RunCas ifc 0 ''a'' append_process 0 [] backend_ex = Some (s', x', r)
    \<and> (case r of
         Inl _ \<Rightarrow> reached {OpPut ''a'' ''2'' 0 (- 1) 0 0} backend_ex s'
       | Inr _ \<Rightarrow> \<exists>\<sigma> x0. reached {OpPut ''a'' ''2'' 0 (- 1) 0 0} backend_ex \<sigma>
                  \<and> cas_atomic 0 ''a'' append_process 0 x0 \<sigma> = Some (s', x', r))"
  unfolding Let_def
  by (rule run_cas_atomic [where b = 1], rule run_others_interference)
    (auto simp: backend_ex_def CoordinatorStore_new_def CheckInitialized_def MemoryKvStore_SetMutationCallback_def
      kv_ex1_def kv_inv_def om_ok_def entry_ok_def i64_max_def)

text \<open>
  Sparing the key is needed. The version of a key starts again at 1 when the key is deleted and created again, so a
  checked write can succeed on a value the process function never saw: here it reads \<open>1\<close>, the key is deleted and
  created again with \<open>2\<close>, and the first attempt still overwrites it with the answer to \<open>1\<close>.
\<close>

lemma cas_version_aba:
  "let ifc = run_others (\<lambda>i. if i = 30 then [OpDelete ''a'' [] 0, OpPut ''a'' ''2'' 0 0 0 0] else []);
       out = RunCas ifc 0 ''a'' append_process 0 [] backend_ex
   in map_option (\<lambda>e. ve_value e) (map_of (kv_data (memKv (ifc 30 backend_ex))) ''a'') = Some ''2''
    \<and> map_option (\<lambda>(s', seen, r). (seen, isl r, map_option ve_value (map_of (kv_data (memKv s')) ''a''))) out
        = Some ([''1''], False, Some ''1+'')"
  by code_simp

section \<open>Reading a table\<close>

lemma StringPlusOne_slash: "StringPlusOne (p @ ''/'') = p @ ''0''"
proof -
  have "char_of (48 :: nat) = CHR ''0''" by code_simp
  then show ?thesis by (simp add: StringPlusOne_def)
qed

text \<open>The range that \<^verbatim>\<open>GetAll\<close> reads holds the keys of the table and no other, whatever other tables are called.\<close>

lemma table_range: "p @ ''/'' \<le> k \<and> k < p @ ''0'' \<longleftrightarrow> (\<exists>t. k = p @ ''/'' @ t)"
proof (induction p arbitrary: k)
  case Nil
  have "c = CHR ''/''" if "CHR ''/'' < c" "c < CHR ''0''" for c
    using that by (simp add: less_char_def)
  then show ?case by (cases k) (auto simp: less_char_def)
next
  case (Cons c p)
  then show ?case by (cases k) auto
qed

lemma GetAll_exact:
  assumes "CheckInitialized s" "kv_inv (memKv s)" "tableName \<noteq> []"
    and "Backend_GetAll tableName [] s = Inr (kvs, rv)"
  shows "set kvs = {(k, v). \<exists>e. map_of (kv_data (memKv s)) (BuildPhysicalKey tableName k) = Some e \<and> ve_value e = v}"
    "rv = kv_revision (memKv s)"
proof -
  have kvs: "kvs = map (\<lambda>p. (drop (length tableName + 1) (fst p), ve_value (snd p)))
      (selectRange (tableName @ ''/'') (tableName @ ''0'') (memKv s))" and rv: "rv = kv_revision (memKv s)"
    using assms(1,3,4) by (auto simp: Backend_GetAll_def GetStorePrefix_def CoordinatorStore_Range_def
      MemoryKvStore_Range_def Backend_RemoveTablePrefix_def toKeyValueEntry_def StringPlusOne_slash Let_def)
  have "inScope (tableName @ ''/'') (tableName @ ''0'') k \<longleftrightarrow> (\<exists>t. k = tableName @ ''/'' @ t)" for k
    using table_range [of tableName k] by (simp add: inScope_def)
  then have set: "set kvs = (\<lambda>p. (drop (length tableName + 1) (fst p), ve_value (snd p))) `
      {(k, e). map_of (kv_data (memKv s)) k = Some e \<and> (\<exists>t. k = tableName @ ''/'' @ t)}"
    unfolding kvs by (simp add: selectRange_set [OF assms(2)])
  have "(k, v) \<in> set kvs \<longleftrightarrow>
      (\<exists>e. map_of (kv_data (memKv s)) (BuildPhysicalKey tableName k) = Some e \<and> ve_value e = v)" for k v
  proof
    assume "(k, v) \<in> set kvs"
    then show "\<exists>e. map_of (kv_data (memKv s)) (BuildPhysicalKey tableName k) = Some e \<and> ve_value e = v"
      unfolding set BuildPhysicalKey_def by auto
  next
    assume "\<exists>e. map_of (kv_data (memKv s)) (BuildPhysicalKey tableName k) = Some e \<and> ve_value e = v"
    then obtain e where e: "map_of (kv_data (memKv s)) (tableName @ ''/'' @ k) = Some e" "ve_value e = v"
      unfolding BuildPhysicalKey_def by blast
    show "(k, v) \<in> set kvs"
      unfolding set by (rule image_eqI [of _ _ "(tableName @ ''/'' @ k, e)"]) (use e in simp_all)
  qed
  then show "set kvs = {(k, v). \<exists>e. map_of (kv_data (memKv s)) (BuildPhysicalKey tableName k) = Some e \<and> ve_value e = v}"
    by (simp add: set_eq_iff)
  show "rv = kv_revision (memKv s)" by (rule rv)
qed

end
