(* ===== verification/Topology_Repository.thy ===== *)
theory Topology_Repository
  imports Store_Backend Topology_Keys Topology_Codec
begin

text \<open>
  The topology repository, \<^verbatim>\<open>cluster/repository/topology_repository.cpp\<close>: topologies, tasks and notifications as encoded
  values of the coordinator store, changed by compare-and-swap only.

  Every operation takes what other threads do, as in the theory of the backend: turns 0 to 31 of \<open>ifc\<close> belong to the
  attempts of the compare-and-swap and turn 32 lies between it and the next access of the operation. The captured
  variables of a process function are the state it passes on. \<open>replaces\<close> says that a write was applied to a state
  that stored exactly the expected version. The value of an operation is \<open>None\<close> only where the
  store operation has no value.
\<close>

section \<open>Data\<close>

definition TASK_DELETE_TOMBSTONE_PREFIX :: string where
  "TASK_DELETE_TOMBSTONE_PREFIX = ''cluster-task-delete-tombstone-v1-''"

definition NOTIFY_DELETE_TOMBSTONE_PREFIX :: string where
  "NOTIFY_DELETE_TOMBSTONE_PREFIX = ''cluster-notify-delete-tombstone-v1-''"

definition SCALE_IN_METADATA_DONE_DELETE_TOMBSTONE_PREFIX :: string where
  "SCALE_IN_METADATA_DONE_DELETE_TOMBSTONE_PREFIX = ''cluster-scalein-metadata-delete-tombstone-v1-''"

definition DELETE_TOMBSTONE_FIRST_SUFFIX :: string where "DELETE_TOMBSTONE_FIRST_SUFFIX = ''0''"
definition DELETE_TOMBSTONE_SECOND_SUFFIX :: string where "DELETE_TOMBSTONE_SECOND_SUFFIX = ''1''"

datatype TopologyCasOutcome = CAS_COMMITTED | CAS_CONFLICT | CAS_UNKNOWN

record TopologyCasResult =
  cr_outcome :: TopologyCasOutcome
  cr_observed :: "TopologyState option"

datatype TaskProgressOutcome = PROGRESS_UPDATED | PROGRESS_ALREADY_FINISHED | PROGRESS_STALE | PROGRESS_UNKNOWN

record TaskJanitorCandidate =
  tj_kind :: TopologyTaskKind
  tj_taskId :: string
  tj_matchToken :: string

record NotifyJanitorCandidate =
  nj_address :: string
  nj_notify :: TopologyTaskNotify
  nj_matchToken :: string
  nj_logicallyDeleted :: bool

definition empty_notify :: TopologyTaskNotify where
  "empty_notify = \<lparr>tn_activeBatch = None, tn_taskIds = [], tn_restartTimestampsByAddress = []\<rparr>"

record ScaleInMetadataDoneJanitorCandidate =
  sj_key :: string
  sj_matchToken :: string

record ScaleInMetadataDoneRecord =
  sd_batchEpoch :: "64 word"
  sd_sourceId :: string
  sd_taskId :: string
  sd_businessOperationId :: string

section \<open>Helpers\<close>

definition HasPrefix :: "string \<Rightarrow> string \<Rightarrow> bool" where
  "HasPrefix bytes prefix \<longleftrightarrow> take (length prefix) bytes = prefix"

definition NextDeleteTombstone :: "string \<Rightarrow> string \<Rightarrow> string" where
  "NextDeleteTombstone prefix current =
     (let first = prefix @ DELETE_TOMBSTONE_FIRST_SUFFIX
      in if current \<noteq> first then first else prefix @ DELETE_TOMBSTONE_SECOND_SUFFIX)"

definition IsTaskDeleteTombstone :: "string \<Rightarrow> bool" where
  "IsTaskDeleteTombstone bytes = HasPrefix bytes TASK_DELETE_TOMBSTONE_PREFIX"

definition IsNotifyDeleteTombstone :: "string \<Rightarrow> bool" where
  "IsNotifyDeleteTombstone bytes = HasPrefix bytes NOTIFY_DELETE_TOMBSTONE_PREFIX"

definition IsScaleInMetadataDoneDeleteTombstone :: "string \<Rightarrow> bool" where
  "IsScaleInMetadataDoneDeleteTombstone bytes = HasPrefix bytes SCALE_IN_METADATA_DONE_DELETE_TOMBSTONE_PREFIX"

definition EncodeTask :: "re2 \<Rightarrow> Wire \<Rightarrow> TopologyTask \<Rightarrow> string \<times> TopologyTaskKind \<times> string result" where
  "EncodeTask re wire task =
     (case task of
        MigrateTask migrate \<Rightarrow> (mt_taskId migrate, MIGRATE, EncodeMigrateTask re wire migrate)
      | DeleteTask remove \<Rightarrow> (dt_taskId remove, DELETE_MEMBER, EncodeDeleteTask re wire remove))"

definition CompatibleRangeProgress :: "TopologyTaskRange list \<Rightarrow> TopologyTaskRange list \<Rightarrow> bool" where
  "CompatibleRangeProgress observed expected \<longleftrightarrow>
     length observed = length expected \<and>
     list_all2 (\<lambda>first second. ttr_ownerAddress first = ttr_ownerAddress second \<and> ttr_range first = ttr_range second \<and>
       (\<not> ttr_finished second \<or> ttr_finished first)) observed expected"

definition ValidateCompatibleTask :: "re2 \<Rightarrow> Wire \<Rightarrow> TopologyTask \<Rightarrow> string \<Rightarrow> unit result" where
  "ValidateCompatibleTask re wire expected observedBytes =
     (case expected of
        MigrateTask val \<Rightarrow>
          (case DecodeMigrateTask re wire (mt_taskId val) (mt_type val) (mt_epoch val) observedBytes of
             Inl e \<Rightarrow> Inl e
           | Inr observed \<Rightarrow>
               if mt_executorAddress observed = mt_executorAddress val \<and> mt_targetAddress observed = mt_targetAddress val
                  \<and> CompatibleRangeProgress (mt_sourceRanges observed) (mt_sourceRanges val)
               then Inr () else Inl K_INVALID)
      | DeleteTask val \<Rightarrow>
          (case DecodeDeleteTask re wire (dt_taskId val) (dt_epoch val) observedBytes of
             Inl e \<Rightarrow> Inl e
           | Inr observed \<Rightarrow>
               if dt_executorAddress observed = dt_executorAddress val \<and> dt_failedAddress observed = dt_failedAddress val
                  \<and> CompatibleRangeProgress (dt_recoveryRanges observed) (dt_recoveryRanges val)
               then Inr () else Inl K_INVALID))"

definition ResolveCompatibleTaskWrite ::
  "re2 \<Rightarrow> Wire \<Rightarrow> string \<Rightarrow> string \<Rightarrow> TopologyTask \<Rightarrow> StatusCode \<Rightarrow> CoordinatorStore \<Rightarrow> unit result" where
  "ResolveCompatibleTaskWrite re wire table key expected writeStatus s =
     (case Backend_Get table key s of
        Inr observed \<Rightarrow>
          if IsTaskDeleteTombstone (rs_value observed) then Inl writeStatus
          else ValidateCompatibleTask re wire expected (rs_value observed)
      | Inl _ \<Rightarrow> Inl writeStatus)"

definition ResolveExactWrite ::
  "string \<Rightarrow> string \<Rightarrow> string \<Rightarrow> StatusCode \<Rightarrow> CoordinatorStore \<Rightarrow> unit result" where
  "ResolveExactWrite table key desiredBytes writeStatus s =
     (case Backend_Get table key s of
        Inr observed \<Rightarrow> if rs_value observed = desiredBytes then Inr () else Inl K_INVALID
      | Inl _ \<Rightarrow> Inl writeStatus)"

text \<open>The scope test of \<^verbatim>\<open>ApplyFenceToTask\<close> on the ranges of a task, and what it does to them.\<close>

definition fence_ranges ::
  "TopologyExecutionFence \<Rightarrow> TopologyTaskRange list \<Rightarrow> TopologyTaskRange list \<times> TaskProgressOutcome" where
  "fence_ranges fence taskRanges =
     (let allRanges = map ttr_range taskRanges;
          unfinished = map ttr_range (filter (\<lambda>r. \<not> ttr_finished r) taskRanges)
      in if unfinished = []
         then (taskRanges, if allRanges = ef_ranges fence then PROGRESS_ALREADY_FINISHED else PROGRESS_STALE)
         else if unfinished \<noteq> ef_ranges fence then (taskRanges, PROGRESS_STALE)
         else (map (\<lambda>r. r\<lparr>ttr_finished := True\<rparr>) taskRanges, PROGRESS_UPDATED))"

definition ApplyFenceToTask ::
  "TopologyTask \<Rightarrow> TopologyExecutionFence \<Rightarrow> (TopologyTask \<times> TaskProgressOutcome) result" where
  "ApplyFenceToTask task fence =
     (case task of
        MigrateTask migrate \<Rightarrow>
          if ef_taskKind fence \<noteq> MIGRATE then Inl K_INVALID
          else if mt_taskId migrate = ef_taskId fence \<and> mt_epoch migrate = ef_batchEpoch fence
                  \<and> mt_executorAddress migrate = mi_address (ef_executor fence) \<and> ef_ranges fence \<noteq> []
          then (case fence_ranges fence (mt_sourceRanges migrate) of
                  (ranges, outcome) \<Rightarrow> Inr (MigrateTask (migrate\<lparr>mt_sourceRanges := ranges\<rparr>), outcome))
          else Inl K_INVALID
      | DeleteTask remove \<Rightarrow>
          if ef_taskKind fence \<noteq> DELETE_MEMBER then Inl K_INVALID
          else if dt_taskId remove = ef_taskId fence \<and> dt_epoch remove = ef_batchEpoch fence
                  \<and> dt_executorAddress remove = mi_address (ef_executor fence) \<and> ef_ranges fence \<noteq> []
          then (case fence_ranges fence (dt_recoveryRanges remove) of
                  (ranges, outcome) \<Rightarrow> Inr (DeleteTask (remove\<lparr>dt_recoveryRanges := ranges\<rparr>), outcome))
          else Inl K_INVALID)"

section \<open>The topology\<close>

definition ReadTopology ::
  "re2 \<Rightarrow> Wire \<Rightarrow> TopologyKeyHelper \<Rightarrow> int \<Rightarrow> CoordinatorStore \<Rightarrow> (TopologyState \<times> int) result" where
  "ReadTopology re wire keys timeoutMs s =
     (if \<not> timeoutMs > 0 then Inl K_INVALID
      else case Backend_Get (kh_topologyTable keys) TopologyKey s of
             Inl e \<Rightarrow> Inl e
           | Inr res \<Rightarrow>
               (case DecodeTopology re wire (rs_value res) of
                  Inl e \<Rightarrow> Inl e
                | Inr decoded \<Rightarrow> Inr (decoded, rs_modRevision res)))"

text \<open>The process function of \<^verbatim>\<open>CompareAndSwapTopology\<close>; its state is the captured \<^verbatim>\<open>conflict\<close>.\<close>

definition topology_process :: "re2 \<Rightarrow> Wire \<Rightarrow> 64 word \<Rightarrow> string \<Rightarrow> bool ProcessFunction" where
  "topology_process re wire expectedVersion desiredBytes conflict current =
     (if current = [] \<and> expectedVersion = 0 then (conflict, Inr (Some desiredBytes), False)
      else case DecodeTopology re wire current of
             Inl _ \<Rightarrow> (True, Inr None, False)
           | Inr observed \<Rightarrow>
               if ts_version observed \<noteq> expectedVersion then (True, Inr None, False)
               else (conflict, Inr (Some desiredBytes), False))"

definition no_cas_result :: TopologyCasResult where
  "no_cas_result = \<lparr>cr_outcome = CAS_UNKNOWN, cr_observed = None\<rparr>"

definition cas_read_back ::
  "re2 \<Rightarrow> Wire \<Rightarrow> TopologyKeyHelper \<Rightarrow> TopologyState \<Rightarrow> string \<Rightarrow> StatusCode option \<Rightarrow> CoordinatorStore
     \<Rightarrow> TopologyCasResult \<times> unit result" where
  "cas_read_back re wire keys desired desiredBytes rc s =
     (case Backend_Get (kh_topologyTable keys) TopologyKey s of
        Inl readRc \<Rightarrow> (no_cas_result, Inl (case rc of Some e \<Rightarrow> e | None \<Rightarrow> readRc))
      | Inr readResult \<Rightarrow>
          (case DecodeTopology re wire (rs_value readResult) of
             Inl e \<Rightarrow> (no_cas_result, Inl e)
           | Inr observed \<Rightarrow>
               if rs_value readResult = desiredBytes
               then (\<lparr>cr_outcome = CAS_COMMITTED, cr_observed = Some observed\<rparr>, Inr ())
               else (\<lparr>cr_outcome = CAS_CONFLICT, cr_observed = Some observed\<rparr>,
                     if ts_version observed \<noteq> ts_version desired then Inr () else Inl K_INVALID)))"

definition CompareAndSwapTopology ::
  "re2 \<Rightarrow> Wire \<Rightarrow> TopologyKeyHelper \<Rightarrow> (nat \<Rightarrow> CoordinatorStore \<Rightarrow> CoordinatorStore) \<Rightarrow> int \<Rightarrow> 64 word \<Rightarrow> TopologyState
     \<Rightarrow> int \<Rightarrow> CoordinatorStore \<Rightarrow> (CoordinatorStore \<times> TopologyCasResult \<times> unit result) option" where
  "CompareAndSwapTopology re wire keys ifc now expectedVersion desired expectedAuthorityRevision s =
     (if ts_version desired \<noteq> expectedVersion + 1 then Some (s, no_cas_result, Inl K_INVALID)
      else case EncodeTopology re wire desired of
             Inl e \<Rightarrow> Some (s, no_cas_result, Inl e)
           | Inr desiredBytes \<Rightarrow>
               let process = Some (topology_process re wire expectedVersion desiredBytes)
               in (case (if expectedAuthorityRevision > 0
                         then Backend_CASAtRevision ifc now (kh_topologyTable keys) TopologyKey process
                                expectedAuthorityRevision False s
                         else Backend_CAS ifc now (kh_topologyTable keys) TopologyKey process False s) of
                     None \<Rightarrow> None
                   | Some (s1, conflict, rc) \<Rightarrow>
                       if \<not> isl rc \<and> \<not> conflict
                       then Some (s1, \<lparr>cr_outcome = CAS_COMMITTED, cr_observed = None\<rparr>, Inr ())
                       else let s2 = ifc 32 s1
                            in Some (s2, cas_read_back re wire keys desired desiredBytes
                                           (if isl rc then Some (projl rc) else None) s2)))"

section \<open>Tasks and notifications\<close>

definition TaskTable :: "TopologyKeyHelper \<Rightarrow> TopologyTaskKind \<Rightarrow> string" where
  "TaskTable keys kind = (if kind = MIGRATE then kh_migrateTaskTable keys else kh_deleteTaskTable keys)"

definition ReadTask ::
  "re2 \<Rightarrow> Wire \<Rightarrow> TopologyKeyHelper \<Rightarrow> TopologyTaskKind \<Rightarrow> string \<Rightarrow> TopologyChangeType \<Rightarrow> 64 word \<Rightarrow> CoordinatorStore
     \<Rightarrow> TopologyTask result" where
  "ReadTask re wire keys kind taskId type epoch s =
     (case TaskKey taskId of
        Inl e \<Rightarrow> Inl e
      | Inr key \<Rightarrow>
          (case Backend_Get (TaskTable keys kind) key s of
             Inl e \<Rightarrow> Inl e
           | Inr res \<Rightarrow>
               if IsTaskDeleteTombstone (rs_value res) then Inl K_NOT_FOUND
               else if kind = MIGRATE
               then (case DecodeMigrateTask re wire taskId type epoch (rs_value res) of
                       Inl e \<Rightarrow> Inl e | Inr decoded \<Rightarrow> Inr (MigrateTask decoded))
               else (case DecodeDeleteTask re wire taskId epoch (rs_value res) of
                       Inl e \<Rightarrow> Inl e | Inr decoded \<Rightarrow> Inr (DeleteTask decoded))))"

definition create_process :: "re2 \<Rightarrow> Wire \<Rightarrow> TopologyTask \<Rightarrow> string \<Rightarrow> unit ProcessFunction" where
  "create_process re wire task bytes x current =
     (if IsTaskDeleteTombstone current then (x, Inl K_TRY_AGAIN, False)
      else if current = [] then (x, Inr (Some bytes), False)
      else (x, case ValidateCompatibleTask re wire task current of Inl e \<Rightarrow> Inl e | Inr _ \<Rightarrow> Inr None, False))"

definition CreateTaskIfAbsent ::
  "re2 \<Rightarrow> Wire \<Rightarrow> TopologyKeyHelper \<Rightarrow> (nat \<Rightarrow> CoordinatorStore \<Rightarrow> CoordinatorStore) \<Rightarrow> int \<Rightarrow> TopologyTask \<Rightarrow> CoordinatorStore
     \<Rightarrow> (CoordinatorStore \<times> unit result) option" where
  "CreateTaskIfAbsent re wire keys ifc now task s =
     (case EncodeTask re wire task of
        (taskId, kind, Inl e) \<Rightarrow> Some (s, Inl e)
      | (taskId, kind, Inr bytes) \<Rightarrow>
          (case Backend_CAS ifc now (TaskTable keys kind) taskId (Some (create_process re wire task bytes)) () s of
             None \<Rightarrow> None
           | Some (s1, _, Inr _) \<Rightarrow> Some (s1, Inr ())
           | Some (s1, _, Inl rc) \<Rightarrow>
               let s2 = ifc 32 s1
               in Some (s2, ResolveCompatibleTaskWrite re wire (TaskTable keys kind) taskId task rc s2)))"

definition ReadNotify ::
  "re2 \<Rightarrow> Wire \<Rightarrow> TopologyKeyHelper \<Rightarrow> string \<Rightarrow> CoordinatorStore \<Rightarrow> TopologyTaskNotify result" where
  "ReadNotify re wire keys address s =
     (case NotifyKey re address of
        Inl e \<Rightarrow> Inl e
      | Inr key \<Rightarrow>
          (case Backend_Get (kh_notifyTable keys) key s of
             Inl e \<Rightarrow> Inl e
           | Inr res \<Rightarrow>
               if rs_value res \<noteq> [] \<and> \<not> IsNotifyDeleteTombstone (rs_value res)
               then DecodeNotify re wire (rs_value res) else Inl K_NOT_FOUND))"

definition rewrite_process :: "string \<Rightarrow> unit ProcessFunction" where
  "rewrite_process bytes x current =
     (if IsNotifyDeleteTombstone current then (x, Inl K_TRY_AGAIN, False)
      else (x, Inr (if current \<noteq> bytes then Some bytes else None), False))"

definition RewriteEncodedNotify ::
  "re2 \<Rightarrow> TopologyKeyHelper \<Rightarrow> (nat \<Rightarrow> CoordinatorStore \<Rightarrow> CoordinatorStore) \<Rightarrow> int \<Rightarrow> string \<Rightarrow> string \<Rightarrow> CoordinatorStore
     \<Rightarrow> (CoordinatorStore \<times> unit result) option" where
  "RewriteEncodedNotify re keys ifc now address bytes s =
     (case NotifyKey re address of
        Inl e \<Rightarrow> Some (s, Inl e)
      | Inr key \<Rightarrow>
          (case Backend_CAS ifc now (kh_notifyTable keys) key (Some (rewrite_process bytes)) () s of
             None \<Rightarrow> None
           | Some (s1, _, Inr _) \<Rightarrow> Some (s1, Inr ())
           | Some (s1, _, Inl rc) \<Rightarrow>
               if rc = K_TRY_AGAIN then Some (s1, Inl rc)
               else let s2 = ifc 32 s1 in Some (s2, ResolveExactWrite (kh_notifyTable keys) key bytes rc s2)))"

definition RewriteNotify ::
  "re2 \<Rightarrow> Wire \<Rightarrow> TopologyKeyHelper \<Rightarrow> (nat \<Rightarrow> CoordinatorStore \<Rightarrow> CoordinatorStore) \<Rightarrow> int \<Rightarrow> string \<Rightarrow> TopologyTaskNotify
     \<Rightarrow> CoordinatorStore \<Rightarrow> (CoordinatorStore \<times> unit result) option" where
  "RewriteNotify re wire keys ifc now address expected s =
     (case EncodeNotify re wire expected of
        Inl e \<Rightarrow> Some (s, Inl e)
      | Inr bytes \<Rightarrow> RewriteEncodedNotify re keys ifc now address bytes s)"

text \<open>The process function of \<^verbatim>\<open>MarkTaskScopeFinished\<close>; its state is the captured \<^verbatim>\<open>outcome\<close>.\<close>

definition decode_fenced :: "re2 \<Rightarrow> Wire \<Rightarrow> TopologyExecutionFence \<Rightarrow> string \<Rightarrow> TopologyTask result" where
  "decode_fenced re wire fence current =
     (if ef_taskKind fence = MIGRATE
      then (case DecodeMigrateTask re wire (ef_taskId fence) (ef_batchType fence) (ef_batchEpoch fence) current of
              Inl e \<Rightarrow> Inl e | Inr decoded \<Rightarrow> Inr (MigrateTask decoded))
      else (case DecodeDeleteTask re wire (ef_taskId fence) (ef_batchEpoch fence) current of
              Inl e \<Rightarrow> Inl e | Inr decoded \<Rightarrow> Inr (DeleteTask decoded)))"

definition finish_process :: "re2 \<Rightarrow> Wire \<Rightarrow> TopologyExecutionFence \<Rightarrow> TaskProgressOutcome ProcessFunction" where
  "finish_process re wire fence outcome current =
     (case decode_fenced re wire fence current of
        Inl e \<Rightarrow> (outcome, Inl e, False)
      | Inr task \<Rightarrow>
          (case ApplyFenceToTask task fence of
             Inl e \<Rightarrow> (outcome, Inl e, False)
           | Inr (task', outcome') \<Rightarrow>
               if outcome' = PROGRESS_UPDATED
               then (case EncodeTask re wire task' of
                       (_, _, Inl e) \<Rightarrow> (outcome', Inl e, False)
                     | (_, _, Inr bytes) \<Rightarrow> (outcome', Inr (Some bytes), False))
               else (outcome', Inr None, False)))"

definition MarkTaskScopeFinished ::
  "re2 \<Rightarrow> Wire \<Rightarrow> TopologyKeyHelper \<Rightarrow> (nat \<Rightarrow> CoordinatorStore \<Rightarrow> CoordinatorStore) \<Rightarrow> int \<Rightarrow> TopologyExecutionFence
     \<Rightarrow> CoordinatorStore \<Rightarrow> (CoordinatorStore \<times> TaskProgressOutcome \<times> unit result) option" where
  "MarkTaskScopeFinished re wire keys ifc now fence s =
     (case Backend_CAS ifc now (TaskTable keys (ef_taskKind fence)) (ef_taskId fence)
             (Some (finish_process re wire fence)) PROGRESS_UNKNOWN s of
        None \<Rightarrow> None
      | Some (s1, outcome, Inr _) \<Rightarrow> Some (s1, outcome, Inr ())
      | Some (s1, _, Inl rc) \<Rightarrow>
          let s2 = ifc 32 s1
          in Some (s2,
             case ReadTask re wire keys (ef_taskKind fence) (ef_taskId fence) (ef_batchType fence) (ef_batchEpoch fence) s2 of
               Inl _ \<Rightarrow> (PROGRESS_UNKNOWN, Inl rc)
             | Inr observed \<Rightarrow>
                 (case ApplyFenceToTask observed fence of
                    Inl e \<Rightarrow> (PROGRESS_UNKNOWN, Inl e)
                  | Inr (_, observedOutcome) \<Rightarrow>
                      if observedOutcome = PROGRESS_ALREADY_FINISHED then (observedOutcome, Inr ())
                      else (PROGRESS_UNKNOWN, Inl rc))))"

section \<open>Scale-in markers\<close>

definition marker_process :: "string \<Rightarrow> unit ProcessFunction" where
  "marker_process businessOperationId x current =
     (if current = [] then (x, Inr (Some businessOperationId), False)
      else if IsScaleInMetadataDoneDeleteTombstone current then (x, Inl K_TRY_AGAIN, False)
      else if current = businessOperationId then (x, Inr None, False)
      else (x, Inl K_INVALID, False))"

definition MarkScaleInMetadataDone ::
  "TopologyKeyHelper \<Rightarrow> (nat \<Rightarrow> CoordinatorStore \<Rightarrow> CoordinatorStore) \<Rightarrow> int \<Rightarrow> ScaleInMetadataDoneRecord \<Rightarrow> CoordinatorStore
     \<Rightarrow> (CoordinatorStore \<times> unit result) option" where
  "MarkScaleInMetadataDone keys ifc now marker s =
     (if sd_businessOperationId marker = [] then Some (s, Inl K_INVALID)
      else case ScaleInMetadataDoneKey (sd_batchEpoch marker) (sd_sourceId marker) (sd_taskId marker) of
             Inl e \<Rightarrow> Some (s, Inl e)
           | Inr key \<Rightarrow>
               (case Backend_CAS ifc now (kh_scaleInMetadataDoneTable keys) key
                       (Some (marker_process (sd_businessOperationId marker))) () s of
                  None \<Rightarrow> None
                | Some (s1, _, Inr _) \<Rightarrow> Some (s1, Inr ())
                | Some (s1, _, Inl rc) \<Rightarrow>
                    if rc = K_TRY_AGAIN then Some (s1, Inl rc)
                    else let s2 = ifc 32 s1
                         in Some (s2, ResolveExactWrite (kh_scaleInMetadataDoneTable keys) key
                                        (sd_businessOperationId marker) rc s2)))"

definition CountScaleInMetadataDone :: "TopologyKeyHelper \<Rightarrow> 64 word \<Rightarrow> string \<Rightarrow> CoordinatorStore \<Rightarrow> nat result" where
  "CountScaleInMetadataDone keys batchEpoch sourceId s =
     (case ScaleInMetadataDonePrefix batchEpoch sourceId of
        Inl e \<Rightarrow> Inl e
      | Inr prefix \<Rightarrow>
          (case Backend_GetAll (kh_scaleInMetadataDoneTable keys) [] s of
             Inl e \<Rightarrow> Inl e
           | Inr (values, _) \<Rightarrow>
               Inr (length (filter (\<lambda>p. HasPrefix (fst p) prefix \<and> snd p \<noteq> []
                                       \<and> \<not> IsScaleInMetadataDoneDeleteTombstone (snd p)) values))))"

section \<open>Janitor\<close>

fun rotating_loop ::
  "('k \<times> 'v) list \<Rightarrow> ('k \<times> 'v \<Rightarrow> 'a result) \<Rightarrow> nat \<Rightarrow> nat \<Rightarrow> 'k \<Rightarrow> 'a list \<Rightarrow> ('k \<times> 'a list) result" where
  "rotating_loop values visit 0 index nextCursor acc = Inr (nextCursor, acc)"
| "rotating_loop values visit (Suc n) index nextCursor acc =
     (let entry = values ! index
      in case visit entry of
           Inl e \<Rightarrow> Inl e
         | Inr x \<Rightarrow> rotating_loop values visit n ((index + 1) mod length values) (fst entry) (acc @ [x]))"

text \<open>One page: \<open>limit\<close> entries from the first key after the cursor, around the end of the table.\<close>

definition VisitRotatingPage ::
  "(string \<times> 'v) list \<Rightarrow> nat \<Rightarrow> string \<Rightarrow> (string \<times> 'v \<Rightarrow> 'a result) \<Rightarrow> (string \<times> 'a list) result" where
  "VisitRotatingPage values0 limit cursor visit =
     (let values = sort_key fst values0
      in if values = [] then Inr ([], [])
         else let before = length (takeWhile (\<lambda>p. \<not> cursor < fst p) values);
                  index = (if before = length values then 0 else before)
              in rotating_loop values visit (min limit (length values)) index cursor [])"

definition ListTaskCandidatesForJanitor ::
  "TopologyKeyHelper \<Rightarrow> TopologyTaskKind \<Rightarrow> nat \<Rightarrow> string \<Rightarrow> CoordinatorStore \<Rightarrow> (string \<times> TaskJanitorCandidate list) result" where
  "ListTaskCandidatesForJanitor keys kind limit cursor s =
     (if \<not> limit > 0 then Inl K_INVALID
      else case Backend_GetAll (TaskTable keys kind) [] s of
             Inl e \<Rightarrow> Inl e
           | Inr (values, _) \<Rightarrow>
               VisitRotatingPage values limit cursor
                 (\<lambda>(taskId, bytes). Inr \<lparr>tj_kind = kind, tj_taskId = taskId, tj_matchToken = bytes\<rparr>))"

text \<open>The state of the process function is the captured \<^verbatim>\<open>matched\<close>.\<close>

definition delete_process :: "string \<Rightarrow> string \<Rightarrow> bool ProcessFunction" where
  "delete_process matchToken tombstonePrefix matched current =
     (if current = matchToken then (True, Inr (Some (NextDeleteTombstone tombstonePrefix current)), False)
      else (False, Inr None, False))"

definition DeleteIfMatches ::
  "(nat \<Rightarrow> CoordinatorStore \<Rightarrow> CoordinatorStore) \<Rightarrow> int \<Rightarrow> string \<Rightarrow> string \<Rightarrow> string \<Rightarrow> string \<Rightarrow> CoordinatorStore
     \<Rightarrow> (CoordinatorStore \<times> bool \<times> unit result) option" where
  "DeleteIfMatches ifc now table key matchToken tombstonePrefix s =
     (case Backend_CAS ifc now table key (Some (delete_process matchToken tombstonePrefix)) False s of
        None \<Rightarrow> None
      | Some (s1, _, Inl e) \<Rightarrow> Some (s1, False, Inl e)
      | Some (s1, matched, Inr _) \<Rightarrow>
          if matched
          then (case Backend_Delete table key (ifc 32 s1) of
                  (s2, Inl e) \<Rightarrow> Some (s2, False, Inl e)
                | (s2, Inr _) \<Rightarrow> Some (s2, True, Inr ()))
          else Some (s1, False, Inr ()))"

definition DeleteTaskIfMatches ::
  "TopologyKeyHelper \<Rightarrow> (nat \<Rightarrow> CoordinatorStore \<Rightarrow> CoordinatorStore) \<Rightarrow> int \<Rightarrow> TaskJanitorCandidate \<Rightarrow> CoordinatorStore
     \<Rightarrow> (CoordinatorStore \<times> bool \<times> unit result) option" where
  "DeleteTaskIfMatches keys ifc now candidate s =
     DeleteIfMatches ifc now (TaskTable keys (tj_kind candidate)) (tj_taskId candidate) (tj_matchToken candidate)
       TASK_DELETE_TOMBSTONE_PREFIX s"

definition ListScaleInMetadataDoneCandidatesForJanitor ::
  "TopologyKeyHelper \<Rightarrow> nat \<Rightarrow> string \<Rightarrow> CoordinatorStore \<Rightarrow> (string \<times> ScaleInMetadataDoneJanitorCandidate list) result" where
  "ListScaleInMetadataDoneCandidatesForJanitor keys limit cursor s =
     (if \<not> limit > 0 then Inl K_INVALID
      else case Backend_GetAll (kh_scaleInMetadataDoneTable keys) [] s of
             Inl e \<Rightarrow> Inl e
           | Inr (values, _) \<Rightarrow>
               VisitRotatingPage values limit cursor (\<lambda>(key, bytes). Inr \<lparr>sj_key = key, sj_matchToken = bytes\<rparr>))"

definition DeleteScaleInMetadataDoneIfMatches ::
  "TopologyKeyHelper \<Rightarrow> (nat \<Rightarrow> CoordinatorStore \<Rightarrow> CoordinatorStore) \<Rightarrow> int \<Rightarrow> ScaleInMetadataDoneJanitorCandidate
     \<Rightarrow> CoordinatorStore \<Rightarrow> (CoordinatorStore \<times> bool \<times> unit result) option" where
  "DeleteScaleInMetadataDoneIfMatches keys ifc now candidate s =
     DeleteIfMatches ifc now (kh_scaleInMetadataDoneTable keys) (sj_key candidate) (sj_matchToken candidate)
       SCALE_IN_METADATA_DONE_DELETE_TOMBSTONE_PREFIX s"

definition reconcile_process :: "string \<Rightarrow> string \<Rightarrow> bool ProcessFunction" where
  "reconcile_process matchToken replacement matched current =
     (if current = matchToken
      then (True, Inr (Some (if replacement = [] then NextDeleteTombstone NOTIFY_DELETE_TOMBSTONE_PREFIX current
                             else replacement)), False)
      else (False, Inr None, False))"

definition ReconcileNotifyIfMatches ::
  "re2 \<Rightarrow> Wire \<Rightarrow> TopologyKeyHelper \<Rightarrow> (nat \<Rightarrow> CoordinatorStore \<Rightarrow> CoordinatorStore) \<Rightarrow> int \<Rightarrow> NotifyJanitorCandidate
     \<Rightarrow> CoordinatorStore \<Rightarrow> (CoordinatorStore \<times> bool \<times> unit result) option" where
  "ReconcileNotifyIfMatches re wire keys ifc now candidate s =
     (case NotifyKey re (nj_address candidate) of
        Inl e \<Rightarrow> Some (s, False, Inl e)
      | Inr key \<Rightarrow>
          (case (if tn_activeBatch (nj_notify candidate) \<noteq> None \<or> tn_taskIds (nj_notify candidate) \<noteq> []
                    \<or> tn_restartTimestampsByAddress (nj_notify candidate) \<noteq> []
                 then EncodeNotify re wire (nj_notify candidate) else Inr []) of
             Inl e \<Rightarrow> Some (s, False, Inl e)
           | Inr replacement \<Rightarrow>
               (case Backend_CAS ifc now (kh_notifyTable keys) key
                       (Some (reconcile_process (nj_matchToken candidate) replacement)) False s of
                  None \<Rightarrow> None
                | Some (s1, _, Inl e) \<Rightarrow> Some (s1, False, Inl e)
                | Some (s1, matched, Inr _) \<Rightarrow>
                    if \<not> matched then Some (s1, False, Inr ())
                    else if replacement = []
                    then (case Backend_Delete (kh_notifyTable keys) key (ifc 32 s1) of
                            (s2, Inl e) \<Rightarrow> Some (s2, False, Inl e)
                          | (s2, Inr _) \<Rightarrow> Some (s2, True, Inr ()))
                    else Some (s1, True, Inr ()))))"

definition PutProbeValue ::
  "re2 \<Rightarrow> TopologyKeyHelper \<Rightarrow> (nat \<Rightarrow> CoordinatorStore \<Rightarrow> CoordinatorStore) \<Rightarrow> int \<Rightarrow> string \<Rightarrow> string \<Rightarrow> CoordinatorStore
     \<Rightarrow> (CoordinatorStore \<times> unit result) option" where
  "PutProbeValue re keys ifc now witnessAddress val s =
     (case ProbeKey re witnessAddress of
        Inl e \<Rightarrow> Some (s, Inl e)
      | Inr key \<Rightarrow>
          (case Backend_CAS ifc now (kh_probeTable keys) key (Some (\<lambda>x _. (x, Inr (Some val), False))) () s of
             None \<Rightarrow> None
           | Some (s1, _, Inl e) \<Rightarrow> Some (s1, Inl e)
           | Some (s1, _, Inr _) \<Rightarrow> Some (s1, Inr ())))"

definition ListNotifyCandidatesForJanitor ::
  "re2 \<Rightarrow> Wire \<Rightarrow> TopologyKeyHelper \<Rightarrow> nat \<Rightarrow> string \<Rightarrow> CoordinatorStore \<Rightarrow> (string \<times> NotifyJanitorCandidate list) result" where
  "ListNotifyCandidatesForJanitor re wire keys limit cursor s =
     (if \<not> limit > 0 then Inl K_INVALID
      else case Backend_GetAll (kh_notifyTable keys) [] s of
             Inl e \<Rightarrow> Inl e
           | Inr (values, _) \<Rightarrow>
               VisitRotatingPage values limit cursor (\<lambda>(address, bytes).
                 let gone = (bytes = [] \<or> IsNotifyDeleteTombstone bytes)
                 in case (if gone then Inr empty_notify else DecodeNotify re wire bytes) of
                      Inl e \<Rightarrow> Inl e
                    | Inr notify \<Rightarrow> Inr \<lparr>nj_address = address, nj_notify = notify, nj_matchToken = bytes,
                                       nj_logicallyDeleted = gone\<rparr>))"

section \<open>Progress of a task\<close>

text \<open>
  Marking a scope keeps the ranges and their owners and never takes a finished range back; it finishes the whole task,
  and only when the executed ranges are exactly the unfinished ones.
\<close>

lemma fence_ranges_progress:
  assumes "fence_ranges fence ranges = (ranges', outcome)"
  shows "CompatibleRangeProgress ranges' ranges"
    "outcome = PROGRESS_UPDATED \<Longrightarrow> list_all ttr_finished ranges'
       \<and> map ttr_range (filter (\<lambda>r. \<not> ttr_finished r) ranges) = ef_ranges fence"
    "outcome \<noteq> PROGRESS_UPDATED \<Longrightarrow> ranges' = ranges"
  using assms
  by (auto simp: fence_ranges_def CompatibleRangeProgress_def Let_def list_all2_conv_all_nth list_all_iff split: if_splits)

section \<open>A committed topology\<close>

lemma Backend_Get_eq:
  assumes "CheckInitialized s" "table \<noteq> []"
  shows "Backend_Get table key s =
    (case map_of (kv_data (memKv s)) (BuildPhysicalKey table key) of
       None \<Rightarrow> Inl K_NOT_FOUND | Some e \<Rightarrow> Inr (BuildResult (toKeyValueEntry (BuildPhysicalKey table key, e))))"
  using assms by (simp add: Backend_Get_def GetStorePrefix_def ReadExact_eq split: option.splits)

lemma CoordinatorStore_Put_stored:
  assumes "CoordinatorStore_Put now key val 0 v em eg s = Some (Inr (s2, ver, rv))"
  shows "\<exists>e. map_of (kv_data (memKv s2)) key = Some e \<and> ve_value e = val"
proof -
  have keep: "co_memKvStore (fold mutationCallback evs t) = co_memKvStore t" for evs t
    by (induction evs arbitrary: t) (simp_all add: mutationCallback_def)
  from assms obtain kv pr evs where p: "MemoryKvStore_Put key val 0 v em eg (memKv s) = Inr (kv, pr, evs)"
    and s2: "s2 = fold mutationCallback evs (s\<lparr>co_memKvStore := Some kv\<rparr>)"
    by (auto simp: CoordinatorStore_Put_def Let_def split: if_splits sum.splits)
  from p show ?thesis by (rule Put_cases) (simp add: s2 keep store_simps)
qed

lemma Backend_Get_Inr:
  assumes "Backend_Get table key s = Inr res"
  shows "CheckInitialized s \<and> (\<exists>e. map_of (kv_data (memKv s)) (BuildPhysicalKey table key) = Some e \<and> ve_value e = rs_value res)"
proof -
  have i: "CheckInitialized s" and t: "table \<noteq> []" using assms
    by (auto simp: Backend_Get_def GetStorePrefix_def ReadExact_def CoordinatorStore_Range_def split: if_splits sum.splits)
  show ?thesis using assms i unfolding Backend_Get_eq [OF i t]
    by (auto simp: BuildResult_def toKeyValueEntry_def split: option.splits)
qed

lemma topologyTable_nonempty: "KeyHelper_Create c = Inr keys \<Longrightarrow> kh_topologyTable keys \<noteq> []"
  by (auto simp: KeyHelper_Create_def TopologyKeyHelper_make_def Let_def split: if_splits)

text \<open>A compare-and-swap of the topology key, at a revision or not, is atomic.\<close>

lemma topology_swap_linearized:
  assumes "interference E b ifc" "\<forall>op \<in> E. spares (BuildPhysicalKey table TopologyKey) op"
    and "CheckInitialized s" "kv_inv (memKv s)" "kv_revision (memKv s) + 32 * int b \<le> i64_max" "table \<noteq> []"
  shows "cas_linearized E now (BuildPhysicalKey table TopologyKey) process (if ar > 0 then ar else 0) s
    (if ar > 0 then Backend_CASAtRevision ifc now table TopologyKey (Some process) ar x s
     else Backend_CAS ifc now table TopologyKey (Some process) x s)"
proof -
  have "cas_linearized E now (BuildPhysicalKey table TopologyKey) process eg s
      (RunCas ifc now (BuildPhysicalKey table TopologyKey) process eg x s)" for eg
    unfolding RunCas_def
    by (rule RunCas_loop_linearized [OF assms(1-4)]) (use assms(5) in \<open>simp add: MAX_CAS_ATTEMPTS_def\<close>)
  then show ?thesis using assms(6)
    by (simp add: Backend_CASAtRevision_def Backend_CAS_def GetStorePrefix_def COORDINATOR_NO_GLOBAL_REVISION_CHECK_def)
qed

lemma cas_linearized_obtains:
  assumes "cas_linearized E now key process eg s out"
  obtains s1 x r where "out = Some (s1, x, r)"
    "\<not> isl r \<Longrightarrow> \<exists>\<sigma> x0. reached E s \<sigma> \<and> cas_atomic now key process eg x0 \<sigma> = Some (s1, x, r)"
proof -
  from assms obtain s1 x r where out: "out = Some (s1, x, r)"
    and c: "case r of Inl _ \<Rightarrow> reached E s s1 | Inr _ \<Rightarrow> \<exists>\<sigma> x0. reached E s \<sigma> \<and> cas_atomic now key process eg x0 \<sigma> = Some (s1, x, r)"
    unfolding cas_linearized_def by blast
  have "\<exists>\<sigma> x0. reached E s \<sigma> \<and> cas_atomic now key process eg x0 \<sigma> = Some (s1, x, r)" if "\<not> isl r"
    using c that by (cases r) simp_all
  with out show thesis by (rule that)
qed

abbreviation topology_key :: "TopologyKeyHelper \<Rightarrow> string" where
  "topology_key keys \<equiv> BuildPhysicalKey (kh_topologyTable keys) TopologyKey"

definition at_version :: "re2 \<Rightarrow> Wire \<Rightarrow> TopologyKeyHelper \<Rightarrow> 64 word \<Rightarrow> CoordinatorStore \<Rightarrow> bool" where
  "at_version re wire keys v s \<longleftrightarrow>
     (let stored = kve_value (currentEntry (topology_key keys) s)
      in stored = [] \<and> v = 0 \<or> (\<exists>old. DecodeTopology re wire stored = Inr old \<and> ts_version old = v))"

definition holds_bytes :: "TopologyKeyHelper \<Rightarrow> string \<Rightarrow> CoordinatorStore \<Rightarrow> bool" where
  "holds_bytes keys bytes s \<longleftrightarrow> (\<exists>e. map_of (kv_data (memKv s)) (topology_key keys) = Some e \<and> ve_value e = bytes)"

text \<open>
  The step by which a compare-and-swap replaces the stored topology: it finds the expected version (or nothing, for
  version 0) and puts the bytes of the candidate over exactly that state.
\<close>

definition replaces ::
  "re2 \<Rightarrow> Wire \<Rightarrow> TopologyKeyHelper \<Rightarrow> int \<Rightarrow> 64 word \<Rightarrow> string \<Rightarrow> int \<Rightarrow> CoordinatorStore \<Rightarrow> CoordinatorStore \<Rightarrow> bool" where
  "replaces re wire keys now v bytes authorityRevision \<sigma> s' \<longleftrightarrow> at_version re wire keys v \<sigma>
     \<and> (\<exists>version revision. CoordinatorStore_Put now (topology_key keys) bytes 0 COORDINATOR_NO_VERSION_CHECK
          COORDINATOR_NO_MOD_REVISION_CHECK authorityRevision \<sigma> = Some (Inr (s', version, revision)))"

lemma topology_write:
  assumes "cas_atomic now (topology_key keys) (topology_process re wire v bytes) eg x0 \<sigma> = Some (s', False, Inr r)"
  shows "replaces re wire keys now v bytes eg \<sigma> s' \<and> holds_bytes keys bytes s'"
proof -
  let ?cur = "currentEntry (topology_key keys) \<sigma>"
  have proc: "topology_process re wire v bytes x0 (kve_value ?cur) = (x0, Inr (Some bytes), False) \<and> at_version re wire keys v \<sigma>"
    using assms unfolding cas_atomic_def at_version_def
    by (auto simp: topology_process_def Let_def split: if_splits sum.splits)
  then obtain ver rv where "CoordinatorStore_Put now (topology_key keys) bytes 0 COORDINATOR_NO_VERSION_CHECK
      COORDINATOR_NO_MOD_REVISION_CHECK eg \<sigma> = Some (Inr (s', ver, rv))"
    using assms unfolding cas_atomic_def by (auto simp: Let_def split: option.splits sum.splits)
  with CoordinatorStore_Put_stored [OF this] proc show ?thesis by (auto simp: holds_bytes_def replaces_def)
qed

lemma cas_read_back_committed:
  assumes "cas_read_back re wire keys desired bytes c s = (q, z)" "cr_outcome q = CAS_COMMITTED"
  shows "holds_bytes keys bytes s \<and> cr_observed q \<noteq> None"
proof (cases "Backend_Get (kh_topologyTable keys) TopologyKey s")
  case (Inl e)
  with assms show ?thesis by (auto simp: cas_read_back_def no_cas_result_def)
next
  case (Inr res)
  have "rs_value res = bytes \<and> cr_observed q \<noteq> None"
    using assms unfolding cas_read_back_def Inr sum.case
    by (cases "DecodeTopology re wire (rs_value res)") (auto simp: no_cas_result_def split: if_splits)
  with Backend_Get_Inr [OF Inr] show ?thesis by (auto simp: holds_bytes_def)
qed

lemma topology_cas_committed:
  assumes "KeyHelper_Create cluster = Inr keys"
    and "interference E b ifc" "\<forall>op \<in> E. spares (topology_key keys) op"
    and "CheckInitialized s" "kv_inv (memKv s)" "kv_revision (memKv s) + 32 * int b \<le> i64_max"
  shows "\<exists>s' res rc. CompareAndSwapTopology re wire keys ifc now expectedVersion desired authorityRevision s = Some (s', res, rc)
    \<and> (cr_outcome res = CAS_COMMITTED \<longrightarrow>
         valid_topology re desired \<and> ts_version desired = expectedVersion + 1
         \<and> (\<exists>bytes. EncodeTopology re wire desired = Inr bytes \<and> holds_bytes keys bytes s'
              \<and> (cr_observed res = None \<longrightarrow>
                   (\<exists>\<sigma>. reached E s \<sigma>
                      \<and> replaces re wire keys now expectedVersion bytes (max 0 authorityRevision) \<sigma> s'))))"
proof (cases "ts_version desired = expectedVersion + 1 \<and> \<not> isl (EncodeTopology re wire desired)")
  case False
  then show ?thesis by (auto simp: CompareAndSwapTopology_def no_cas_result_def split: sum.splits)
next
  case True
  then obtain bytes where v: "ts_version desired = expectedVersion + 1" and e: "EncodeTopology re wire desired = Inr bytes"
    by (metis sum.collapse(2))
  have valid: "valid_topology re desired" using e by (simp add: EncodeTopology_eq split: if_splits)
  let ?p = "topology_process re wire expectedVersion bytes" and ?t = "kh_topologyTable keys"
  let ?out = "if authorityRevision > 0 then Backend_CASAtRevision ifc now ?t TopologyKey (Some ?p) authorityRevision False s
    else Backend_CAS ifc now ?t TopologyKey (Some ?p) False s"
  obtain s1 conflict r where out: "?out = Some (s1, conflict, r)"
    and lin: "\<not> isl r \<Longrightarrow> \<exists>\<sigma> x0. reached E s \<sigma> \<and> cas_atomic now (topology_key keys) ?p
        (if authorityRevision > 0 then authorityRevision else 0) x0 \<sigma> = Some (s1, conflict, r)"
    by (rule cas_linearized_obtains [OF topology_swap_linearized [OF assms(2-6) topologyTable_nonempty [OF assms(1)],
        of now ?p authorityRevision False]]) blast
  have cas: "CompareAndSwapTopology re wire keys ifc now expectedVersion desired authorityRevision s =
      (if \<not> isl r \<and> \<not> conflict then Some (s1, \<lparr>cr_outcome = CAS_COMMITTED, cr_observed = None\<rparr>, Inr ())
       else Some (ifc 32 s1, cas_read_back re wire keys desired bytes (if isl r then Some (projl r) else None) (ifc 32 s1)))"
    unfolding CompareAndSwapTopology_def e sum.case Let_def out using v by simp
  show ?thesis
  proof (cases "\<not> isl r \<and> \<not> conflict")
    case True
    then obtain r' where r': "r = Inr r'" "\<not> isl r" "conflict = False" by (cases r) auto
    from lin [OF r'(2)] obtain \<sigma> x0 where re: "reached E s \<sigma>"
      and at: "cas_atomic now (topology_key keys) ?p (if authorityRevision > 0 then authorityRevision else 0) x0 \<sigma> =
        Some (s1, False, Inr r')"
      unfolding r'(1,3) by blast
    note w = topology_write [OF at]
    have rv: "(if authorityRevision > 0 then authorityRevision else 0) = max 0 authorityRevision" by simp
    have eq: "CompareAndSwapTopology re wire keys ifc now expectedVersion desired authorityRevision s =
        Some (s1, \<lparr>cr_outcome = CAS_COMMITTED, cr_observed = None\<rparr>, Inr ())"
      by (rule trans [OF cas if_P [OF True]])
    show ?thesis
      by (intro exI, rule conjI, rule eq) (use w [unfolded rv] re v e valid in auto)
  next
    case False
    let ?c = "if isl r then Some (projl r) else None"
    obtain q z where q: "cas_read_back re wire keys desired bytes ?c (ifc 32 s1) = (q, z)" by (rule prod.exhaust)
    have eq: "CompareAndSwapTopology re wire keys ifc now expectedVersion desired authorityRevision s = Some (ifc 32 s1, q, z)"
      by (rule trans [OF cas trans [OF if_not_P [OF False]]]) (simp only: q)
    show ?thesis
      by (intro exI, rule conjI, rule eq) (use cas_read_back_committed [OF q] v e valid in auto)
  qed
qed

text \<open>
  C6. A committed topology really is the stored one and follows the version it replaces. The compare-and-swap of the
  topology returns; when it reports COMMITTED, the candidate is a valid topology of the next version and its encoding is
  what the store holds. Unless the answer comes from reading back the candidate's own bytes, the write was
  applied to a state that stored a topology of exactly the expected version (or none, for version 0), and nothing
  came between that state and the write, whatever other threads did before, short of deleting the key.
\<close>

theorem topology_cas_exact:
  assumes "KeyHelper_Create cluster = Inr keys"
    and "interference E b ifc" "\<forall>op \<in> E. spares (topology_key keys) op"
    and "CheckInitialized s" "kv_inv (memKv s)" "kv_revision (memKv s) + 32 * int b \<le> i64_max"
  shows "\<exists>s' res rc. CompareAndSwapTopology re wire keys ifc now expectedVersion desired authorityRevision s = Some (s', res, rc)
    \<and> (cr_outcome res = CAS_COMMITTED \<longrightarrow>
         valid_topology re desired \<and> ts_version desired = expectedVersion + 1
         \<and> (\<exists>bytes. EncodeTopology re wire desired = Inr bytes \<and> holds_bytes keys bytes s'
              \<and> (cr_observed res = None \<longrightarrow>
                   (\<exists>\<sigma>. reached E s \<sigma>
                      \<and> replaces re wire keys now expectedVersion bytes (max 0 authorityRevision) \<sigma> s'))))"
  by (rule topology_cas_committed [OF assms])

definition first_topology :: TopologyState where
  "first_topology = \<lparr>ts_clusterHasInit = True, ts_version = 1,
     ts_members = [sample_member (CHR ''a'') ''10.0.0.1:80'' ACTIVE [10, 20]], ts_activeBatch = None\<rparr>"

definition first_wire :: Wire where
  "first_wire = sample_wire\<lparr>ser_topology := (\<lambda>_. Some ''y'')\<rparr>"

abbreviation first_ifc :: "nat \<Rightarrow> CoordinatorStore \<Rightarrow> CoordinatorStore" where
  "first_ifc \<equiv> run_others (\<lambda>i. if i = 30 then [OpPut ''a'' ''2'' 0 (- 1) 0 0] else [])"

lemma first_write:
  "map_option (\<lambda>(_, conflict, r). (conflict, isl r))
     (Backend_CAS first_ifc 0 (kh_topologyTable (TopologyKeyHelper_make [])) TopologyKey
        (Some (topology_process re wire 0 ''y'')) False backend_ex) = Some (False, False)"
  by code_simp

lemma first_encoded: "EncodeTopology re2_model first_wire first_topology = Inr ''y''"
proof -
  have "isl (ValidateAndCanonicalizeTopologyState re2_model first_topology) = False" by code_simp
  then have "valid_topology re2_model first_topology" unfolding validate_eq by (simp split: if_splits)
  then show ?thesis by (simp add: EncodeTopology_eq SerializeCanonical_def first_wire_def MAX_VALUE_BYTES_def)
qed

theorem topology_cas_exact_witness:
  "\<exists>s' res rc \<sigma>. CompareAndSwapTopology re2_model first_wire (TopologyKeyHelper_make [])
       first_ifc 0 0 first_topology 0 backend_ex = Some (s', res, rc)
     \<and> cr_outcome res = CAS_COMMITTED \<and> valid_topology re2_model first_topology
     \<and> EncodeTopology re2_model first_wire first_topology = Inr ''y''
     \<and> holds_bytes (TopologyKeyHelper_make []) ''y'' s'
     \<and> reached {OpPut ''a'' ''2'' 0 (- 1) 0 0} backend_ex \<sigma>
     \<and> replaces re2_model first_wire (TopologyKeyHelper_make []) 0 0 ''y'' 0 \<sigma> s'"
proof -
  let ?E = "{OpPut ''a'' ''2'' 0 (- 1) 0 0}" and ?keys = "TopologyKeyHelper_make []"
  let ?cas = "CompareAndSwapTopology re2_model first_wire ?keys first_ifc 0 0 first_topology 0 backend_ex"
  obtain s1 r where r: "Backend_CAS first_ifc 0 (kh_topologyTable ?keys) TopologyKey
      (Some (topology_process re2_model first_wire 0 ''y'')) False backend_ex = Some (s1, False, r)" "\<not> isl r"
    using first_write [of re2_model first_wire] by auto
  have c: "?cas = Some (s1, \<lparr>cr_outcome = CAS_COMMITTED, cr_observed = None\<rparr>, Inr ())"
    unfolding CompareAndSwapTopology_def first_encoded sum.case Let_def using r by (simp add: first_topology_def)
  have i: "interference ?E 1 first_ifc" by (rule run_others_interference) auto
  have s: "CheckInitialized backend_ex" "kv_inv (memKv backend_ex)" "kv_revision (memKv backend_ex) + 32 * int 1 \<le> i64_max"
    by (auto simp: backend_ex_def CoordinatorStore_new_def CheckInitialized_def MemoryKvStore_SetMutationCallback_def
      kv_ex1_def kv_inv_def om_ok_def entry_ok_def i64_max_def)
  have k: "KeyHelper_Create [] = Inr ?keys" by (simp add: KeyHelper_Create_def)
  have sp: "\<forall>op \<in> ?E. spares (topology_key ?keys) op" by simp
  from topology_cas_exact [OF k i sp s, of re2_model first_wire 0 0 first_topology 0] show ?thesis
    unfolding c first_encoded by auto
qed

end
