(* ===== verification/Topology_Control.thy ===== *)
theory Topology_Control
  imports Task_Materializer Failure_Classifier Topology_Repository
begin

text \<open>
  The decisions of the topology controller, \<^verbatim>\<open>cluster/control/topology_controller.cpp\<close>: admission of members, the start,
  progress, expiry and end of batches, failures, shutdown, and the replacement of a cluster whose members are all gone.

  A handler takes the controller's state, the latest snapshot and what it reads, and returns the new state, the
  candidate topology it handed to \<^verbatim>\<open>CommitAndReadBack\<close>, if any, and its status. What \<^verbatim>\<open>CommitAndReadBack\<close> answered is the
  argument \<open>commit\<close>. Time points and durations are in nanoseconds; \<open>clk i\<close> is the \<open>i\<close>-th reading of the policy clock
  in a handler. Logging is left out.

  The runs at the end are histories of stored topologies. Any number of controllers take turns, each on a snapshot that it
  may have read long ago, and the repository accepts a candidate only against the version of that snapshot.
\<close>

section \<open>State\<close>

datatype TopologyEventSourceMode = SELF_MANAGED | EXTERNAL | EXTERNAL_ETCD

record TopologyControllerOptions =
  opt_failureBatchWindow :: int
  opt_ordinaryBatchWindow :: int
  opt_scaleOutCollectWindow :: int
  opt_scaleInCollectWindow :: int
  opt_maxMembersPerBatch :: nat
  opt_maxProgressReadsPerTick :: nat
  opt_derivedSliceBudget :: int
  opt_eventSourceMode :: TopologyEventSourceMode

record BatchDeadlineState =
  bd_batch :: ActiveBatch
  bd_deadline :: int

record BatchCollectState =
  bc_deadline :: int
  bc_started :: bool
  bc_awaitingAdmission :: bool

text \<open>
  The fields the handlers below read or write. Of \<^verbatim>\<open>suspectRoundsByTarget_\<close> they only erase targets, so it is the set of
  its keys; \<^verbatim>\<open>finishedTaskIds_\<close> is a list without duplicates. The failure classifier is a value of its own.
\<close>

record TopologyController =
  tc_topologyCommittedThisTick :: bool
  tc_batchDeadline :: "BatchDeadlineState option"
  tc_loggedExpiredBatchEpoch :: "64 word"
  tc_loggedScaleInWaitEpoch :: "64 word"
  tc_scaleInCollect :: "BatchCollectState option"
  tc_scaleOutCollect :: "BatchCollectState option"
  tc_derivedTopologyVersion :: "64 word"
  tc_expectedDerivedState :: ExpectedDerivedState
  tc_derivedWorkPending :: bool
  tc_progressReadCursor :: nat
  tc_progressSweepRemaining :: nat
  tc_progressTopologyVersion :: "64 word"
  tc_progressBatchEpoch :: "64 word"
  tc_progressWorkPending :: bool
  tc_finishedTaskIds :: "string list"
  tc_quarantined :: "string \<rightharpoonup> int"
  tc_suspectTargets :: "string set"
  tc_collectiveProbeTopologyVersion :: "64 word option"
  tc_collectiveProbeOwner :: "string option"
  tc_collectiveProbeControlEpoch :: "64 word option"
  tc_collectiveUnreachableSamples :: "string set"

type_synonym outcome = "TopologyController \<times> TopologyState option \<times> unit result"

section \<open>Helpers\<close>

definition BuildMemberId :: "(string \<Rightarrow> string result) \<Rightarrow> MembershipRecord \<Rightarrow> string result" where
  "BuildMemberId sha256 membership =
     (let seed = to_string (length (mr_address membership)) @ '':'' @ mr_address membership @ '':''
                 @ to_string_int (mr_timestamp membership) @ '':'' @ mr_hostId membership
      in case sha256 seed of
           Inl e \<Rightarrow> Inl e
         | Inr digest \<Rightarrow> if length digest \<ge> UUID_SIZE then Inr (take UUID_SIZE digest) else Inl K_RUNTIME_ERROR)"

definition TaskFinished :: "TopologyTask \<Rightarrow> bool" where
  "TaskFinished task = list_all ttr_finished (task_ranges task)"

definition LimitMembers :: "MemberIdentity list \<Rightarrow> nat \<Rightarrow> MemberIdentity list" where
  "LimitMembers members limit = take limit (sort_key mi_address members)"

definition EraseMembers :: "TopologyState \<Rightarrow> MemberIdentity list \<Rightarrow> TopologyState" where
  "EraseMembers state identities =
     state\<lparr>ts_members := filter (\<lambda>m. m_address m \<notin> mi_address ` set identities) (ts_members state)\<rparr>"

definition AllMembersExiting :: "TopologySnapshot \<Rightarrow> MembershipRecord list \<Rightarrow> bool" where
  "AllMembersExiting latest memberships \<longleftrightarrow>
     ts_members (sn_state latest) \<noteq> [] \<and>
     list_all (\<lambda>m. map_of (map (\<lambda>r. (mr_address r, mr_state r)) memberships) (m_address m) = Some EXITING)
       (ts_members (sn_state latest))"

section \<open>Committing\<close>

definition CONTROLLER_READ_TIMEOUT_MS :: int where "CONTROLLER_READ_TIMEOUT_MS = 3000"

definition TopologyReader_Read ::
  "re2 \<Rightarrow> Wire \<Rightarrow> (string \<Rightarrow> string result) \<Rightarrow> TopologyKeyHelper \<Rightarrow> int \<Rightarrow> CoordinatorStore \<Rightarrow> TopologySnapshot result" where
  "TopologyReader_Read re wire shaHex keys timeoutMs s =
     (if \<not> timeoutMs > 0 then Inl K_INVALID
      else case ReadTopology re wire keys timeoutMs s of
             Inl e \<Rightarrow> Inl e
           | Inr (state, revision) \<Rightarrow>
               (case EncodeTopology re wire state of
                  Inl e \<Rightarrow> Inl e
                | Inr canon \<Rightarrow>
                    (case shaHex canon of
                       Inl e \<Rightarrow> Inl e
                     | Inr digest \<Rightarrow> Create re state revision digest)))"

text \<open>
  The self-managed mode of \<^verbatim>\<open>CommitAndReadBack\<close>; turn 33 of \<open>ifc\<close> lies before the read-back. The answer its callers see
  is \<open>commit_answer\<close>, which the handlers take as an argument.
\<close>

definition CommitAndReadBack ::
  "re2 \<Rightarrow> Wire \<Rightarrow> (string \<Rightarrow> string result) \<Rightarrow> TopologyKeyHelper \<Rightarrow> (nat \<Rightarrow> CoordinatorStore \<Rightarrow> CoordinatorStore) \<Rightarrow> int \<Rightarrow> 64 word
     \<Rightarrow> TopologyState \<Rightarrow> int \<Rightarrow> CoordinatorStore \<Rightarrow> (CoordinatorStore \<times> TopologySnapshot result) option" where
  "CommitAndReadBack re wire shaHex keys ifc now expectedVersion desired expectedAuthorityRevision s =
     (case CompareAndSwapTopology re wire keys ifc now expectedVersion desired expectedAuthorityRevision s of
        None \<Rightarrow> None
      | Some (s1, res, Inl e) \<Rightarrow> Some (s1, Inl e)
      | Some (s1, res, Inr _) \<Rightarrow>
          if cr_outcome res \<noteq> CAS_COMMITTED then Some (s1, Inl K_TRY_AGAIN)
          else let s2 = ifc 33 s1
               in Some (s2, case TopologyReader_Read re wire shaHex keys CONTROLLER_READ_TIMEOUT_MS s2 of
                              Inl e \<Rightarrow> Inl e
                            | Inr readBack \<Rightarrow>
                                if ts_version (sn_state readBack) \<ge> ts_version desired then Inr readBack
                                else Inl K_TRY_AGAIN))"

definition initial_topology :: TopologyState where
  "initial_topology = \<lparr>ts_clusterHasInit = False, ts_version = 1, ts_members = [], ts_activeBatch = None\<rparr>"

definition EnsureTopologyAuthority ::
  "re2 \<Rightarrow> Wire \<Rightarrow> TopologyKeyHelper \<Rightarrow> (nat \<Rightarrow> CoordinatorStore \<Rightarrow> CoordinatorStore) \<Rightarrow> int \<Rightarrow> CoordinatorStore
     \<Rightarrow> (CoordinatorStore \<times> unit result) option" where
  "EnsureTopologyAuthority re wire keys ifc now s =
     (case CompareAndSwapTopology re wire keys ifc now 0 initial_topology 0 s of
        None \<Rightarrow> None
      | Some (s1, res, Inl e) \<Rightarrow> Some (s1, Inl e)
      | Some (s1, res, Inr _) \<Rightarrow>
          Some (s1, if cr_outcome res = CAS_COMMITTED \<or> cr_outcome res = CAS_CONFLICT then Inr () else Inl K_TRY_AGAIN))"

definition commit_answer :: "(CoordinatorStore \<times> TopologySnapshot result) option \<Rightarrow> unit result" where
  "commit_answer out = (case out of Some (_, Inr _) \<Rightarrow> Inr () | Some (_, Inl e) \<Rightarrow> Inl e | None \<Rightarrow> Inl K_RUNTIME_ERROR)"

definition hand_over :: "(TopologyState \<Rightarrow> unit result) \<Rightarrow> TopologyState \<Rightarrow> TopologyController \<Rightarrow> outcome" where
  "hand_over commit desired ctl =
     (case commit desired of
        Inl e \<Rightarrow> (ctl, Some desired, Inl e)
      | Inr _ \<Rightarrow> (ctl\<lparr>tc_topologyCommittedThisTick := True\<rparr>, Some desired, Inr ()))"

section \<open>Shutdown and failures\<close>

definition CommitClusterShutdown :: "(TopologyState \<Rightarrow> unit result) \<Rightarrow> TopologySnapshot \<Rightarrow> TopologyController \<Rightarrow> outcome" where
  "CommitClusterShutdown commit latest ctl =
     (let state = (sn_state latest)\<lparr>ts_members := map (\<lambda>m. m\<lparr>m_state := PRE_LEAVING\<rparr>) (ts_members (sn_state latest)),
                    ts_activeBatch := None\<rparr>
      in case BuildClusterShutdownFinal state of
           Inl e \<Rightarrow> (ctl, None, Inl e)
         | Inr next \<Rightarrow> hand_over commit next ctl)"

fun confirm_loop :: "nat \<Rightarrow> MemberIdentity list \<Rightarrow> string list \<Rightarrow> MemberIdentity list \<Rightarrow> MemberIdentity list" where
  "confirm_loop limit [] retainedAddresses confirmed = confirmed"
| "confirm_loop limit (identity # rest) retainedAddresses confirmed =
     (if length confirmed \<ge> limit then confirmed
      else if mi_address identity \<in> set retainedAddresses then confirm_loop limit rest retainedAddresses confirmed
      else confirm_loop limit rest (mi_address identity # retainedAddresses) (confirmed @ [identity]))"

definition CommitConfirmedFailures ::
  "TopologyControllerOptions \<Rightarrow> IPlanningAlgorithm \<Rightarrow> (TopologyState \<Rightarrow> unit result) \<Rightarrow> TopologySnapshot \<Rightarrow> FailureClassification
     \<Rightarrow> TopologyController \<Rightarrow> outcome" where
  "CommitConfirmedFailures options alg commit latest classification ctl =
     (let retained = MembersInState (sn_state latest) FAILED;
          confirmed = confirm_loop (opt_maxMembersPerBatch options) (cl_confirmedFailure classification)
                        (map mi_address retained) retained
      in if length confirmed = length retained then (ctl, None, Inr ())
         else case BuildFailureStartOrReplan alg (sn_state latest) confirmed of
                Inl e \<Rightarrow> (ctl, None, Inl e)
              | Inr plan \<Rightarrow>
                  (case hand_over commit
                          (EraseMembers (EraseMembers (tp_next plan) (cl_removeInitial classification))
                             (cl_removeJoining classification)) ctl of
                     (ctl', candidate, Inl e) \<Rightarrow> (ctl', candidate, Inl e)
                   | (ctl', candidate, Inr _) \<Rightarrow>
                       (ctl'\<lparr>tc_suspectTargets := tc_suspectTargets ctl'
                               - mi_address ` set (cl_confirmedFailure classification)\<rparr>, candidate, Inr ())))"

definition CommitUncommittedCleanup ::
  "IPlanningAlgorithm \<Rightarrow> nat \<Rightarrow> (TopologyState \<Rightarrow> unit result) \<Rightarrow> TopologySnapshot \<Rightarrow> FailureClassification
     \<Rightarrow> TopologyController \<Rightarrow> outcome" where
  "CommitUncommittedCleanup alg tokens_flag commit latest classification ctl =
     (let state = sn_state latest;
          type = map_option ab_type (ts_activeBatch state)
      in if cl_removeJoining classification \<noteq> [] \<and> (type = Some SCALE_OUT \<or> type = Some FAILURE)
         then case (if type = Some SCALE_OUT
                    then BuildScaleOutReplan alg tokens_flag state (cl_removeJoining classification)
                    else map_sum id (\<lambda>plan. plan\<lparr>tp_next := EraseMembers (tp_next plan) (cl_removeJoining classification)\<rparr>)
                           (BuildFailureStartOrReplan alg state (MembersInState state FAILED))) of
                Inl e \<Rightarrow> (ctl, None, Inl e)
              | Inr plan \<Rightarrow>
                  hand_over commit (EraseMembers (tp_next plan) (cl_removeInitial classification)) ctl
         else if cl_removeInitial classification = [] then (ctl, None, Inr ())
         else hand_over commit
                (EraseMembers (state\<lparr>ts_version := ts_version state + 1\<rparr>) (cl_removeInitial classification)) ctl)"

section \<open>Collecting candidates\<close>

definition CollectNextBatchCandidates ::
  "TopologyControllerOptions \<Rightarrow> TopologySnapshot \<Rightarrow> MembershipRecord list \<Rightarrow> MemberIdentity list \<times> MemberIdentity list" where
  "CollectNextBatchCandidates options latest memberships =
     (let ready = map mr_address (filter (\<lambda>r. mr_state r = READY \<or> mr_state r = RESTARTING) memberships);
          leaving = map m_identity (filter (\<lambda>m. m_state m = PRE_LEAVING) (ts_members (sn_state latest)));
          joining = map m_identity (filter (\<lambda>m. m_state m = INITIAL \<and> m_address m \<in> set ready)
                      (ts_members (sn_state latest)))
      in (LimitMembers leaving (opt_maxMembersPerBatch options), LimitMembers joining (opt_maxMembersPerBatch options)))"

definition ClearBatchCollectState :: "TopologyChangeType \<Rightarrow> TopologyController \<Rightarrow> TopologyController" where
  "ClearBatchCollectState type ctl =
     (if type = SCALE_IN then ctl\<lparr>tc_scaleInCollect := None\<rparr> else ctl\<lparr>tc_scaleOutCollect := None\<rparr>)"

fun facts_loop ::
  "MembershipRecord list \<Rightarrow> (string \<rightharpoonup> int) \<Rightarrow> string list \<Rightarrow> MembershipRecord list
     \<Rightarrow> (string \<rightharpoonup> int) \<times> string list \<times> MembershipRecord list" where
  "facts_loop [] quarantined exiting ready = (quarantined, exiting, ready)"
| "facts_loop (rec # rest) quarantined exiting ready =
     (let exiting' = (if mr_state rec = EXITING then mr_address rec # exiting else exiting)
      in if mr_state rec = READY \<or> mr_state rec = RESTARTING
         then case quarantined (mr_address rec) of
                Some t \<Rightarrow>
                  if mr_timestamp rec \<le> t then facts_loop rest quarantined exiting' ready
                  else facts_loop rest (quarantined(mr_address rec := None)) exiting' (ready @ [rec])
              | None \<Rightarrow> facts_loop rest quarantined exiting' (ready @ [rec])
         else facts_loop rest quarantined exiting' ready)"

definition CollectMembershipFacts ::
  "MembershipRecord list \<Rightarrow> TopologyController \<Rightarrow> TopologyController \<times> string list \<times> MembershipRecord list" where
  "CollectMembershipFacts memberships ctl =
     (case facts_loop memberships (tc_quarantined ctl) [] [] of
        (quarantined, exiting, ready) \<Rightarrow> (ctl\<lparr>tc_quarantined := quarantined\<rparr>, exiting, sort_key mr_address ready))"

section \<open>Admission\<close>

fun exiting_loop ::
  "nat \<Rightarrow> string list \<Rightarrow> Member list \<Rightarrow> nat \<Rightarrow> Member list \<times> MemberIdentity list \<times> nat" where
  "exiting_loop limit exiting [] changed = ([], [], changed)"
| "exiting_loop limit exiting (m # ms) changed =
     (if m_state m = ACTIVE \<and> m_address m \<in> set exiting \<and> changed < limit
      then case exiting_loop limit exiting ms (changed + 1) of
             (ms', admitted, changed') \<Rightarrow> (m\<lparr>m_state := PRE_LEAVING\<rparr> # ms', m_identity m # admitted, changed')
      else case exiting_loop limit exiting ms changed of (ms', admitted, changed') \<Rightarrow> (m # ms', admitted, changed'))"

definition ApplyExitingMembershipFacts ::
  "TopologyControllerOptions \<Rightarrow> TopologyState \<Rightarrow> string list \<Rightarrow> TopologyState \<times> string list \<times> MemberIdentity list \<times> nat" where
  "ApplyExitingMembershipFacts options next exiting =
     (case exiting_loop (opt_maxMembersPerBatch options) exiting (ts_members next) 0 of
        (members, admittedLeaving, changed) \<Rightarrow>
          (next\<lparr>ts_members := members\<rparr>, map m_address (ts_members next), admittedLeaving, changed))"

fun ready_loop ::
  "re2 \<Rightarrow> (string \<Rightarrow> string result) \<Rightarrow> nat \<Rightarrow> MembershipRecord list \<Rightarrow> string list \<Rightarrow> Member list \<Rightarrow> MemberIdentity list \<Rightarrow> nat
     \<Rightarrow> (Member list \<times> MemberIdentity list \<times> nat) result" where
  "ready_loop re sha256 limit [] known members admitted changed = Inr (members, admitted, changed)"
| "ready_loop re sha256 limit (rec # rest) known members admitted changed =
     (if mr_address rec \<in> set known \<or> changed \<ge> limit then ready_loop re sha256 limit rest known members admitted changed
      else case MembershipKey re (mr_address rec) of
             Inl e \<Rightarrow> Inl e
           | Inr _ \<Rightarrow>
               (case BuildMemberId sha256 rec of
                  Inl e \<Rightarrow> Inl e
                | Inr memberId \<Rightarrow>
                    let identity = \<lparr>mi_id = memberId, mi_address = mr_address rec\<rparr>
                    in ready_loop re sha256 limit rest (mr_address rec # known)
                         (members @ [\<lparr>m_identity = identity, m_state = INITIAL, m_tokens = []\<rparr>])
                         (admitted @ [identity]) (changed + 1)))"

definition ApplyReadyMembershipFacts ::
  "TopologyControllerOptions \<Rightarrow> re2 \<Rightarrow> (string \<Rightarrow> string result) \<Rightarrow> TopologyState \<Rightarrow> MembershipRecord list \<Rightarrow> string list \<Rightarrow> nat
     \<Rightarrow> (TopologyState \<times> MemberIdentity list \<times> nat) result" where
  "ApplyReadyMembershipFacts options re sha256 next ready known changed =
     (case ready_loop re sha256 (opt_maxMembersPerBatch options) ready known (ts_members next) [] changed of
        Inl e \<Rightarrow> Inl e
      | Inr (members, admitted, changed') \<Rightarrow> Inr (next\<lparr>ts_members := members\<rparr>, admitted, changed'))"

definition ShouldApplyReadyScaleOutAdmission ::
  "TopologyControllerOptions \<Rightarrow> int \<Rightarrow> TopologySnapshot \<Rightarrow> MembershipRecord list \<Rightarrow> string list \<Rightarrow> TopologyController
     \<Rightarrow> TopologyController \<times> bool" where
  "ShouldApplyReadyScaleOutAdmission options now latest ready known ctl =
     (let hasUnknownReady = list_ex (\<lambda>r. mr_address r \<notin> set known) ready;
          awaiting = (\<lambda>c. case tc_scaleOutCollect c of None \<Rightarrow> False | Some b \<Rightarrow> bc_awaitingAdmission b)
      in if ts_activeBatch (sn_state latest) \<noteq> None
         then if \<not> ts_clusterHasInit (sn_state latest) then (ctl, True)
              else if \<not> hasUnknownReady
              then (if awaiting ctl then ClearBatchCollectState SCALE_OUT ctl else ctl, False)
              else if opt_scaleOutCollectWindow options > 0 \<and> \<not> awaiting ctl
              then (ctl\<lparr>tc_scaleOutCollect := Some \<lparr>bc_deadline = now + opt_scaleOutCollectWindow options,
                                                     bc_started = False, bc_awaitingAdmission = True\<rparr>\<rparr>, False)
              else (ctl, False)
         else if tc_scaleOutCollect ctl = None then (ctl, True)
         else if \<not> hasUnknownReady then (ctl, False)
         else
           let hasReadyInitial = (snd (CollectNextBatchCandidates options latest ready) \<noteq> []);
               ctl1 = (if \<not> awaiting ctl \<and> \<not> hasReadyInitial then ClearBatchCollectState SCALE_OUT ctl else ctl)
           in case tc_scaleOutCollect ctl1 of
                None \<Rightarrow> (ctl1, True)
              | Some b \<Rightarrow>
                  if now < bc_deadline b then (ctl1, True)
                  else
                    let b' = (if bc_awaitingAdmission b \<and> hasReadyInitial then b\<lparr>bc_awaitingAdmission := False\<rparr> else b);
                        ctl2 = ctl1\<lparr>tc_scaleOutCollect := Some b'\<rparr>
                    in if bc_awaitingAdmission b' then (ctl2, True)
                       else (if \<not> hasReadyInitial then ClearBatchCollectState SCALE_OUT ctl2 else ctl2, \<not> hasReadyInitial))"

definition collect_window :: "int \<Rightarrow> BatchCollectState" where
  "collect_window deadline = \<lparr>bc_deadline = deadline, bc_started = False, bc_awaitingAdmission = False\<rparr>"

text \<open>The collect windows that \<^verbatim>\<open>CommitMembershipFacts\<close> opens after a successful commit.\<close>

definition open_windows ::
  "TopologyControllerOptions \<Rightarrow> (nat \<Rightarrow> int) \<Rightarrow> TopologySnapshot \<Rightarrow> MemberIdentity list \<Rightarrow> MemberIdentity list
     \<Rightarrow> TopologyController \<Rightarrow> TopologyController" where
  "open_windows options clk latest admittedLeaving admittedJoining ctl =
     (let ctl1 = (if admittedLeaving \<noteq> [] \<and> opt_scaleInCollectWindow options > 0 \<and> tc_scaleInCollect ctl = None
                  then ctl\<lparr>tc_scaleInCollect := Some (collect_window (clk 1 + opt_scaleInCollectWindow options))\<rparr> else ctl);
          ctl2 = (if ts_clusterHasInit (sn_state latest) \<and> admittedJoining \<noteq> [] \<and> opt_scaleOutCollectWindow options > 0
                     \<and> tc_scaleOutCollect ctl1 = None
                  then ctl1\<lparr>tc_scaleOutCollect := Some (collect_window (clk 2 + opt_scaleOutCollectWindow options))\<rparr> else ctl1)
      in if admittedJoining \<noteq> []
         then ctl2\<lparr>tc_scaleOutCollect := map_option (\<lambda>b. b\<lparr>bc_awaitingAdmission := False\<rparr>) (tc_scaleOutCollect ctl2)\<rparr>
         else ctl2)"

definition CommitMembershipFacts ::
  "TopologyControllerOptions \<Rightarrow> re2 \<Rightarrow> (string \<Rightarrow> string result) \<Rightarrow> (TopologyState \<Rightarrow> unit result) \<Rightarrow> (nat \<Rightarrow> int)
     \<Rightarrow> TopologySnapshot \<Rightarrow> MembershipRecord list \<Rightarrow> TopologyController \<Rightarrow> outcome" where
  "CommitMembershipFacts options re sha256 commit clk latest memberships ctl =
     (case CollectMembershipFacts memberships ctl of (ctl1, exiting, ready) \<Rightarrow>
      case ApplyExitingMembershipFacts options ((sn_state latest)\<lparr>ts_version := ts_version (sn_state latest) + 1\<rparr>) exiting of
        (next, known, admittedLeaving, changed) \<Rightarrow>
      case ShouldApplyReadyScaleOutAdmission options (clk 0) latest ready known ctl1 of (ctl2, admit) \<Rightarrow>
      case (if admit then ApplyReadyMembershipFacts options re sha256 next ready known changed
            else Inr (next, [], changed)) of
        Inl e \<Rightarrow> (ctl2, None, Inl e)
      | Inr (next', admittedJoining, changed') \<Rightarrow>
          if changed' = 0 then (ctl2, None, Inr ())
          else (case hand_over commit next' ctl2 of
                  (ctl3, candidate, Inl e) \<Rightarrow> (ctl3, candidate, Inl e)
                | (ctl3, candidate, Inr _) \<Rightarrow>
                    (open_windows options clk latest admittedLeaving admittedJoining ctl3, candidate, Inr ())))"

section \<open>Replacing a cluster that is gone\<close>

definition COORDINATOR_COLLECTIVE_PROBE_OWNER :: string where "COORDINATOR_COLLECTIVE_PROBE_OWNER = ''coordinator''"

definition ResetCollectiveProbeProgress :: "TopologyController \<Rightarrow> TopologyController" where
  "ResetCollectiveProbeProgress ctl =
     ctl\<lparr>tc_collectiveProbeTopologyVersion := None, tc_collectiveProbeOwner := None,
         tc_collectiveProbeControlEpoch := None, tc_collectiveUnreachableSamples := {}\<rparr>"

fun summarize_loop ::
  "(string \<rightharpoonup> int) \<Rightarrow> MembershipRecord list \<Rightarrow> nat \<Rightarrow> string option \<Rightarrow> nat \<times> string option" where
  "summarize_loop quarantined [] readyCount owner = (readyCount, owner)"
| "summarize_loop quarantined (rec # rest) readyCount owner =
     (if mr_state rec \<noteq> READY then summarize_loop quarantined rest readyCount owner
      else if (case quarantined (mr_address rec) of None \<Rightarrow> False | Some t \<Rightarrow> mr_timestamp rec \<le> t)
      then summarize_loop quarantined rest readyCount owner
      else summarize_loop quarantined rest (readyCount + 1)
             (case owner of
                None \<Rightarrow> Some (mr_address rec)
              | Some a \<Rightarrow> if mr_address rec < a then Some (mr_address rec) else owner))"

definition SummarizeCollectiveReadyMemberships ::
  "TopologyControllerOptions \<Rightarrow> MembershipRecord list \<Rightarrow> TopologyController \<Rightarrow> nat \<times> string option" where
  "SummarizeCollectiveReadyMemberships options memberships ctl =
     (case summarize_loop (tc_quarantined ctl) memberships 0 None of (readyCount, owner) \<Rightarrow>
        (readyCount, if readyCount > 0 \<and> opt_eventSourceMode options = EXTERNAL
                     then Some COORDINATOR_COLLECTIVE_PROBE_OWNER else owner))"

text \<open>
  \<open>exact\<close> is what \<^verbatim>\<open>ReadMemberships\<close> returns. \<open>fence\<close> is the callback \<^verbatim>\<open>collectiveReplacementFence\<close>, if there is one: for
  an epoch it either fails without running the commit, or runs it and makes its own status of the answer.
\<close>

definition BootstrapCollectiveReplacement ::
  "TopologyControllerOptions \<Rightarrow> re2 \<Rightarrow> (string \<Rightarrow> string result) \<Rightarrow> IPlanningAlgorithm \<Rightarrow> nat \<Rightarrow> (TopologyState \<Rightarrow> unit result)
     \<Rightarrow> (64 word \<Rightarrow> (unit result \<Rightarrow> unit result) result) option \<Rightarrow> int \<Rightarrow> MembershipRecord list result \<Rightarrow> TopologySnapshot
     \<Rightarrow> TopologyFailureClassifier \<Rightarrow> TopologyController \<Rightarrow> TopologyFailureClassifier \<times> outcome" where
  "BootstrapCollectiveReplacement options re sha256 alg tokens_flag commit fence now exact latest classifier ctl =
     (case exact of
        Inl e \<Rightarrow> (Pause classifier now, ctl, None, Inl e)
      | Inr exactMemberships \<Rightarrow>
      (case SummarizeCollectiveReadyMemberships options exactMemberships ctl of (exactReadyCount, exactOwner) \<Rightarrow>
         let returned = filter (\<lambda>r. case FindMemberByAddress latest (mr_address r) of
                                      Inl _ \<Rightarrow> False
                                    | Inr m \<Rightarrow> m_state m = ACTIVE \<or> m_state m = PRE_LEAVING \<or> m_state m = LEAVING)
                          exactMemberships;
             classifier1 = foldl (\<lambda>c r. ResetMissing c (mr_address r)) classifier returned
         in if returned \<noteq> [] \<or> exactReadyCount = 0 \<or> exactOwner \<noteq> tc_collectiveProbeOwner ctl
            then (classifier1, ResetCollectiveProbeProgress ctl, None, Inr ())
            else
            (case CollectMembershipFacts exactMemberships ctl of (ctl1, exiting, ready) \<Rightarrow>
             case ApplyReadyMembershipFacts options re sha256 \<lparr>ts_clusterHasInit = ts_clusterHasInit (sn_state latest),
                    ts_version = ts_version (sn_state latest), ts_members = [], ts_activeBatch = None\<rparr> ready [] 0 of
               Inl e \<Rightarrow> (classifier1, ctl1, None, Inl e)
             | Inr (emptyState, admitted, changed) \<Rightarrow>
             (case BuildBootstrap alg tokens_flag emptyState admitted of
                Inl e \<Rightarrow> (classifier1, ctl1, None, Inl e)
              | Inr next \<Rightarrow>
              (case (case fence of
                       None \<Rightarrow> hand_over commit next ctl1
                     | Some f \<Rightarrow>
                         (case tc_collectiveProbeControlEpoch ctl1 of
                            None \<Rightarrow> (ctl1, None, Inl K_NOT_READY)
                          | Some epoch \<Rightarrow>
                              (case f epoch of
                                 Inl e \<Rightarrow> (ctl1, None, Inl e)
                               | Inr answer \<Rightarrow>
                                   (case hand_over commit next ctl1 of (ctl2, candidate, rc) \<Rightarrow> (ctl2, candidate, answer rc))))) of
                 (ctl2, candidate, rc) \<Rightarrow>
                   (classifier1, if rc = Inr () \<or> rc = Inl K_TRY_AGAIN then ResetCollectiveProbeProgress ctl2 else ctl2,
                    candidate, rc))))))"

section \<open>Progress of a batch\<close>

text \<open>
  One slice of reads: \<open>elapsed i\<close> is the time since the start of the slice when the loop tests its budget for the \<open>i\<close>-th
  time, \<open>read i\<close> is the answer of \<^verbatim>\<open>ReadTask\<close> in the \<open>i\<close>-th round.
\<close>

function progress_loop ::
  "nat \<Rightarrow> int \<Rightarrow> (nat \<Rightarrow> int) \<Rightarrow> (nat \<Rightarrow> TopologyTask \<Rightarrow> TopologyTask result) \<Rightarrow> TopologyTask list \<Rightarrow> nat \<Rightarrow> nat
     \<Rightarrow> nat \<Rightarrow> nat \<Rightarrow> string list \<Rightarrow> string list \<times> nat result" where
  "progress_loop maxReads budget elapsed read tasks start remaining visited reads finished =
     (if visited < remaining \<and> reads < maxReads \<and> elapsed visited < budget
      then let task = tasks ! ((start + visited) mod length tasks)
           in if task_id task \<in> set finished
              then progress_loop maxReads budget elapsed read tasks start remaining (visited + 1) reads finished
              else case read visited task of
                     Inl e \<Rightarrow>
                       if e \<noteq> K_NOT_FOUND then (finished, Inl e)
                       else progress_loop maxReads budget elapsed read tasks start remaining (visited + 1) (reads + 1) finished
                   | Inr observed \<Rightarrow>
                       progress_loop maxReads budget elapsed read tasks start remaining (visited + 1) (reads + 1)
                         (if TaskFinished observed then task_id task # finished else finished)
      else (finished, Inr visited))"
  by pat_completeness auto
termination by (relation "measure (\<lambda>(_, _, _, _, _, _, remaining, visited, _). remaining - visited)") auto

definition RefreshTaskProgressCache ::
  "TopologyControllerOptions \<Rightarrow> (nat \<Rightarrow> int) \<Rightarrow> (nat \<Rightarrow> TopologyTask \<Rightarrow> TopologyTask result) \<Rightarrow> ActiveBatch \<Rightarrow> ExpectedDerivedState
     \<Rightarrow> TopologyController \<Rightarrow> TopologyController \<times> unit result" where
  "RefreshTaskProgressCache options elapsed read batch expected ctl0 =
     (let tasks = ed_tasks expected;
          total = length tasks;
          ctl = (if tc_progressBatchEpoch ctl0 \<noteq> ab_epoch batch
                    \<or> tc_progressTopologyVersion ctl0 \<noteq> tc_derivedTopologyVersion ctl0
                 then ctl0\<lparr>tc_progressTopologyVersion := tc_derivedTopologyVersion ctl0,
                           tc_progressBatchEpoch := ab_epoch batch, tc_progressReadCursor := 0,
                           tc_progressSweepRemaining := total, tc_progressWorkPending := (tasks \<noteq> []),
                           tc_finishedTaskIds := []\<rparr>
                 else ctl0)
      in if total = 0
         then (ctl\<lparr>tc_progressReadCursor := 0, tc_progressSweepRemaining := 0, tc_progressWorkPending := False\<rparr>, Inr ())
         else
           let remaining = (if tc_progressSweepRemaining ctl = 0 then total else min (tc_progressSweepRemaining ctl) total);
               start = tc_progressReadCursor ctl mod total
           in case progress_loop (opt_maxProgressReadsPerTick options) (opt_derivedSliceBudget options) elapsed read tasks
                     start remaining 0 0 (tc_finishedTaskIds ctl) of
                (finished, Inl e) \<Rightarrow>
                  (ctl\<lparr>tc_progressSweepRemaining := remaining, tc_finishedTaskIds := finished\<rparr>, Inl e)
              | (finished, Inr visited) \<Rightarrow>
                  (ctl\<lparr>tc_finishedTaskIds := finished, tc_progressReadCursor := (start + visited) mod total,
                       tc_progressSweepRemaining := remaining - visited,
                       tc_progressWorkPending := (remaining - visited > 0)\<rparr>, Inr ()))"

definition InspectBatchProgress ::
  "TopologyControllerOptions \<Rightarrow> (nat \<Rightarrow> int) \<Rightarrow> (nat \<Rightarrow> TopologyTask \<Rightarrow> TopologyTask result) \<Rightarrow> ActiveBatch \<Rightarrow> ExpectedDerivedState
     \<Rightarrow> TopologyController \<Rightarrow> TopologyController \<times> bool result" where
  "InspectBatchProgress options elapsed read batch expected ctl =
     (case RefreshTaskProgressCache options elapsed read batch expected ctl of
        (ctl', Inl e) \<Rightarrow> (ctl', Inl e)
      | (ctl', Inr _) \<Rightarrow> (ctl', Inr (length (tc_finishedTaskIds ctl') = length (ed_tasks expected))))"

section \<open>The end of a batch\<close>

definition CollectFailedJoining :: "TopologySnapshot \<Rightarrow> ExpectedDerivedState \<Rightarrow> TopologyController \<Rightarrow> MemberIdentity list" where
  "CollectFailedJoining latest expected ctl =
     (let incompleteTargets = concat (map (\<lambda>task. case task of
            MigrateTask v \<Rightarrow> if mt_taskId v \<notin> set (tc_finishedTaskIds ctl) then [mt_targetAddress v] else []
          | DeleteTask _ \<Rightarrow> []) (ed_tasks expected))
      in map m_identity (filter (\<lambda>m. m_state m = JOINING \<and> m_address m \<in> set incompleteTargets)
           (ts_members (sn_state latest))))"

definition CollectBatchParticipants :: "TopologySnapshot \<Rightarrow> TopologyChangeType \<Rightarrow> MemberIdentity list" where
  "CollectBatchParticipants latest type =
     map m_identity (filter (\<lambda>m. (type = SCALE_OUT \<and> m_state m = JOINING) \<or> (type = SCALE_IN \<and> m_state m = LEAVING)
       \<or> (type = FAILURE \<and> m_state m = FAILED)) (ts_members (sn_state latest)))"

definition quarantine ::
  "(string \<Rightarrow> string result) \<Rightarrow> MembershipRecord list \<Rightarrow> (string \<rightharpoonup> int) \<Rightarrow> MemberIdentity \<Rightarrow> (string \<rightharpoonup> int)" where
  "quarantine sha256 memberships quarantined identity =
     (case find (\<lambda>r. mr_address r = mi_address identity \<and> mr_state r = READY) memberships of
        None \<Rightarrow> quarantined
      | Some rec \<Rightarrow>
          if BuildMemberId sha256 rec = Inr (mi_id identity) then quarantined(mr_address rec \<mapsto> mr_timestamp rec)
          else quarantined)"

definition RememberQuarantinedReadyMembers ::
  "(string \<Rightarrow> string result) \<Rightarrow> MemberIdentity list \<Rightarrow> MembershipRecord list \<Rightarrow> TopologyController \<Rightarrow> TopologyController" where
  "RememberQuarantinedReadyMembers sha256 participants memberships ctl =
     ctl\<lparr>tc_quarantined := foldl (quarantine sha256 memberships) (tc_quarantined ctl) participants\<rparr>"

definition CommitBatchFinal ::
  "(string \<Rightarrow> string result) \<Rightarrow> (TopologyState \<Rightarrow> unit result) \<Rightarrow> TopologySnapshot \<Rightarrow> ActiveBatch \<Rightarrow> MembershipRecord list
     \<Rightarrow> TopologyController \<Rightarrow> outcome" where
  "CommitBatchFinal sha256 commit latest batch memberships ctl =
     (let participants = CollectBatchParticipants latest (ab_type batch)
      in case (if ab_type batch = SCALE_OUT then BuildScaleOutFinal (sn_state latest)
               else if ab_type batch = SCALE_IN then BuildScaleInFinal (sn_state latest)
               else BuildFailureFinal (sn_state latest)) of
           Inl e \<Rightarrow> (ctl, None, Inl e)
         | Inr next \<Rightarrow>
             (case hand_over commit next ctl of
                (ctl', candidate, Inl e) \<Rightarrow> (ctl', candidate, Inl e)
              | (ctl', candidate, Inr _) \<Rightarrow>
                  (if ab_type batch = SCALE_OUT \<or> ab_type batch = SCALE_IN then ctl'
                   else RememberQuarantinedReadyMembers sha256 participants memberships ctl', candidate, Inr ())))"

definition CommitScaleOutExhaustion ::
  "IPlanningAlgorithm \<Rightarrow> nat \<Rightarrow> (string \<Rightarrow> string result) \<Rightarrow> (TopologyState \<Rightarrow> unit result) \<Rightarrow> TopologySnapshot
     \<Rightarrow> MemberIdentity list \<Rightarrow> MembershipRecord list \<Rightarrow> TopologyController \<Rightarrow> outcome" where
  "CommitScaleOutExhaustion alg tokens_flag sha256 commit latest failedJoining memberships ctl =
     (if failedJoining = [] then (ctl, None, Inl K_INVALID)
      else let ctl1 = RememberQuarantinedReadyMembers sha256 failedJoining memberships ctl
           in case BuildScaleOutReplan alg tokens_flag (sn_state latest) failedJoining of
                Inl e \<Rightarrow> (ctl1, None, Inl e)
              | Inr plan \<Rightarrow> hand_over commit (tp_next plan) ctl1)"

definition CommitExpiredBatch ::
  "IPlanningAlgorithm \<Rightarrow> nat \<Rightarrow> (string \<Rightarrow> string result) \<Rightarrow> (TopologyState \<Rightarrow> unit result) \<Rightarrow> TopologySnapshot \<Rightarrow> ActiveBatch
     \<Rightarrow> MemberIdentity list \<Rightarrow> MembershipRecord list \<Rightarrow> TopologyController \<Rightarrow> outcome" where
  "CommitExpiredBatch alg tokens_flag sha256 commit latest batch failedJoining memberships ctl =
     (let ctl1 = ctl\<lparr>tc_loggedExpiredBatchEpoch := ab_epoch batch\<rparr>
      in if ab_type batch = SCALE_OUT
         then CommitScaleOutExhaustion alg tokens_flag sha256 commit latest failedJoining memberships ctl1
         else if ab_type batch = SCALE_IN
         then (ctl1\<lparr>tc_loggedScaleInWaitEpoch := ab_epoch batch\<rparr>, None, Inr ())
         else CommitBatchFinal sha256 commit latest batch memberships ctl1)"

definition reset_progress :: "TopologyController \<Rightarrow> TopologyController" where
  "reset_progress ctl =
     ctl\<lparr>tc_batchDeadline := None, tc_progressReadCursor := 0, tc_progressSweepRemaining := 0,
         tc_progressTopologyVersion := 0, tc_progressBatchEpoch := 0, tc_progressWorkPending := False,
         tc_finishedTaskIds := []\<rparr>"

definition set_deadline :: "TopologyControllerOptions \<Rightarrow> int \<Rightarrow> ActiveBatch \<Rightarrow> TopologyController \<Rightarrow> TopologyController" where
  "set_deadline options now batch ctl =
     (let keep = (case tc_batchDeadline ctl of
                    None \<Rightarrow> False
                  | Some d \<Rightarrow> bd_batch d = batch \<or> ab_type (bd_batch d) = FAILURE \<and> ab_type batch = FAILURE);
          window = (if ab_type batch = FAILURE then opt_failureBatchWindow options else opt_ordinaryBatchWindow options)
      in if keep then ctl else ctl\<lparr>tc_batchDeadline := Some \<lparr>bd_batch = batch, bd_deadline = now + window\<rparr>\<rparr>)"

definition TryFinalizeActiveBatch ::
  "TopologyControllerOptions \<Rightarrow> IPlanningAlgorithm \<Rightarrow> nat \<Rightarrow> (string \<Rightarrow> string result) \<Rightarrow> (TopologyState \<Rightarrow> unit result) \<Rightarrow> int
     \<Rightarrow> (nat \<Rightarrow> int) \<Rightarrow> (nat \<Rightarrow> TopologyTask \<Rightarrow> TopologyTask result) \<Rightarrow> TopologySnapshot \<Rightarrow> MembershipRecord list
     \<Rightarrow> TopologyController \<Rightarrow> outcome" where
  "TryFinalizeActiveBatch options alg tokens_flag sha256 commit now elapsed read latest memberships ctl =
     (case ts_activeBatch (sn_state latest) of
        None \<Rightarrow> (reset_progress ctl, None, Inr ())
      | Some batch \<Rightarrow>
          if tc_derivedTopologyVersion ctl \<noteq> ts_version (sn_state latest) then (ctl, None, Inl K_TRY_AGAIN)
          else if tc_derivedWorkPending ctl then (ctl, None, Inr ())
          else
            let expected = tc_expectedDerivedState ctl
            in case InspectBatchProgress options elapsed read batch expected ctl of
                 (ctl1, Inl e) \<Rightarrow> (ctl1, None, Inl e)
               | (ctl1, Inr complete) \<Rightarrow>
                   let ctl2 = set_deadline options now batch ctl1
                   in if complete then CommitBatchFinal sha256 commit latest batch memberships ctl2
                      else if tc_progressWorkPending ctl2 then (ctl2, None, Inr ())
                      else if now < bd_deadline (the (tc_batchDeadline ctl2)) then (ctl2, None, Inr ())
                      else CommitExpiredBatch alg tokens_flag sha256 commit latest batch
                             (if ab_type batch = SCALE_OUT then CollectFailedJoining latest expected ctl2 else [])
                             memberships ctl2)"

section \<open>The start of a batch\<close>

definition CommitBatchStart ::
  "IPlanningAlgorithm \<Rightarrow> nat \<Rightarrow> (TopologyState \<Rightarrow> unit result) \<Rightarrow> TopologyState \<Rightarrow> MemberIdentity list \<Rightarrow> TopologyChangeType
     \<Rightarrow> bool \<Rightarrow> TopologyController \<Rightarrow> outcome" where
  "CommitBatchStart alg tokens_flag commit state participants type bootstrap ctl =
     (case (if bootstrap then BuildBootstrap alg tokens_flag state participants
            else if type = SCALE_OUT then map_sum id tp_next (BuildScaleOutStart alg tokens_flag state participants)
            else if type \<noteq> SCALE_IN then Inl K_INVALID
            else map_sum id tp_next (BuildScaleInStart alg state participants)) of
        Inl e \<Rightarrow> (ctl, None, Inl e)
      | Inr next \<Rightarrow> hand_over commit next ctl)"

definition TryStartBatchAfterCollection ::
  "TopologyControllerOptions \<Rightarrow> IPlanningAlgorithm \<Rightarrow> nat \<Rightarrow> (TopologyState \<Rightarrow> unit result) \<Rightarrow> (nat \<Rightarrow> int) \<Rightarrow> TopologyState
     \<Rightarrow> MemberIdentity list \<Rightarrow> TopologyChangeType \<Rightarrow> bool \<Rightarrow> TopologyController \<Rightarrow> outcome" where
  "TryStartBatchAfterCollection options alg tokens_flag commit clk state participants type bootstrap ctl =
     (if \<not> (type = SCALE_IN \<or> type = SCALE_OUT) then (ctl, None, Inl K_INVALID)
      else if \<not> (\<not> bootstrap \<or> type = SCALE_OUT) then (ctl, None, Inl K_INVALID)
      else
        let window = (if type = SCALE_IN then opt_scaleInCollectWindow options else opt_scaleOutCollectWindow options);
            collect = (if type = SCALE_IN then tc_scaleInCollect ctl else tc_scaleOutCollect ctl);
            put = (\<lambda>c. if type = SCALE_IN then ctl\<lparr>tc_scaleInCollect := c\<rparr> else ctl\<lparr>tc_scaleOutCollect := c\<rparr>)
        in if window = 0 then CommitBatchStart alg tokens_flag commit state participants type bootstrap ctl
           else
             let b = (case collect of None \<Rightarrow> collect_window (clk 0 + window) | Some b \<Rightarrow> b);
                 now = clk 1
             in if now < bc_deadline b then (put (Some (b\<lparr>bc_started := True\<rparr>)), None, Inr ())
                else CommitBatchStart alg tokens_flag commit state participants type bootstrap (put None))"

definition TryStartNextBatch ::
  "TopologyControllerOptions \<Rightarrow> IPlanningAlgorithm \<Rightarrow> nat \<Rightarrow> (TopologyState \<Rightarrow> unit result) \<Rightarrow> (nat \<Rightarrow> int) \<Rightarrow> TopologySnapshot
     \<Rightarrow> MembershipRecord list \<Rightarrow> TopologyController \<Rightarrow> outcome" where
  "TryStartNextBatch options alg tokens_flag commit clk latest memberships ctl =
     (if ts_activeBatch (sn_state latest) \<noteq> None then (ClearBatchCollectState SCALE_IN ctl, None, Inr ())
      else case CollectNextBatchCandidates options latest memberships of
        (leaving, joining) \<Rightarrow>
          if sn_committedMembers latest = [] \<and> joining \<noteq> []
          then TryStartBatchAfterCollection options alg tokens_flag commit clk (sn_state latest) joining SCALE_OUT True
                 (ClearBatchCollectState SCALE_IN ctl)
          else if joining \<noteq> []
          then TryStartBatchAfterCollection options alg tokens_flag commit clk (sn_state latest) joining SCALE_OUT False
                 (ClearBatchCollectState SCALE_IN ctl)
          else if leaving \<noteq> []
          then TryStartBatchAfterCollection options alg tokens_flag commit clk (sn_state latest) leaving SCALE_IN False
                 (ClearBatchCollectState SCALE_OUT ctl)
          else (ClearBatchCollectState SCALE_OUT (ClearBatchCollectState SCALE_IN ctl), None, Inr ()))"

section \<open>Published topologies\<close>

definition placed :: "Member list \<Rightarrow> bool" where
  "placed ms \<longleftrightarrow> (\<forall>m \<in> set ms. holds_tokens (m_state m) \<longrightarrow> m_tokens m \<noteq> []) \<and> one_direction ms"

lemma topology_inv_iff: "topology_inv re st \<longleftrightarrow> valid_topology re st \<and> placed (ts_members st)"
  by (auto simp: topology_inv_def valid_topology_def wf_members_def holds_tokens_def placed_def)

lemma placed_subset: "placed ms \<Longrightarrow> set ns \<subseteq> set ms \<Longrightarrow> placed ns"
  by (auto simp: placed_def one_direction_def)

lemma placed_map:
  assumes "placed ms"
    and "\<And>m. m \<in> set ms \<Longrightarrow> m_tokens (f m) = m_tokens m \<and> (holds_tokens (m_state (f m)) \<longrightarrow> holds_tokens (m_state m))
      \<and> (m_state (f m) = JOINING \<longrightarrow> m_state m = JOINING) \<and> (m_state (f m) = LEAVING \<longrightarrow> m_state m = LEAVING)"
  shows "placed (map f ms)"
  using assms unfolding placed_def one_direction_def by (simp add: image_iff) metis

lemma EraseMembers_simps [simp]:
  "ts_version (EraseMembers st xs) = ts_version st"
  "set (ts_members (EraseMembers st xs)) \<subseteq> set (ts_members st)"
  by (auto simp: EraseMembers_def)

lemma placed_erase: "placed (ts_members st) \<Longrightarrow> placed (ts_members (EraseMembers st xs))"
  by (erule placed_subset) simp

lemma hand_over_candidate [simp]: "fst (snd (hand_over commit d ctl)) = Some d"
  by (simp add: hand_over_def split: sum.splits)

lemma hand_over_then [simp]:
  "fst (snd (case hand_over commit d ctl of (a, b, Inl e) \<Rightarrow> (a, b, Inl e) | (a, b, Inr _) \<Rightarrow> (f a, b, Inr ()))) = Some d"
  by (simp add: hand_over_def split: sum.splits)

text \<open>Every topology a handler hands over has the next version and, if it is valid, is well placed.\<close>

definition candidate_ok :: "re2 \<Rightarrow> TopologyState \<Rightarrow> TopologyState option \<Rightarrow> bool" where
  "candidate_ok re st candidate \<longleftrightarrow>
     (case candidate of
        None \<Rightarrow> True
      | Some c \<Rightarrow> ts_version c = ts_version st + 1 \<and> (valid_topology re c \<longrightarrow> placed (ts_members c)))"

lemma candidate_ok_simps [simp]:
  "candidate_ok re st None"
  "candidate_ok re st (Some c) \<longleftrightarrow> ts_version c = ts_version st + 1 \<and> (valid_topology re c \<longrightarrow> placed (ts_members c))"
  by (simp_all add: candidate_ok_def)

lemma valid_publishable:
  assumes "topology_inv re st" "valid_topology re c" "ts_version c = ts_version st + 1"
  shows "publishable st"
proof (rule ccontr)
  assume "\<not> publishable st"
  moreover have "ts_version st \<le> 0x7FFFFFFFFFFFFFFF" using assms(1) by (simp add: topology_inv_def)
  ultimately have "ts_version st = 0x7FFFFFFFFFFFFFFF" by simp
  with assms(2,3) show False by (simp add: valid_topology_def)
qed

text \<open>The versions of the builders' results, whether or not the counter is at its bound.\<close>

lemma build_versions:
  "BuildScaleOutFinal st = Inr st' \<Longrightarrow> ts_version st' = ts_version st + 1"
  "BuildScaleInFinal st = Inr st' \<Longrightarrow> ts_version st' = ts_version st + 1"
  "BuildFailureFinal st = Inr st' \<Longrightarrow> ts_version st' = ts_version st + 1"
  "BuildClusterShutdownFinal st = Inr st' \<Longrightarrow> ts_version st' = ts_version st + 1"
  "BuildBootstrap alg k st xs = Inr st' \<Longrightarrow> ts_version st' = ts_version st + 1"
  "BuildScaleOutStart alg k st xs = Inr plan \<Longrightarrow> ts_version (tp_next plan) = ts_version st + 1"
  "BuildScaleOutReplan alg k st xs = Inr plan \<Longrightarrow> ts_version (tp_next plan) = ts_version st + 1"
  "BuildScaleInStart alg st xs = Inr plan \<Longrightarrow> ts_version (tp_next plan) = ts_version st + 1"
  "BuildFailureStartOrReplan alg st xs = Inr plan \<Longrightarrow> ts_version (tp_next plan) = ts_version st + 1"
  by (auto simp: BuildScaleOutFinal_def BuildScaleInFinal_def BuildFailureFinal_def BuildClusterShutdownFinal_def
      BuildBootstrap_def BuildScaleOutStart_def BuildScaleOutReplan_def BuildScaleInStart_def BuildFailureStartOrReplan_def
      Let_def split: if_splits sum.splits option.splits)

lemma built_candidate:
  assumes "topology_inv re st" "ts_version c = ts_version st + 1"
    and "publishable st \<Longrightarrow> topology_inv re c \<and> ts_version c = ts_version st + 1"
  shows "candidate_ok re st (Some c)"
  using assms(2) assms(3) [OF valid_publishable [OF assms(1) _ assms(2)]] by (auto simp: topology_inv_iff)

lemma failure_placed:
  assumes alg: "planning_algorithm alg" and inv: "topology_inv re st" and p: "publishable st"
    and b: "BuildFailureStartOrReplan alg st confirmed = Inr plan"
  shows "placed (ts_members (tp_next plan))"
proof (cases "confirmed \<noteq> [] \<and> set confirmed \<subseteq> m_identity ` set (ts_members st)")
  case True
  with planning_algorithm.failure_inv [OF alg inv p b] have "topology_inv re (tp_next plan)" by blast
  then show ?thesis by (simp add: topology_inv_iff)
next
  case False
  have "alg_PlanFailure alg \<lparr>fp_current = st\<lparr>ts_members := map revive_failed (ts_members st)\<rparr>, fp_failed = confirmed\<rparr> \<noteq> Inr built" for built
  proof
    assume "alg_PlanFailure alg \<lparr>fp_current = st\<lparr>ts_members := map revive_failed (ts_members st)\<rparr>, fp_failed = confirmed\<rparr> = Inr built"
    from planning_algorithm.failure_law [OF alg this] have "confirmed \<noteq> []"
      "set confirmed \<subseteq> m_identity ` revive_failed ` set (ts_members st)" by simp_all
    moreover have "m_identity (revive_failed m) = m_identity m" for m by (simp add: revive_failed_def)
    ultimately show False using False by (auto simp: image_image)
  qed
  then have "ts_members (tp_next plan) = map (fail_member (map mi_address confirmed)) (ts_members st)"
    using b by (auto simp: BuildFailureStartOrReplan_def Let_def split: if_splits sum.splits)
  moreover have "placed (ts_members st)" using inv by (simp add: topology_inv_iff)
  ultimately show ?thesis
    by (auto intro!: placed_map simp: fail_member_def holds_tokens_def IsCommittedMemberState_def split: if_splits)
qed

lemma map_sum_Inr: "map_sum id f x = Inr y \<longleftrightarrow> (\<exists>z. x = Inr z \<and> y = f z)"
  by (cases x) auto

lemma placed_candidate:
  assumes "topology_inv re st" "ts_version c = ts_version st + 1" "publishable st \<Longrightarrow> placed (ts_members c)"
  shows "candidate_ok re st (Some c)"
  using assms(2) assms(3) [OF valid_publishable [OF assms(1) _ assms(2)]] by auto

lemma shutdown_candidate:
  assumes "topology_inv re (sn_state latest)"
  shows "candidate_ok re (sn_state latest) (fst (snd (CommitClusterShutdown commit latest ctl)))"
  by (auto simp: CommitClusterShutdown_def BuildClusterShutdownFinal_def placed_def one_direction_def Let_def split: sum.splits if_splits)

lemma failures_candidate:
  assumes "planning_algorithm alg" "topology_inv re (sn_state latest)"
  shows "candidate_ok re (sn_state latest) (fst (snd (CommitConfirmedFailures options alg commit latest cls ctl)))"
proof -
  have "candidate_ok re (sn_state latest) (Some (EraseMembers (EraseMembers (tp_next plan) xs) ys))"
    if "BuildFailureStartOrReplan alg (sn_state latest) confirmed = Inr plan" for plan xs ys confirmed
    by (rule placed_candidate [OF assms(2)])
      (use build_versions(9) [OF that] failure_placed [OF assms _ that] in \<open>auto intro: placed_erase\<close>)
  then show ?thesis by (auto simp: CommitConfirmedFailures_def Let_def split: sum.splits)
qed

lemma cleanup_candidate:
  assumes "planning_algorithm alg" "topology_inv re (sn_state latest)"
  shows "candidate_ok re (sn_state latest) (fst (snd (CommitUncommittedCleanup alg k commit latest cls ctl)))"
proof -
  let ?st = "sn_state latest"
  have replan: "candidate_ok re ?st (Some (EraseMembers (tp_next plan) xs))"
    if "BuildScaleOutReplan alg k ?st failed = Inr plan" for plan xs failed
    by (rule placed_candidate [OF assms(2)])
      (use build_versions(7) [OF that] planning_algorithm.scale_out_replan_inv [OF assms _ that] in
        \<open>auto simp: topology_inv_iff intro: placed_erase\<close>)
  have failure: "candidate_ok re ?st (Some (EraseMembers (EraseMembers (tp_next plan) ys) xs))"
    if "BuildFailureStartOrReplan alg ?st failed = Inr plan" for plan xs ys failed
    by (rule placed_candidate [OF assms(2)])
      (use build_versions(9) [OF that] failure_placed [OF assms _ that] in \<open>auto intro: placed_erase\<close>)
  have plain: "candidate_ok re ?st (Some (EraseMembers (?st\<lparr>ts_version := ts_version ?st + 1\<rparr>) xs))" for xs
    by (rule placed_candidate [OF assms(2)]) (use assms(2) in \<open>auto simp: topology_inv_iff intro!: placed_erase\<close>)
  show ?thesis
    using replan failure plain
    by (auto simp: CommitUncommittedCleanup_def Let_def map_sum_Inr simp del: candidate_ok_simps(2) split: sum.splits)
qed

lemma placed_dominated:
  assumes "placed ms"
    and "\<And>n. n \<in> set ns \<Longrightarrow> m_state n = INITIAL \<or> (\<exists>m \<in> set ms. m_tokens n = m_tokens m
      \<and> (n = m \<or> m_state m = ACTIVE \<and> m_state n = PRE_LEAVING))"
  shows "placed ns"
proof -
  have "holds_tokens (m_state n) \<longrightarrow> m_tokens n \<noteq> []" if "n \<in> set ns" for n
    using assms(1) assms(2) [OF that] by (auto simp: placed_def holds_tokens_def IsCommittedMemberState_def)
  moreover have "one_direction ns"
    using assms(1) assms(2) unfolding placed_def one_direction_def by (metis MemberState.distinct)
  ultimately show ?thesis by (simp add: placed_def)
qed

lemma exiting_loop_members:
  assumes "exiting_loop limit exiting ms changed = (ms', admitted, changed')" "n \<in> set ms'"
  shows "\<exists>m \<in> set ms. m_tokens n = m_tokens m \<and> (n = m \<or> m_state m = ACTIVE \<and> m_state n = PRE_LEAVING)"
  using assms
  by (induction ms arbitrary: changed ms' admitted changed') (force split: if_splits prod.splits)+

lemma ready_loop_members:
  assumes "ready_loop re sha256 limit ready known members admitted changed = Inr (members', admitted', changed')" "n \<in> set members'"
  shows "n \<in> set members \<or> m_state n = INITIAL"
  using assms
  by (induction ready arbitrary: known members admitted changed)
    (fastforce simp: Let_def split: if_splits sum.splits)+

lemma facts_candidate:
  assumes "topology_inv re (sn_state latest)"
  shows "candidate_ok re (sn_state latest)
    (fst (snd (CommitMembershipFacts options re' sha256 commit clk latest memberships ctl)))"
proof -
  let ?st = "sn_state latest"
  have pl: "placed (ts_members ?st)" using assms by (simp add: topology_inv_iff)
  obtain ctl1 exiting ready where f: "CollectMembershipFacts memberships ctl = (ctl1, exiting, ready)" by (metis prod_cases3)
  obtain nx known leaving changed
    where e: "ApplyExitingMembershipFacts options (?st\<lparr>ts_version := ts_version ?st + 1\<rparr>) exiting = (nx, known, leaving, changed)"
    by (metis prod_cases4)
  have nx: "ts_version nx = ts_version ?st + 1" "\<And>n. n \<in> set (ts_members nx) \<Longrightarrow>
      \<exists>m \<in> set (ts_members ?st). m_tokens n = m_tokens m \<and> (n = m \<or> m_state m = ACTIVE \<and> m_state n = PRE_LEAVING)"
    using e exiting_loop_members unfolding ApplyExitingMembershipFacts_def by (auto split: prod.splits)
  obtain ctl2 admit where a: "ShouldApplyReadyScaleOutAdmission options (clk 0) latest ready known ctl1 = (ctl2, admit)"
    by (rule prod.exhaust)
  let ?r = "if admit then ApplyReadyMembershipFacts options re' sha256 nx ready known changed else Inr (nx, [], changed)"
  have r: "ts_version nx' = ts_version ?st + 1 \<and> placed (ts_members nx')" if "?r = Inr (nx', joining, changed')" for nx' joining changed'
  proof -
    have "ts_version nx' = ts_version nx \<and> (\<forall>n \<in> set (ts_members nx'). n \<in> set (ts_members nx) \<or> m_state n = INITIAL)"
      using that ready_loop_members
      by (fastforce simp: ApplyReadyMembershipFacts_def split: if_splits sum.splits)
    then show ?thesis using nx by (auto intro!: placed_dominated [OF pl])
  qed
  show ?thesis
  proof (cases ?r)
    case (Inl err)
    then show ?thesis unfolding CommitMembershipFacts_def f e a prod.case by simp
  next
    case (Inr p)
    obtain nx' joining changed' where p: "p = (nx', joining, changed')" by (cases p)
    from r [OF Inr [unfolded p]] show ?thesis
      unfolding CommitMembershipFacts_def f e a prod.case Inr p sum.case by simp
  qed
qed

lemma final_candidate:
  assumes "topology_inv re (sn_state latest)"
  shows "candidate_ok re (sn_state latest) (fst (snd (CommitBatchFinal sha256 commit latest batch memberships ctl)))"
proof -
  let ?b = "if ab_type batch = SCALE_OUT then BuildScaleOutFinal (sn_state latest)
         else if ab_type batch = SCALE_IN then BuildScaleInFinal (sn_state latest)
         else BuildFailureFinal (sn_state latest)"
  show ?thesis
  proof (cases ?b)
    case (Inl e)
    then show ?thesis unfolding CommitBatchFinal_def Let_def Inl sum.case by simp
  next
    case (Inr c)
    consider "BuildScaleOutFinal (sn_state latest) = Inr c" | "BuildScaleInFinal (sn_state latest) = Inr c"
      | "BuildFailureFinal (sn_state latest) = Inr c" using Inr by (auto split: if_splits)
    then have "candidate_ok re (sn_state latest) (Some c)"
    proof cases
      case 1 show ?thesis
        by (rule built_candidate [OF assms build_versions(1) [OF 1] scale_out_final_inv [OF assms _ 1]])
    next
      case 2 show ?thesis
        by (rule built_candidate [OF assms build_versions(2) [OF 2] scale_in_final_inv [OF assms _ 2]])
    next
      case 3 show ?thesis
        by (rule built_candidate [OF assms build_versions(3) [OF 3] failure_final_inv [OF assms _ 3]])
    qed
    then show ?thesis unfolding CommitBatchFinal_def Let_def Inr sum.case hand_over_then .
  qed
qed

lemma exhaustion_candidate:
  assumes "planning_algorithm alg" "topology_inv re (sn_state latest)"
  shows "candidate_ok re (sn_state latest)
    (fst (snd (CommitScaleOutExhaustion alg k sha256 commit latest failed memberships ctl)))"
proof (cases "BuildScaleOutReplan alg k (sn_state latest) failed")
  case (Inl e)
  then show ?thesis by (simp add: CommitScaleOutExhaustion_def)
next
  case (Inr plan)
  have "candidate_ok re (sn_state latest) (Some (tp_next plan))"
    by (rule built_candidate [OF assms(2) build_versions(7) [OF Inr]])
      (use planning_algorithm.scale_out_replan_inv [OF assms _ Inr] in blast)
  with Inr show ?thesis by (simp add: CommitScaleOutExhaustion_def)
qed

lemma finalize_candidate:
  assumes "planning_algorithm alg" "topology_inv re (sn_state latest)"
  shows "candidate_ok re (sn_state latest)
    (fst (snd (TryFinalizeActiveBatch options alg k sha256 commit now elapsed read latest memberships ctl)))"
proof -
  have expired: "candidate_ok re (sn_state latest)
      (fst (snd (CommitExpiredBatch alg k sha256 commit latest batch failed memberships c)))" for batch failed c
    using exhaustion_candidate [OF assms] final_candidate [OF assms(2)]
    by (simp add: CommitExpiredBatch_def Let_def)
  show ?thesis
    using expired final_candidate [OF assms(2)]
    by (simp add: TryFinalizeActiveBatch_def Let_def split: option.split prod.split sum.split)
qed

lemma batch_start_candidate:
  assumes "planning_algorithm alg" "topology_inv re st"
  shows "candidate_ok re st (fst (snd (CommitBatchStart alg k commit st participants type bootstrap ctl)))"
proof -
  have boot: "candidate_ok re st (Some c)" if "BuildBootstrap alg k st participants = Inr c" for c
    by (rule built_candidate [OF assms(2) build_versions(5) [OF that] planning_algorithm.bootstrap_inv [OF assms _ that]])
  have out: "candidate_ok re st (Some (tp_next plan))" if "BuildScaleOutStart alg k st participants = Inr plan" for plan
    by (rule built_candidate [OF assms(2) build_versions(6) [OF that] planning_algorithm.scale_out_start_inv [OF assms _ that]])
  have "in": "candidate_ok re st (Some (tp_next plan))" if "BuildScaleInStart alg st participants = Inr plan" for plan
    by (rule built_candidate [OF assms(2) build_versions(8) [OF that]])
      (use planning_algorithm.scale_in_start_inv [OF assms _ that] in blast)
  show ?thesis
    using boot out "in"
    by (auto simp: CommitBatchStart_def map_sum_Inr simp del: candidate_ok_simps(2) split: sum.split)
qed

lemma start_candidate:
  assumes "planning_algorithm alg" "topology_inv re (sn_state latest)"
  shows "candidate_ok re (sn_state latest)
    (fst (snd (TryStartNextBatch options alg k commit clk latest memberships ctl)))"
proof -
  have "candidate_ok re (sn_state latest) (fst (snd (TryStartBatchAfterCollection options alg k commit clk (sn_state latest)
      participants type bootstrap c)))" for participants type bootstrap c
    using batch_start_candidate [OF assms] by (simp add: TryStartBatchAfterCollection_def Let_def)
  then show ?thesis by (simp add: TryStartNextBatch_def split: prod.split)
qed

lemma bootstrap_placed:
  assumes "planning_algorithm alg" "BuildBootstrap alg k st ready = Inr c" "\<forall>m \<in> set (ts_members st). m_state m = INITIAL"
  shows "placed (ts_members c)"
proof -
  from assms(2) obtain built
    where b: "alg_BuildInitialPlacement alg \<lparr>so_current = empty_topology, so_joining = ready, so_tokensPerMember = k\<rparr> = Inr built"
    and c: "ts_members c = ts_members (tp_next built) @ filter (\<lambda>m. m_address m \<notin> set (map mi_address ready)) (ts_members st)"
    by (auto simp: BuildBootstrap_def Let_def split: sum.splits if_splits)
  have "m_state m = ACTIVE \<and> m_tokens m \<noteq> [] \<or> m_state m = INITIAL" if "m \<in> set (ts_members c)" for m
    using that planning_algorithm.initial_law [OF assms(1) b] assms(3) by (auto simp: c)
  then show ?thesis
    unfolding placed_def one_direction_def holds_tokens_def IsCommittedMemberState_def
    by (metis MemberState.distinct)
qed

lemma collective_candidate:
  assumes "planning_algorithm alg"
  shows "candidate_ok re (sn_state latest) (fst (snd (snd
    (BootstrapCollectiveReplacement options re' sha256 alg k commit fence now exact latest classifier ctl))))"
proof -
  have ok: "candidate_ok re (sn_state latest) (Some c)"
    if r: "ApplyReadyMembershipFacts options re' sha256 \<lparr>ts_clusterHasInit = ts_clusterHasInit (sn_state latest),
        ts_version = ts_version (sn_state latest), ts_members = [], ts_activeBatch = None\<rparr> ready [] 0 = Inr (st, admitted, changed)"
      and b: "BuildBootstrap alg k st admitted = Inr c" for ready st admitted changed c
  proof -
    have "ts_version st = ts_version (sn_state latest)" "\<forall>m \<in> set (ts_members st). m_state m = INITIAL"
      using r ready_loop_members by (fastforce simp: ApplyReadyMembershipFacts_def split: sum.splits)+
    then show ?thesis using bootstrap_placed [OF assms b] build_versions(5) [OF b] by simp
  qed
  show ?thesis
    unfolding BootstrapCollectiveReplacement_def
    by (auto simp: Let_def hand_over_def ok simp del: candidate_ok_simps(2) split: sum.split prod.split option.split)
qed

section \<open>Runs of the controller\<close>

text \<open>
  The handlers that hand a topology over, each on a snapshot \<open>latest\<close>. The classification, the clock, the reads and
  the answers of the repository and of the fence are arbitrary.
\<close>

inductive handler ::
  "TopologyControllerOptions \<Rightarrow> re2 \<Rightarrow> IPlanningAlgorithm \<Rightarrow> nat \<Rightarrow> (string \<Rightarrow> string result) \<Rightarrow> TopologySnapshot
     \<Rightarrow> TopologyController \<Rightarrow> TopologyController \<Rightarrow> TopologyState option \<Rightarrow> bool"
  for options re alg k sha256 latest where
  shutdown: "AllMembersExiting latest memberships \<Longrightarrow> CommitClusterShutdown commit latest ctl = (ctl', candidate, status)
    \<Longrightarrow> handler options re alg k sha256 latest ctl ctl' candidate"
| failures: "CommitConfirmedFailures options alg commit latest classification ctl = (ctl', candidate, status)
    \<Longrightarrow> handler options re alg k sha256 latest ctl ctl' candidate"
| cleanup: "CommitUncommittedCleanup alg k commit latest classification ctl = (ctl', candidate, status)
    \<Longrightarrow> handler options re alg k sha256 latest ctl ctl' candidate"
| collective: "BootstrapCollectiveReplacement options re sha256 alg k commit fence now exact latest classifier ctl
      = (classifier', ctl', candidate, status)
    \<Longrightarrow> handler options re alg k sha256 latest ctl ctl' candidate"
| facts: "CommitMembershipFacts options re sha256 commit clk latest memberships ctl = (ctl', candidate, status)
    \<Longrightarrow> handler options re alg k sha256 latest ctl ctl' candidate"
| finalize: "TryFinalizeActiveBatch options alg k sha256 commit now elapsed read latest memberships ctl = (ctl', candidate, status)
    \<Longrightarrow> handler options re alg k sha256 latest ctl ctl' candidate"
| start: "TryStartNextBatch options alg k commit clk latest memberships ctl = (ctl', candidate, status)
    \<Longrightarrow> handler options re alg k sha256 latest ctl ctl' candidate"

text \<open>
  The topologies that were stored, the latest first. What the compare-and-swap of the repository makes of a candidate:
  nothing, or the candidate is stored, also when the answer was lost and the handler saw an error. It is
  stored only if the repository can encode it (\<open>stores\<close>), if its version follows the expected one, and if the topology it
  replaces has the expected version, or none is stored and the expected version is 0 (\<open>replaces\<close>).
\<close>

definition stored_version :: "TopologyState list \<Rightarrow> 64 word" where
  "stored_version H = (case H of [] \<Rightarrow> 0 | st # _ \<Rightarrow> ts_version st)"

definition stored_next ::
  "(TopologyState \<Rightarrow> bool) \<Rightarrow> 64 word \<Rightarrow> TopologyState option \<Rightarrow> TopologyState list \<Rightarrow> TopologyState list \<Rightarrow> bool" where
  "stored_next stores expectedVersion candidate H H' \<longleftrightarrow>
     H' = H \<or> (\<exists>c. candidate = Some c \<and> stores c \<and> ts_version c = expectedVersion + 1
                  \<and> stored_version H = expectedVersion \<and> H' = c # H)"

text \<open>
  A step of some controller: it establishes the authority, or it runs a handler on a snapshot of a topology that it has read at some
  time, which other controllers may have replaced since, and asks for the swap with the version of that snapshot.
\<close>

inductive controller_step ::
  "TopologyControllerOptions \<Rightarrow> re2 \<Rightarrow> IPlanningAlgorithm \<Rightarrow> nat \<Rightarrow> (string \<Rightarrow> string result) \<Rightarrow> (TopologyState \<Rightarrow> bool)
     \<Rightarrow> TopologyController \<times> TopologyState list \<Rightarrow> TopologyController \<times> TopologyState list \<Rightarrow> bool"
  for options re alg k sha256 stores where
  ensure: "stored_next stores 0 (Some initial_topology) H H'
    \<Longrightarrow> controller_step options re alg k sha256 stores (ctl, H) (ctl, H')"
| handle: "st \<in> set H \<Longrightarrow> Create re st rv dig = Inr latest \<Longrightarrow> handler options re alg k sha256 latest ctl ctl' candidate
    \<Longrightarrow> stored_next stores (ts_version (sn_state latest)) candidate H H'
    \<Longrightarrow> controller_step options re alg k sha256 stores (ctl, H) (ctl', H')"

lemma placed_canonical: "placed (ts_members st) \<Longrightarrow> placed (ts_members (canonical st))"
proof -
  have "sort xs = [] \<longleftrightarrow> xs = []" for xs :: "32 word list" by (metis length_0_conv length_sort)
  then show "placed (ts_members st) \<Longrightarrow> placed (ts_members (canonical st))"
    by (auto simp: placed_def one_direction_def canonical_def)
qed

lemma snapshot_inv:
  assumes "topology_inv re st" "Create re st rv dig = Inr latest"
  shows "topology_inv re (sn_state latest)" "ts_version (sn_state latest) = ts_version st"
proof -
  have "sn_state latest = canonical st" using assms(2) by (auto simp: Create_Inr)
  then show "topology_inv re (sn_state latest)" "ts_version (sn_state latest) = ts_version st"
    using assms(1) by (simp_all add: topology_inv_iff valid_canonical placed_canonical)
qed

lemma handler_candidate:
  assumes "planning_algorithm alg" "topology_inv re (sn_state latest)" "handler options re alg k sha256 latest ctl ctl' candidate"
  shows "candidate_ok re (sn_state latest) candidate"
  using assms(3)
proof cases
  case (shutdown memberships commit status)
  with shutdown_candidate [OF assms(2), of commit ctl] show ?thesis by simp
next
  case (failures commit classification status)
  with failures_candidate [OF assms(1,2), of options commit classification ctl] show ?thesis by simp
next
  case (cleanup commit classification status)
  with cleanup_candidate [OF assms(1,2), of k commit classification ctl] show ?thesis by simp
next
  case (collective commit fence now exact classifier classifier' status)
  with collective_candidate [OF assms(1), of re latest options re sha256 k commit fence now exact classifier ctl]
  show ?thesis by simp
next
  case (facts commit clk memberships status)
  with facts_candidate [OF assms(2), of options re sha256 commit clk memberships ctl] show ?thesis by simp
next
  case (finalize commit now elapsed read memberships status)
  with finalize_candidate [OF assms(1,2), of options k sha256 commit now elapsed read memberships ctl] show ?thesis by simp
next
  case (start commit clk memberships status)
  with start_candidate [OF assms(1,2), of options k commit clk memberships ctl] show ?thesis by simp
qed

text \<open>A topology that a handler made of another one.\<close>

definition made_from ::
  "TopologyControllerOptions \<Rightarrow> re2 \<Rightarrow> IPlanningAlgorithm \<Rightarrow> nat \<Rightarrow> (string \<Rightarrow> string result) \<Rightarrow> TopologyState \<Rightarrow> TopologyState \<Rightarrow> bool" where
  "made_from options re alg k sha256 c st \<longleftrightarrow>
     (\<exists>rv dig latest ctl ctl'. Create re st rv dig = Inr latest \<and> handler options re alg k sha256 latest ctl ctl' (Some c))"

definition history_ok ::
  "TopologyControllerOptions \<Rightarrow> re2 \<Rightarrow> IPlanningAlgorithm \<Rightarrow> nat \<Rightarrow> (string \<Rightarrow> string result) \<Rightarrow> TopologyState list \<Rightarrow> bool" where
  "history_ok options re alg k sha256 H \<longleftrightarrow> list_all (topology_inv re) H
     \<and> sorted_wrt (\<lambda>later earlier. ts_version earlier < ts_version later) H
     \<and> successively (made_from options re alg k sha256) H \<and> (H = [] \<or> last H = initial_topology)"

definition publish_step ::
  "TopologyControllerOptions \<Rightarrow> re2 \<Rightarrow> IPlanningAlgorithm \<Rightarrow> nat \<Rightarrow> (string \<Rightarrow> string result) \<Rightarrow> (TopologyState \<Rightarrow> bool)
     \<Rightarrow> TopologyState list \<Rightarrow> TopologyState list \<Rightarrow> bool" where
  "publish_step options re alg k sha256 stores H H' \<longleftrightarrow>
     (\<exists>ctl ctl'. controller_step options re alg k sha256 stores (ctl, H) (ctl', H'))"

lemma initial_topology_inv: "topology_inv re initial_topology"
  by (simp add: initial_topology_def topology_inv_def batch_states_ok_def wf_members_def one_direction_def)

text \<open>In a good history the version names the topology, so a handler whose swap succeeds worked on the one it replaces.\<close>

lemma current_by_version:
  assumes "history_ok options re alg k sha256 H" "st \<in> set H" "stored_version H = ts_version st"
  obtains rest where "H = st # rest"
  using assms by (cases H) (auto simp: history_ok_def stored_version_def)

text \<open>What the controller relies on: the repository stores valid topologies only.\<close>

locale topology_authority =
  fixes re :: re2 and stores :: "TopologyState \<Rightarrow> bool"
  assumes stored_valid: "stores st \<Longrightarrow> valid_topology re st"
begin

lemma step_history:
  assumes alg: "planning_algorithm alg" and ok: "history_ok options re alg k sha256 H"
    and step: "controller_step options re alg k sha256 stores (ctl, H) (ctl', H')"
  shows "history_ok options re alg k sha256 H'"
  using step
proof cases
  case ensure
  have "H = []" if "stored_version H = 0"
    using ok that by (cases H) (auto simp: history_ok_def stored_version_def topology_inv_def)
  with ensure ok show ?thesis by (auto simp: stored_next_def history_ok_def initial_topology_inv)
next
  case (handle st rv dig latest candidate)
  show ?thesis
  proof (cases "H' = H")
    case False
    have inv: "topology_inv re st" using ok handle(1) by (auto simp: history_ok_def list_all_iff)
    note latest = snapshot_inv [OF inv handle(2)]
    from handle(4) False obtain c where c: "candidate = Some c" "stores c" "stored_version H = ts_version st" "H' = c # H"
      by (auto simp: stored_next_def latest(2))
    obtain rest where H: "H = st # rest" by (rule current_by_version [OF ok handle(1) c(3)])
    have v: "valid_topology re c" using c(2) by (rule stored_valid)
    have cand: "ts_version c = ts_version st + 1" "placed (ts_members c)"
      using handler_candidate [OF alg latest(1) handle(3)] v c(1) latest(2) by simp_all
    have "publishable st" by (rule valid_publishable [OF inv v cand(1)])
    from next_version(3) [OF this] cand have up: "ts_version st < ts_version c" by simp
    have "made_from options re alg k sha256 c st" using handle(2,3) unfolding c(1) made_from_def by blast
    moreover have "topology_inv re c" using v cand(2) by (simp add: topology_inv_iff)
    ultimately show ?thesis using ok up by (auto simp: history_ok_def c(4) H)
  qed (use ok in simp)
qed

lemma run_history:
  assumes "planning_algorithm alg" "(publish_step options re alg k sha256 stores)\<^sup>*\<^sup>* [] H"
  shows "history_ok options re alg k sha256 H"
  using assms(2)
proof (induction rule: rtranclp_induct)
  case base
  then show ?case by (simp add: history_ok_def)
next
  case (step H1 H2)
  then obtain ctl ctl' where "controller_step options re alg k sha256 stores (ctl, H1) (ctl', H2)"
    by (auto simp: publish_step_def)
  from step_history [OF assms(1) step.IH this] show ?case .
qed

end

interpretation repo: topology_authority re "\<lambda>st. \<not> isl (EncodeTopology re wire st)" for re wire
  by unfold_locales (auto simp: EncodeTopology_eq split: if_splits)

text \<open>The repository indeed writes nothing for a candidate it cannot encode.\<close>

lemma refused_not_stored:
  "isl (EncodeTopology re wire desired) \<Longrightarrow>
   \<exists>e. CompareAndSwapTopology re wire keys ifc now v desired ar s = Some (s, no_cas_result, Inl e)"
  by (auto simp: CompareAndSwapTopology_def isl_def)

text \<open>
  C7. Whatever the controllers observe and however their writes are answered, the stored topologies form a good
  history. Start from an empty store and let any number of controllers, each in an arbitrary internal state, establish
  the authority and run the handlers that publish topologies, each on a snapshot that may long have been replaced.
  Then every stored topology satisfies the invariant of topologies, versions only grow, the first topology is the
  initial one, and every later one was computed from exactly the topology it replaced: no update is lost to a
  controller that worked on a stale snapshot.
\<close>

theorem controller_topologies_valid:
  assumes "(publish_step options re (HashAlgorithm re) k sha256 (\<lambda>st. \<not> isl (EncodeTopology re wire st)))\<^sup>*\<^sup>* [] H"
  shows "list_all (topology_inv re) H
    \<and> sorted_wrt (\<lambda>later earlier. ts_version earlier < ts_version later) H
    \<and> successively (made_from options re (HashAlgorithm re) k sha256) H \<and> (H = [] \<or> last H = initial_topology)"
  using repo.run_history [OF hash_algorithm_planning assms] by (simp add: history_ok_def)

section \<open>Reading the progress of a batch\<close>

declare progress_loop.simps [simp del]

lemma progress_loop_sound:
  assumes "progress_loop maxReads budget elapsed read tasks start remaining visited reads finished = (finished', res)" "tasks \<noteq> []"
    and "set finished \<subseteq> A" "distinct finished"
    and "\<And>i t obs. t \<in> set tasks \<Longrightarrow> read i t = Inr obs \<Longrightarrow> TaskFinished obs \<Longrightarrow> task_id t \<in> A"
  shows "set finished' \<subseteq> A \<and> distinct finished'"
  using assms
proof (induction maxReads budget elapsed read tasks start remaining visited reads finished arbitrary: finished' res
    rule: progress_loop.induct)
  case (1 maxReads budget elapsed read tasks start remaining visited reads finished)
  let ?t = "tasks ! ((start + visited) mod length tasks)"
  have t: "?t \<in> set tasks" using 1(5) by simp
  show ?case
  proof (cases "visited < remaining \<and> reads < maxReads \<and> elapsed visited < budget")
    case False
    then show ?thesis using 1(4,6,7) by (subst (asm) progress_loop.simps) auto
  next
    case go: True
    note eq = 1(4) [unfolded progress_loop.simps [of maxReads budget elapsed read tasks start remaining visited reads finished]
        Let_def if_P [OF go]]
    consider (seen) "task_id ?t \<in> set finished"
      | (error) e where "task_id ?t \<notin> set finished" "read visited ?t = Inl e"
      | (answer) obs where "task_id ?t \<notin> set finished" "read visited ?t = Inr obs"
      by (cases "read visited ?t") auto
    then show ?thesis
    proof cases
      case seen
      show ?thesis by (rule 1(1) [OF go refl seen _ 1(5,6,7,8)]) (use eq seen in simp_all)
    next
      case error
      show ?thesis
      proof (cases "e = K_NOT_FOUND")
        case True
        show ?thesis by (rule 1(2) [OF go refl error(1,2) _ _ 1(5,6,7,8)]) (use eq error True in simp_all)
      next
        case False
        then show ?thesis using eq error 1(6,7) by auto
      qed
    next
      case answer
      show ?thesis
        by (rule 1(3) [OF go refl answer(1,2) _ 1(5)])
          (use eq answer 1(6,7) 1(8) [OF t answer(2)] 1(8) in \<open>auto split: if_splits\<close>)
    qed
  qed
qed

text \<open>When every read finds a finished task, a slice marks every task it passes and passes at least one.\<close>

lemma progress_loop_advances:
  assumes "\<And>i t. t \<in> set tasks \<Longrightarrow> \<exists>obs. read i t = Inr obs \<and> TaskFinished obs" "tasks \<noteq> []"
  shows "\<exists>finished' visited'. progress_loop maxReads budget elapsed read tasks start remaining visited reads finished
        = (finished', Inr visited')
    \<and> set finished \<subseteq> set finished' \<and> visited \<le> visited'
    \<and> (\<forall>u. visited \<le> u \<and> u < visited' \<longrightarrow> task_id (tasks ! ((start + u) mod length tasks)) \<in> set finished')
    \<and> (visited < remaining \<and> reads < maxReads \<and> elapsed visited < budget \<longrightarrow> visited < visited')"
  using assms
proof (induction maxReads budget elapsed read tasks start remaining visited reads finished rule: progress_loop.induct)
  case (1 maxReads budget elapsed read tasks start remaining visited reads finished)
  let ?t = "tasks ! ((start + visited) mod length tasks)"
  have t: "?t \<in> set tasks" using 1(5) by simp
  note eq = progress_loop.simps [of maxReads budget elapsed read tasks start remaining visited reads finished]
  show ?case
  proof (cases "visited < remaining \<and> reads < maxReads \<and> elapsed visited < budget")
    case False
    then show ?thesis by (subst eq) auto
  next
    case go: True
    define finished1 where "finished1 = (if task_id ?t \<in> set finished then finished else task_id ?t # finished)"
    define reads1 where "reads1 = (if task_id ?t \<in> set finished then reads else reads + 1)"
    have f1: "set finished \<subseteq> set finished1" "task_id ?t \<in> set finished1" by (auto simp: finished1_def)
    obtain obs where obs: "read visited ?t = Inr obs" "TaskFinished obs" using 1(4) [OF t] by blast
    have step: "progress_loop maxReads budget elapsed read tasks start remaining visited reads finished =
        progress_loop maxReads budget elapsed read tasks start remaining (visited + 1) reads1 finished1"
      by (subst eq) (simp add: go obs finished1_def reads1_def Let_def)
    have "\<exists>finished' visited'. progress_loop maxReads budget elapsed read tasks start remaining (visited + 1) reads1 finished1
          = (finished', Inr visited')
      \<and> set finished1 \<subseteq> set finished' \<and> visited + 1 \<le> visited'
      \<and> (\<forall>u. visited + 1 \<le> u \<and> u < visited' \<longrightarrow> task_id (tasks ! ((start + u) mod length tasks)) \<in> set finished')"
    proof (cases "task_id ?t \<in> set finished")
      case True
      with 1(1) [OF go refl True 1(4,5)] show ?thesis unfolding finished1_def reads1_def by auto
    next
      case False
      with 1(3) [OF go refl False obs(1) 1(4,5)] obs(2) show ?thesis unfolding finished1_def reads1_def by auto
    qed
    then obtain finished' visited' where r: "progress_loop maxReads budget elapsed read tasks start remaining (visited + 1) reads1 finished1
          = (finished', Inr visited')" "set finished1 \<subseteq> set finished'" "visited + 1 \<le> visited'"
      "\<And>u. visited + 1 \<le> u \<Longrightarrow> u < visited' \<Longrightarrow> task_id (tasks ! ((start + u) mod length tasks)) \<in> set finished'"
      by blast
    have "task_id (tasks ! ((start + u) mod length tasks)) \<in> set finished'" if "visited \<le> u" "u < visited'" for u
      using r(2,4) f1(2) that by (cases "u = visited") auto
    then show ?thesis unfolding step r(1) using r(2,3) f1(1) by auto
  qed
qed

text \<open>One call of \<^verbatim>\<open>RefreshTaskProgressCache\<close>, through the cache it starts from.\<close>

definition stale_cache :: "ActiveBatch \<Rightarrow> TopologyController \<Rightarrow> bool" where
  "stale_cache batch ctl \<longleftrightarrow> tc_progressBatchEpoch ctl \<noteq> ab_epoch batch
     \<or> tc_progressTopologyVersion ctl \<noteq> tc_derivedTopologyVersion ctl"

definition cached_ids :: "ActiveBatch \<Rightarrow> TopologyController \<Rightarrow> string list" where
  "cached_ids batch ctl = (if stale_cache batch ctl then [] else tc_finishedTaskIds ctl)"

definition cached_cursor :: "ActiveBatch \<Rightarrow> TopologyController \<Rightarrow> nat" where
  "cached_cursor batch ctl = (if stale_cache batch ctl then 0 else tc_progressReadCursor ctl)"

lemma Refresh_loop:
  assumes "ed_tasks expected \<noteq> []"
  obtains remaining where "0 < remaining"
    "case progress_loop (opt_maxProgressReadsPerTick options) (opt_derivedSliceBudget options) elapsed read (ed_tasks expected)
        (cached_cursor batch ctl mod length (ed_tasks expected)) remaining 0 0 (cached_ids batch ctl) of
       (finished, res) \<Rightarrow>
         (case RefreshTaskProgressCache options elapsed read batch expected ctl of
            (ctl', rc) \<Rightarrow> tc_finishedTaskIds ctl' = finished \<and> \<not> stale_cache batch ctl'
              \<and> (case res of Inl e \<Rightarrow> rc = Inl e
                 | Inr visited \<Rightarrow> rc = Inr () \<and> tc_progressReadCursor ctl' =
                     (cached_cursor batch ctl mod length (ed_tasks expected) + visited) mod length (ed_tasks expected)))"
proof
  let ?total = "length (ed_tasks expected)"
  let ?sweep = "if stale_cache batch ctl then ?total else tc_progressSweepRemaining ctl"
  let ?rem = "if ?sweep = 0 then ?total else min ?sweep ?total"
  have total: "?total \<noteq> 0" using assms by simp
  then show "0 < ?rem" by auto
  show "case progress_loop (opt_maxProgressReadsPerTick options) (opt_derivedSliceBudget options) elapsed read (ed_tasks expected)
        (cached_cursor batch ctl mod ?total) ?rem 0 0 (cached_ids batch ctl) of
       (finished, res) \<Rightarrow>
         (case RefreshTaskProgressCache options elapsed read batch expected ctl of
            (ctl', rc) \<Rightarrow> tc_finishedTaskIds ctl' = finished \<and> \<not> stale_cache batch ctl'
              \<and> (case res of Inl e \<Rightarrow> rc = Inl e
                 | Inr visited \<Rightarrow> rc = Inr () \<and> tc_progressReadCursor ctl' = (cached_cursor batch ctl mod ?total + visited) mod ?total))"
    using total
    by (cases "stale_cache batch ctl")
      (auto simp: RefreshTaskProgressCache_def Let_def cached_ids_def cached_cursor_def stale_cache_def
        split: prod.splits sum.splits if_splits)
qed

text \<open>Ticks of the controller on one batch: each inspects the progress once; an error is kept until the next tick.\<close>

fun inspect_ticks ::
  "TopologyControllerOptions \<Rightarrow> ActiveBatch \<Rightarrow> ExpectedDerivedState
     \<Rightarrow> ((nat \<Rightarrow> int) \<times> (nat \<Rightarrow> TopologyTask \<Rightarrow> TopologyTask result)) list \<Rightarrow> TopologyController \<Rightarrow> bool result
     \<Rightarrow> TopologyController \<times> bool result" where
  "inspect_ticks options batch expected [] ctl res = (ctl, res)"
| "inspect_ticks options batch expected ((elapsed, read) # ticks) ctl res =
     (case InspectBatchProgress options elapsed read batch expected ctl of
        (ctl', res') \<Rightarrow> inspect_ticks options batch expected ticks ctl' res')"

definition seen_finished ::
  "((nat \<Rightarrow> int) \<times> (nat \<Rightarrow> TopologyTask \<Rightarrow> TopologyTask result)) list \<Rightarrow> TopologyTask \<Rightarrow> bool" where
  "seen_finished ticks t \<longleftrightarrow> (\<exists>(elapsed, read) \<in> set ticks. \<exists>i obs. read i t = Inr obs \<and> TaskFinished obs)"

lemma seen_finished_Cons:
  "seen_finished ((elapsed, read) # ticks) t \<longleftrightarrow> (\<exists>i obs. read i t = Inr obs \<and> TaskFinished obs) \<or> seen_finished ticks t"
  by (auto simp: seen_finished_def)

lemma Refresh_empty:
  "ed_tasks expected = [] \<Longrightarrow>
   case RefreshTaskProgressCache options elapsed read batch expected ctl of
     (ctl', rc) \<Rightarrow> tc_finishedTaskIds ctl' = cached_ids batch ctl \<and> \<not> stale_cache batch ctl' \<and> rc = Inr ()"
  by (auto simp: RefreshTaskProgressCache_def cached_ids_def stale_cache_def Let_def)

lemma Refresh_sound:
  assumes "RefreshTaskProgressCache options elapsed read batch expected ctl = (ctl', rc)"
    and "set (cached_ids batch ctl) \<subseteq> A" "distinct (cached_ids batch ctl)"
    and "\<And>i t obs. t \<in> set (ed_tasks expected) \<Longrightarrow> read i t = Inr obs \<Longrightarrow> TaskFinished obs \<Longrightarrow> task_id t \<in> A"
  shows "cached_ids batch ctl' = tc_finishedTaskIds ctl' \<and> set (tc_finishedTaskIds ctl') \<subseteq> A \<and> distinct (tc_finishedTaskIds ctl')"
proof (cases "ed_tasks expected = []")
  case True
  from Refresh_empty [OF this, where options = options and elapsed = elapsed and read = read and batch = batch and ctl = ctl] assms(1-3) show ?thesis by (simp add: cached_ids_def)
next
  case False
  from False obtain remaining where l: "case progress_loop (opt_maxProgressReadsPerTick options) (opt_derivedSliceBudget options)
        elapsed read (ed_tasks expected) (cached_cursor batch ctl mod length (ed_tasks expected)) remaining 0 0 (cached_ids batch ctl) of
       (finished, res) \<Rightarrow>
         (case RefreshTaskProgressCache options elapsed read batch expected ctl of
            (ctl', rc) \<Rightarrow> tc_finishedTaskIds ctl' = finished \<and> \<not> stale_cache batch ctl'
              \<and> (case res of Inl e \<Rightarrow> rc = Inl e
                 | Inr visited \<Rightarrow> rc = Inr () \<and> tc_progressReadCursor ctl' =
                     (cached_cursor batch ctl mod length (ed_tasks expected) + visited) mod length (ed_tasks expected)))"
    by (rule Refresh_loop)
  obtain finished res where p: "progress_loop (opt_maxProgressReadsPerTick options) (opt_derivedSliceBudget options)
      elapsed read (ed_tasks expected) (cached_cursor batch ctl mod length (ed_tasks expected)) remaining 0 0 (cached_ids batch ctl)
      = (finished, res)" by (rule prod.exhaust)
  from l have "tc_finishedTaskIds ctl' = finished" "\<not> stale_cache batch ctl'" unfolding p assms(1) by simp_all
  with progress_loop_sound [OF p False assms(2,3)] assms(4) show ?thesis by (simp add: cached_ids_def)
qed

definition cache_ok :: "ActiveBatch \<Rightarrow> ExpectedDerivedState \<Rightarrow> string set \<Rightarrow> TopologyController \<times> bool result \<Rightarrow> bool" where
  "cache_ok batch expected A = (\<lambda>(ctl, res). set (cached_ids batch ctl) \<subseteq> A \<and> distinct (cached_ids batch ctl)
     \<and> (res = Inr True \<longrightarrow> length (cached_ids batch ctl) = length (ed_tasks expected)))"

lemma inspect_ticks_ok:
  assumes "cache_ok batch expected A (ctl, res)"
    and "\<forall>t \<in> set (ed_tasks expected). seen_finished ticks t \<longrightarrow> task_id t \<in> A"
  shows "cache_ok batch expected A (inspect_ticks options batch expected ticks ctl res)"
  using assms
proof (induction ticks arbitrary: ctl res)
  case (Cons tick ticks)
  obtain elapsed read where t: "tick = (elapsed, read)" by (cases tick)
  obtain c1 rc where rf: "RefreshTaskProgressCache options elapsed read batch expected ctl = (c1, rc)" by (rule prod.exhaust)
  have s: "cached_ids batch c1 = tc_finishedTaskIds c1 \<and> set (tc_finishedTaskIds c1) \<subseteq> A \<and> distinct (tc_finishedTaskIds c1)"
  proof (rule Refresh_sound [OF rf])
    show "task_id u \<in> A" if "u \<in> set (ed_tasks expected)" "read i u = Inr obs" "TaskFinished obs" for i u obs
      using Cons.prems(2) that unfolding t seen_finished_Cons by blast
  qed (use Cons.prems(1) in \<open>auto simp: cache_ok_def\<close>)
  obtain r1 where i: "InspectBatchProgress options elapsed read batch expected ctl = (c1, r1)"
    "r1 = Inr True \<longrightarrow> length (tc_finishedTaskIds c1) = length (ed_tasks expected)"
    using rf by (cases rc) (auto simp: InspectBatchProgress_def)
  have "cache_ok batch expected A (inspect_ticks options batch expected ticks c1 r1)"
    by (rule Cons.IH) (use s i Cons.prems(2) in \<open>auto simp: cache_ok_def t seen_finished_Cons\<close>)
  then show ?case by (simp add: t i)
qed simp

lemma inspect_ticks_append:
  "inspect_ticks options batch expected (xs @ ys) ctl res =
     (case inspect_ticks options batch expected xs ctl res of (ctl', res') \<Rightarrow> inspect_ticks options batch expected ys ctl' res')"
  by (induction xs arbitrary: ctl res) (auto split: prod.split)

lemma stale_cache_ok: "stale_cache batch ctl \<Longrightarrow> cache_ok batch expected A (ctl, Inr False)"
  by (simp add: cache_ok_def cached_ids_def)

lemma ids_exhaust:
  assumes "set ids \<subseteq> task_id ` T" "T \<subseteq> set tasks" "distinct ids" "length ids = length tasks"
  shows "set tasks \<subseteq> T"
proof -
  have "length tasks \<le> card T"
    using assms distinct_card [OF assms(3)] card_mono [OF _ assms(1)] card_image_le [of T task_id]
      finite_subset [OF assms(2)] by force
  moreover have "card T \<le> card (set tasks)" using assms(2) by (simp add: card_mono)
  ultimately have "card T = card (set tasks)" using card_length [of tasks] by linarith
  with assms(2) have "T = set tasks" by (metis List.finite_set card_subset_eq)
  then show ?thesis by simp
qed

text \<open>
  C9. A batch is found complete only when every one of its tasks has been read as finished: when the inspections that
  follow the start of a batch, with whatever answers and time budgets, end in the answer that the batch is complete,
  then each expected task was seen finished in one of them. Errors, missing tasks and slices that were cut short never
  count as progress.
\<close>

theorem batch_complete_sound:
  assumes "stale_cache batch ctl"
    and "inspect_ticks options batch expected ticks ctl (Inr False) = (ctl', Inr True)"
    and "t \<in> set (ed_tasks expected)"
  shows "seen_finished ticks t"
proof -
  let ?T = "{u \<in> set (ed_tasks expected). seen_finished ticks u}"
  have "cache_ok batch expected (task_id ` ?T) (ctl', Inr True)"
    unfolding assms(2) [symmetric] by (rule inspect_ticks_ok [OF stale_cache_ok [OF assms(1)]]) blast
  then have "set (cached_ids batch ctl') \<subseteq> task_id ` ?T" "distinct (cached_ids batch ctl')"
    "length (cached_ids batch ctl') = length (ed_tasks expected)" by (simp_all add: cache_ok_def)
  from ids_exhaust [OF this(1) _ this(2,3)] have "set (ed_tasks expected) \<subseteq> ?T" by blast
  with assms(3) show ?thesis by blast
qed

section \<open>A finished batch is found complete\<close>

text \<open>Where a run of ticks stands: \<open>v\<close> tasks from position \<open>c\<close> on, around the list, are known to be finished.\<close>

definition swept :: "ActiveBatch \<Rightarrow> TopologyTask list \<Rightarrow> nat \<Rightarrow> nat \<Rightarrow> TopologyController \<Rightarrow> bool" where
  "swept batch tasks c v ctl \<longleftrightarrow>
     cached_cursor batch ctl mod length tasks = (c + v) mod length tasks
     \<and> (\<forall>u < v. task_id (tasks ! ((c + u) mod length tasks)) \<in> set (cached_ids batch ctl))
     \<and> set (cached_ids batch ctl) \<subseteq> task_id ` set tasks \<and> distinct (cached_ids batch ctl)"

definition all_finished :: "int \<Rightarrow> TopologyTask list \<Rightarrow> (nat \<Rightarrow> int) \<times> (nat \<Rightarrow> TopologyTask \<Rightarrow> TopologyTask result) \<Rightarrow> bool" where
  "all_finished budget tasks tick \<longleftrightarrow>
     fst tick 0 < budget \<and> (\<forall>t \<in> set tasks. \<forall>i. \<exists>obs. snd tick i t = Inr obs \<and> TaskFinished obs)"

lemma swept_step:
  assumes "swept batch (ed_tasks expected) c v ctl" "ed_tasks expected \<noteq> []"
    and "all_finished (opt_derivedSliceBudget options) (ed_tasks expected) (elapsed, read)"
    and "0 < opt_maxProgressReadsPerTick options"
  shows "\<exists>ctl' v'. RefreshTaskProgressCache options elapsed read batch expected ctl = (ctl', Inr ())
    \<and> swept batch (ed_tasks expected) c v' ctl' \<and> v < v' \<and> cached_ids batch ctl' = tc_finishedTaskIds ctl'"
proof -
  let ?tasks = "ed_tasks expected" and ?n = "length (ed_tasks expected)"
  let ?start = "cached_cursor batch ctl mod ?n"
  have read: "\<And>i t. t \<in> set ?tasks \<Longrightarrow> \<exists>obs. read i t = Inr obs \<and> TaskFinished obs" "elapsed 0 < opt_derivedSliceBudget options"
    using assms(3) by (auto simp: all_finished_def)
  obtain ctl' rc where rf: "RefreshTaskProgressCache options elapsed read batch expected ctl = (ctl', rc)" by (rule prod.exhaust)
  obtain remaining where rem: "0 < remaining"
    and l: "case progress_loop (opt_maxProgressReadsPerTick options) (opt_derivedSliceBudget options)
        elapsed read ?tasks ?start remaining 0 0 (cached_ids batch ctl) of
       (finished, res) \<Rightarrow>
         (case RefreshTaskProgressCache options elapsed read batch expected ctl of
            (ctl', rc) \<Rightarrow> tc_finishedTaskIds ctl' = finished \<and> \<not> stale_cache batch ctl'
              \<and> (case res of Inl e \<Rightarrow> rc = Inl e
                 | Inr visited \<Rightarrow> rc = Inr () \<and> tc_progressReadCursor ctl' = (?start + visited) mod ?n))"
    by (rule Refresh_loop [OF assms(2)])
  obtain finished w where p: "progress_loop (opt_maxProgressReadsPerTick options) (opt_derivedSliceBudget options)
      elapsed read ?tasks ?start remaining 0 0 (cached_ids batch ctl) = (finished, Inr w)"
    and w: "set (cached_ids batch ctl) \<subseteq> set finished" "0 < w"
      "\<And>u. u < w \<Longrightarrow> task_id (?tasks ! ((?start + u) mod ?n)) \<in> set finished"
    using progress_loop_advances [where read = read, OF read(1) assms(2), where maxReads = "opt_maxProgressReadsPerTick options"
        and budget = "opt_derivedSliceBudget options" and elapsed = elapsed and start = ?start and remaining = remaining
        and visited = 0 and reads = 0 and finished = "cached_ids batch ctl"] rem assms(4) read(2) by auto
  have c': "tc_finishedTaskIds ctl' = finished" "\<not> stale_cache batch ctl'" "rc = Inr ()"
    "tc_progressReadCursor ctl' = (?start + w) mod ?n"
    using l unfolding p rf by simp_all
  have start: "?start = (c + v) mod ?n" using assms(1) by (simp add: swept_def)
  have sound: "set finished \<subseteq> task_id ` set ?tasks \<and> distinct finished"
    by (rule progress_loop_sound [OF p assms(2)]) (use assms(1) in \<open>auto simp: swept_def\<close>)
  have cover: "task_id (?tasks ! ((c + u) mod ?n)) \<in> set finished" if "u < v + w" for u
  proof (cases "u < v")
    case True
    then show ?thesis using assms(1) w(1) by (auto simp: swept_def)
  next
    case False
    have "(?start + (u - v)) mod ?n = (c + v + (u - v)) mod ?n" unfolding start by (rule mod_add_left_eq)
    with False have "(?start + (u - v)) mod ?n = (c + u) mod ?n" by simp
    with w(3) [of "u - v"] False that show ?thesis by auto
  qed
  have "(?start + w) mod ?n = (c + (v + w)) mod ?n" unfolding start by (simp add: mod_add_left_eq add.assoc)
  with c' cover sound have "swept batch ?tasks c (v + w) ctl'" by (simp add: swept_def cached_ids_def cached_cursor_def)
  with rf c' w(2) show ?thesis by (auto simp: cached_ids_def)
qed

lemma swept_complete:
  assumes "swept batch tasks c v ctl" "length tasks \<le> v" "distinct (map task_id tasks)"
  shows "length (cached_ids batch ctl) = length tasks"
proof -
  have "task_id (tasks ! j) \<in> set (cached_ids batch ctl)" if "j < length tasks" for j
  proof -
    let ?u = "(j + length tasks - c mod length tasks) mod length tasks"
    have "?u < v" using that assms(2) by (meson less_le_trans mod_less_divisor order_le_less_trans zero_le)
    moreover have "(c + ?u) mod length tasks = j"
    proof -
      have le: "c mod length tasks < length tasks" using that by (intro mod_less_divisor) linarith
      have "(c + ?u) mod length tasks = (c mod length tasks + (j + length tasks - c mod length tasks)) mod length tasks"
        by (simp add: mod_simps)
      also have "\<dots> = (j + length tasks) mod length tasks" using le by simp
      finally show ?thesis using that by simp
    qed
    ultimately show ?thesis using assms(1) by (metis swept_def)
  qed
  then have "task_id ` set tasks \<subseteq> set (cached_ids batch ctl)" by (auto simp: in_set_conv_nth)
  with assms(1) have "set (cached_ids batch ctl) = set (map task_id tasks)" "distinct (cached_ids batch ctl)"
    by (auto simp: swept_def)
  with assms(3) show ?thesis by (metis distinct_card length_map)
qed

lemma inspect_ticks_complete:
  assumes "swept batch (ed_tasks expected) c v ctl" "ed_tasks expected \<noteq> []" "distinct (map task_id (ed_tasks expected))"
    and "\<forall>tick \<in> set ticks. all_finished (opt_derivedSliceBudget options) (ed_tasks expected) tick"
    and "0 < opt_maxProgressReadsPerTick options" "length (ed_tasks expected) \<le> v + length ticks"
    and "ticks = [] \<longrightarrow> res = Inr True"
  shows "snd (inspect_ticks options batch expected ticks ctl res) = Inr True"
  using assms
proof (induction ticks arbitrary: v ctl res)
  case (Cons tick ticks)
  obtain elapsed read where t: "tick = (elapsed, read)" by (cases tick)
  have "all_finished (opt_derivedSliceBudget options) (ed_tasks expected) (elapsed, read)" using Cons.prems(4) t by simp
  from swept_step [OF Cons.prems(1,2) this Cons.prems(5)] obtain ctl' v'
    where r: "RefreshTaskProgressCache options elapsed read batch expected ctl = (ctl', Inr ())"
      and sw: "swept batch (ed_tasks expected) c v' ctl'" and v: "v < v'" and ids: "cached_ids batch ctl' = tc_finishedTaskIds ctl'"
    by blast
  let ?done = "length (tc_finishedTaskIds ctl') = length (ed_tasks expected)"
  have last: "ticks = [] \<longrightarrow> Inr ?done = (Inr True :: bool result)"
  proof
    assume "ticks = []"
    then have "length (ed_tasks expected) \<le> v'" using Cons.prems(6) v by simp
    from swept_complete [OF sw this Cons.prems(3)] ids show "Inr ?done = (Inr True :: bool result)" by simp
  qed
  have "snd (inspect_ticks options batch expected ticks ctl' (Inr ?done)) = Inr True"
    by (rule Cons.IH [OF sw Cons.prems(2,3) _ Cons.prems(5) _ last]) (use Cons.prems(4,6) v in auto)
  then show ?case by (simp add: t InspectBatchProgress_def r)
qed simp

lemma inspect_ticks_empty:
  assumes "ed_tasks expected = []" "cache_ok batch expected {} (ctl, res)" "ticks \<noteq> []"
  shows "snd (inspect_ticks options batch expected ticks ctl res) = Inr True"
proof -
  obtain front elapsed read where ticks: "ticks = front @ [(elapsed, read)]"
    using assms(3) by (metis append_butlast_last_id surj_pair)
  obtain c r where f: "inspect_ticks options batch expected front ctl res = (c, r)" by (rule prod.exhaust)
  have "cache_ok batch expected {} (c, r)"
    unfolding f [symmetric] by (rule inspect_ticks_ok [OF assms(2)]) (simp add: assms(1))
  then have "cached_ids batch c = []" by (simp add: cache_ok_def)
  moreover have "case RefreshTaskProgressCache options elapsed read batch expected c of
      (ctl', rc) \<Rightarrow> tc_finishedTaskIds ctl' = cached_ids batch c \<and> \<not> stale_cache batch ctl' \<and> rc = Inr ()"
    by (rule Refresh_empty [OF assms(1)])
  ultimately show ?thesis
    by (auto simp: ticks inspect_ticks_append f InspectBatchProgress_def assms(1) split: prod.splits)
qed

text \<open>
  C8. A finished batch is found complete after a bounded number of ticks. Let any inspections of a batch have happened,
  with whatever answers, errors and time budgets, and let its tasks be finished from then on. If each further tick
  has time and budget for one visit, then after as many ticks as the batch has tasks (and at least one) the
  inspection answers that the batch is complete, however the slices cut the sweep over the tasks.
\<close>

theorem batch_completes:
  assumes "stale_cache batch ctl" "distinct (map task_id (ed_tasks expected))"
    and "0 < opt_maxProgressReadsPerTick options"
    and "\<forall>tick \<in> set ticks. all_finished (opt_derivedSliceBudget options) (ed_tasks expected) tick"
    and "length (ed_tasks expected) \<le> length ticks" "ticks \<noteq> []"
  shows "snd (inspect_ticks options batch expected (earlier @ ticks) ctl (Inr False)) = Inr True"
proof -
  obtain c r where f: "inspect_ticks options batch expected earlier ctl (Inr False) = (c, r)" by (rule prod.exhaust)
  have ok: "cache_ok batch expected (task_id ` set (ed_tasks expected)) (c, r)"
    unfolding f [symmetric] by (rule inspect_ticks_ok [OF stale_cache_ok [OF assms(1)]]) simp
  show ?thesis
  proof (cases "ed_tasks expected = []")
    case True
    from inspect_ticks_empty [OF True _ assms(6)] ok True show ?thesis by (simp add: inspect_ticks_append f)
  next
    case False
    have "swept batch (ed_tasks expected) (cached_cursor batch c) 0 c"
      using ok by (simp add: swept_def cache_ok_def)
    from inspect_ticks_complete [OF this False assms(2,4,3)] assms(5,6) show ?thesis
      by (simp add: inspect_ticks_append f)
  qed
qed

section \<open>The answer of a commit\<close>

text \<open>When a handler is told that its candidate was committed, the candidate was stored.\<close>

lemma commit_answer_stored:
  assumes "KeyHelper_Create cluster = Inr keys"
    and "interference E b ifc" "\<forall>op \<in> E. spares (topology_key keys) op"
    and "CheckInitialized s" "kv_inv (memKv s)" "kv_revision (memKv s) + 32 * int b \<le> i64_max"
    and "commit_answer (CommitAndReadBack re wire shaHex keys ifc now v desired ar s) = Inr ()"
  shows "valid_topology re desired \<and> ts_version desired = v + 1
    \<and> (\<exists>s1 bytes. EncodeTopology re wire desired = Inr bytes \<and> holds_bytes keys bytes s1)"
proof -
  from topology_cas_committed [OF assms(1-6), of re wire now v desired ar] obtain s' res rc
    where c: "CompareAndSwapTopology re wire keys ifc now v desired ar s = Some (s', res, rc)"
      and ok: "cr_outcome res = CAS_COMMITTED \<longrightarrow> valid_topology re desired \<and> ts_version desired = v + 1
         \<and> (\<exists>bytes. EncodeTopology re wire desired = Inr bytes \<and> holds_bytes keys bytes s')"
    by blast
  have "cr_outcome res = CAS_COMMITTED"
    using assms(7) unfolding CommitAndReadBack_def c
    by (auto simp: commit_answer_def Let_def split: sum.splits if_splits)
  with ok show ?thesis by blast
qed

section \<open>Examples\<close>

definition run_options :: TopologyControllerOptions where
  "run_options = \<lparr>opt_failureBatchWindow = 30, opt_ordinaryBatchWindow = 180, opt_scaleOutCollectWindow = 0,
     opt_scaleInCollectWindow = 0, opt_maxMembersPerBatch = 10, opt_maxProgressReadsPerTick = 1, opt_derivedSliceBudget = 5,
     opt_eventSourceMode = SELF_MANAGED\<rparr>"

definition run_controller :: TopologyController where
  "run_controller = \<lparr>tc_topologyCommittedThisTick = False, tc_batchDeadline = None, tc_loggedExpiredBatchEpoch = 0,
     tc_loggedScaleInWaitEpoch = 0, tc_scaleInCollect = None, tc_scaleOutCollect = None, tc_derivedTopologyVersion = 0,
     tc_expectedDerivedState = empty_derived, tc_derivedWorkPending = False, tc_progressReadCursor = 0,
     tc_progressSweepRemaining = 0, tc_progressTopologyVersion = 0, tc_progressBatchEpoch = 0,
     tc_progressWorkPending = False, tc_finishedTaskIds = [], tc_quarantined = Map.empty, tc_suspectTargets = {},
     tc_collectiveProbeTopologyVersion = None, tc_collectiveProbeOwner = None, tc_collectiveProbeControlEpoch = None,
     tc_collectiveUnreachableSamples = {}\<rparr>"

definition run_sha :: "string \<Rightarrow> string result" where
  "run_sha seed = Inr (replicate 32 (CHR ''a''))"

definition ready_record :: MembershipRecord where
  "ready_record = \<lparr>mr_address = ''10.0.0.1:80'', mr_state = READY, mr_timestamp = 7, mr_hostId = ''h''\<rparr>"

definition snapshot_at :: "TopologyState \<Rightarrow> TopologySnapshot" where
  "snapshot_at st = projr (Create re2_model st 5 sample_digest)"

text \<open>A ready member is admitted to the initial topology, and the cluster is bootstrapped with it.\<close>

definition admitted :: outcome where
  "admitted = CommitMembershipFacts run_options re2_model run_sha (\<lambda>_. Inr ()) (\<lambda>_. 0) (snapshot_at initial_topology)
     [ready_record] run_controller"

definition admitted_state :: TopologyState where
  "admitted_state = the (fst (snd admitted))"

definition bootstrapped :: outcome where
  "bootstrapped = TryStartNextBatch run_options (HashAlgorithm re2_model) 1 (\<lambda>_. Inr ()) (\<lambda>_. 0) (snapshot_at admitted_state)
     [ready_record] run_controller"

definition bootstrapped_state :: TopologyState where
  "bootstrapped_state = the (fst (snd bootstrapped))"

lemma publish_candidate:
  assumes "\<not> isl (Create re st rv dig)" "handler options re alg k sha256 (projr (Create re st rv dig)) ctl ctl' (Some c)"
    and "stores c" "ts_version c = ts_version st + 1"
  shows "publish_step options re alg k sha256 stores (st # H) (c # st # H)"
proof -
  from assms(1) obtain latest where l: "Create re st rv dig = Inr latest" by (cases "Create re st rv dig") auto
  then have "ts_version (sn_state latest) = ts_version st" by (auto simp: Create_Inr)
  then have "stored_next stores (ts_version (sn_state latest)) (Some c) (st # H) (c # st # H)"
    using assms(3,4) by (simp add: stored_next_def stored_version_def)
  with l assms(2) have "controller_step options re alg k sha256 stores (ctl, st # H) (ctl', c # st # H)"
    by (intro controller_step.handle [of st]) simp_all
  then show ?thesis by (auto simp: publish_step_def)
qed

lemma first_wire_encodes: "valid_topology re st \<Longrightarrow> \<not> isl (EncodeTopology re first_wire st)"
  by (simp add: EncodeTopology_eq SerializeCanonical_def first_wire_def MAX_VALUE_BYTES_def)

lemma valid_by_check: "\<not> isl (ValidateAndCanonicalizeTopologyState re st) \<Longrightarrow> valid_topology re st"
  by (simp add: validate_eq split: if_splits)

text \<open>
  The members of the bootstrapped cluster are gone, and a new one is ready: it owns the probe, and replaces the cluster.
\<close>

definition replaced :: "TopologyFailureClassifier \<times> outcome" where
  "replaced = BootstrapCollectiveReplacement run_options re2_model run_sha (HashAlgorithm re2_model) 1
     (\<lambda>_. Inr ()) None 0 (Inr [ready_record\<lparr>mr_address := ''10.0.0.2:80''\<rparr>]) (snapshot_at bootstrapped_state)
     (TopologyFailureClassifier_make 100) (run_controller\<lparr>tc_collectiveProbeOwner := Some ''10.0.0.2:80''\<rparr>)"

definition replaced_state :: TopologyState where
  "replaced_state = the (fst (snd (snd replaced)))"

definition example_run :: "TopologyState list" where
  "example_run = [replaced_state, bootstrapped_state, admitted_state, initial_topology]"

lemma example_handlers:
  "\<exists>ctl ctl'. handler run_options re2_model (HashAlgorithm re2_model) 1 run_sha (snapshot_at initial_topology) ctl ctl' (Some admitted_state)"
  "\<exists>ctl ctl'. handler run_options re2_model (HashAlgorithm re2_model) 1 run_sha (snapshot_at admitted_state) ctl ctl' (Some bootstrapped_state)"
  "\<exists>ctl ctl'. handler run_options re2_model (HashAlgorithm re2_model) 1 run_sha (snapshot_at bootstrapped_state) ctl ctl' (Some replaced_state)"
proof -
  have n: "fst (snd admitted) \<noteq> None" "fst (snd bootstrapped) \<noteq> None" "fst (snd (snd replaced)) \<noteq> None" by code_simp+
  have "admitted = (fst admitted, Some admitted_state, snd (snd admitted))"
    using n(1) by (auto simp: admitted_state_def prod_eq_iff)
  then show "\<exists>ctl ctl'. handler run_options re2_model (HashAlgorithm re2_model) 1 run_sha (snapshot_at initial_topology) ctl ctl' (Some admitted_state)"
    using handler.facts unfolding admitted_def by blast
  have "bootstrapped = (fst bootstrapped, Some bootstrapped_state, snd (snd bootstrapped))"
    using n(2) by (auto simp: bootstrapped_state_def prod_eq_iff)
  then show "\<exists>ctl ctl'. handler run_options re2_model (HashAlgorithm re2_model) 1 run_sha (snapshot_at admitted_state) ctl ctl' (Some bootstrapped_state)"
    using handler.start unfolding bootstrapped_def by blast
  have "replaced = (fst replaced, fst (snd replaced), Some replaced_state, snd (snd (snd replaced)))"
    using n(3) by (auto simp: replaced_state_def prod_eq_iff)
  then show "\<exists>ctl ctl'. handler run_options re2_model (HashAlgorithm re2_model) 1 run_sha (snapshot_at bootstrapped_state) ctl ctl' (Some replaced_state)"
    using handler.collective unfolding replaced_def by blast
qed

theorem controller_topologies_valid_witness:
  "(publish_step run_options re2_model (HashAlgorithm re2_model) 1 run_sha
      (\<lambda>st. \<not> isl (EncodeTopology re2_model first_wire st)))\<^sup>*\<^sup>* [] example_run
   \<and> list_all (topology_inv re2_model) example_run
   \<and> successively (made_from run_options re2_model (HashAlgorithm re2_model) 1 run_sha) example_run"
proof -
  let ?stores = "\<lambda>st. \<not> isl (EncodeTopology re2_model first_wire st)"
  let ?p = "publish_step run_options re2_model (HashAlgorithm re2_model) 1 run_sha ?stores"
  have c: "\<not> isl (Create re2_model initial_topology 5 sample_digest)" "\<not> isl (Create re2_model admitted_state 5 sample_digest)"
    "\<not> isl (Create re2_model bootstrapped_state 5 sample_digest)"
    by code_simp+
  have "\<not> isl (ValidateAndCanonicalizeTopologyState re2_model initial_topology)"
    "\<not> isl (ValidateAndCanonicalizeTopologyState re2_model admitted_state)"
    "\<not> isl (ValidateAndCanonicalizeTopologyState re2_model bootstrapped_state)"
    "\<not> isl (ValidateAndCanonicalizeTopologyState re2_model replaced_state)" by code_simp+
  then have v: "?stores initial_topology" "?stores admitted_state" "?stores bootstrapped_state" "?stores replaced_state"
    using first_wire_encodes [OF valid_by_check] by blast+
  have n: "ts_version admitted_state = ts_version initial_topology + 1" "ts_version bootstrapped_state = ts_version admitted_state + 1"
    "ts_version replaced_state = ts_version bootstrapped_state + 1" by code_simp+
  have "stored_next ?stores 0 (Some initial_topology) [] [initial_topology]"
    using v(1) by (simp add: stored_next_def stored_version_def) (simp add: initial_topology_def)
  then have "?p [] [initial_topology]" unfolding publish_step_def by (intro exI) (rule controller_step.ensure)
  moreover have "?p [initial_topology] [admitted_state, initial_topology]"
    using example_handlers(1) publish_candidate [where stores = ?stores, OF c(1) _ v(2) n(1)] unfolding snapshot_at_def by blast
  moreover have "?p [admitted_state, initial_topology] [bootstrapped_state, admitted_state, initial_topology]"
    using example_handlers(2) publish_candidate [where stores = ?stores, OF c(2) _ v(3) n(2)] unfolding snapshot_at_def by blast
  moreover have "?p [bootstrapped_state, admitted_state, initial_topology] example_run"
    using example_handlers(3) publish_candidate [where stores = ?stores, OF c(3) _ v(4) n(3)] unfolding snapshot_at_def example_run_def by blast
  ultimately have run: "?p\<^sup>*\<^sup>* [] example_run"
    by (meson r_into_rtranclp rtranclp.rtrancl_into_rtrancl)
  with controller_topologies_valid [OF run] show ?thesis by blast
qed

definition sweep_task :: "string \<Rightarrow> bool \<Rightarrow> TopologyTask" where
  "sweep_task taskId finished = DeleteTask \<lparr>dt_taskId = taskId, dt_epoch = 1, dt_executorAddress = ''x'', dt_failedAddress = ''y'',
     dt_recoveryRanges = [\<lparr>ttr_ownerAddress = ''y'', ttr_range = \<lparr>tr_from = 0, tr_end = 9\<rparr>, ttr_finished = finished\<rparr>]\<rparr>"

definition sweep_expected :: ExpectedDerivedState where
  "sweep_expected = empty_derived\<lparr>ed_tasks := [sweep_task ''a'' False, sweep_task ''b'' False]\<rparr>"

definition sweep_batch :: ActiveBatch where
  "sweep_batch = \<lparr>ab_type = FAILURE, ab_epoch = 1\<rparr>"

definition missing_tick :: "(nat \<Rightarrow> int) \<times> (nat \<Rightarrow> TopologyTask \<Rightarrow> TopologyTask result)" where
  "missing_tick = (\<lambda>_. 0, \<lambda>_ _. Inl K_NOT_FOUND)"

definition found_tick :: "(nat \<Rightarrow> int) \<times> (nat \<Rightarrow> TopologyTask \<Rightarrow> TopologyTask result)" where
  "found_tick = (\<lambda>_. 0, \<lambda>_ t. Inr (sweep_task (task_id t) True))"

theorem batch_complete_sound_witness:
  "stale_cache sweep_batch run_controller
   \<and> seen_finished [missing_tick, found_tick, found_tick] (sweep_task ''b'' False)"
proof -
  have s: "stale_cache sweep_batch run_controller" by code_simp
  have "snd (inspect_ticks run_options sweep_batch sweep_expected [missing_tick, found_tick, found_tick] run_controller (Inr False))
      = Inr True" by code_simp
  then obtain c where "inspect_ticks run_options sweep_batch sweep_expected [missing_tick, found_tick, found_tick] run_controller
      (Inr False) = (c, Inr True)" by (metis prod.collapse)
  from batch_complete_sound [OF s this, of "sweep_task ''b'' False"] s show ?thesis by (simp add: sweep_expected_def)
qed

theorem batch_completes_witness:
  "snd (inspect_ticks run_options sweep_batch sweep_expected ([missing_tick] @ [found_tick, found_tick]) run_controller (Inr False))
     = Inr True"
  by (rule batch_completes)
    (auto simp: stale_cache_def run_controller_def sweep_batch_def sweep_expected_def sweep_task_def run_options_def
      all_finished_def found_tick_def TaskFinished_def)

end
