(* ===== verification/Spec2Isabelle.thy ===== *)
theory Spec2Isabelle
  imports Lease_Protocol Topology_Control
begin

text \<open>
  \<^bold>\<open>The coordination plane of the openYuanrong data system.\<close>

  The repository is a distributed cache: workers hold objects and streams, masters hold metadata, clients talk to
  both. What keeps the cluster consistent is its coordination plane, and that is what this development models:

  \<^item> the coordinator's key-value store with revisions, leases and watches
    (\<^verbatim>\<open>src/src/datasystem/common/coordinator/\<close>), which every process reads, writes and watches;
  \<^item> the cluster topology stored in it (\<^verbatim>\<open>src/src/datasystem/cluster/\<close>): which members exist, which tokens of a
    hash ring each one owns, and the batch of changes (scale-out, scale-in, failure) in progress. Routing reads the
    topology, planners compute the next one, a materializer turns the plan into migration tasks, a repository and its
    codec store all of it by compare-and-swap, a classifier decides when a silent member has failed, and a controller
    takes the decisions.

  \<^bold>\<open>Theories, in the order of their imports.\<close> Names of definitions are those of the sources; a suffix or a prefix of the
  class is added where two parts use the same name.

  \<^item> \<^verbatim>\<open>Prelude\<close>: status codes (\<^verbatim>\<open>include/datasystem/utils/status.h\<close>) and \<open>'a result\<close> for code that returns a status,
    64-bit wrap-around of signed integers, ordered maps as sorted association lists, generic lemmas.
  \<^item> \<^verbatim>\<open>Kv_Store\<close>: \<^verbatim>\<open>memory_kv_store.cpp\<close>. The store as a record; every operation returns the new store and the events
    that it hands to the mutation callback. Shows the store invariant over all operation sequences, that a
    modification revision never returns to an older incarnation, that replaying the events rebuilds the contents,
    that revisions never decrease and that range queries are exact.
  \<^item> \<^verbatim>\<open>Ttl_Manager\<close>: \<^verbatim>\<open>ttl_manager.cpp\<close>. The two indexes of the expiry queue; the newest schedule of a key wins and an
    expiration pass hands out exactly the due records.
  \<^item> \<^verbatim>\<open>Watch_Registry\<close>: \<^verbatim>\<open>watch_registry.cpp\<close>. Refines a plain map of watches; matching returns exactly the live watchers
    of a key.
  \<^item> \<^verbatim>\<open>Watch_Dispatcher\<close>: \<^verbatim>\<open>watch_dispatcher.cpp\<close>. Channels in an explicit heap, ready and retry queues, workers; a step
    relation interleaves them. Shows that no channel with work is ever forgotten, that queues stay bounded, what a
    delivery removes and that an overflow reaches every channel.
  \<^item> \<^verbatim>\<open>Coordinator_Store\<close>: \<^verbatim>\<open>coordinator_store.cpp\<close>, the facade over the four parts. What fan-out does to every channel, and
    a watch from its registration over its snapshot to its first notification, interleaved with mutations and fan-out:
    unless a rewatch is due, snapshot and kept events give the contents of the store.
  \<^item> \<^verbatim>\<open>Lease_Protocol\<close>: the interleaving of writers, the timer thread and the expiry callback. A lease whose expiry
    time fits the clock is never deleted before its time, no lease is forgotten, and an expiration pass after its time
    deletes it.
  \<^item> \<^verbatim>\<open>Store_Backend\<close>: \<^verbatim>\<open>coordinator/coordinator_store_backend.cpp\<close>, the store as the controller inside the coordinator
    uses it. Other threads act before each read and each write of the compare-and-swap loop. The loop refines one
    atomic read, process and write as long as nobody deletes the key; \<open>cas_version_aba\<close> shows that this is needed.
  \<^item> \<^verbatim>\<open>Net_Util\<close>: host and port parsing of \<^verbatim>\<open>net_util.cpp\<close> with the regular expressions of \<^verbatim>\<open>validator.h\<close>; printing and
    parsing are inverse.
  \<^item> \<^verbatim>\<open>Murmur_Hash\<close>: \<^verbatim>\<open>murmurhash3.cpp\<close> on 32-bit words; a change of one block changes the hash.
  \<^item> \<^verbatim>\<open>Topology_Types\<close>, \<^verbatim>\<open>Topology_Snapshot\<close>: \<^verbatim>\<open>cluster/model/\<close>. Validation accepts exactly the valid topologies, snapshots
    are canonical and their indexes and fences are exact.
  \<^item> \<^verbatim>\<open>Hash_Ring\<close>: \<^verbatim>\<open>cluster/algorithm/hash_algorithm.cpp\<close>. Rings, owners, ring differences and the four planners; each
    plan moves exactly the tokens whose clockwise successor changes.
  \<^item> \<^verbatim>\<open>Plan_Builder\<close>: \<^verbatim>\<open>cluster/control/topology_plan_builder.cpp\<close>. Every transition of the topology over the planning
    interface. The locale \<open>planning_algorithm\<close> states what the builder relies on and is interpreted on the hash
    algorithm; inside it every transition keeps the invariant \<open>topology_inv\<close>. A bootstrap places exactly the
    requested members beside the ones that stay. Routing during a batch announces the
    owners after the batch.
  \<^item> \<^verbatim>\<open>Membership_Types\<close>, \<^verbatim>\<open>Failure_Classifier\<close>: \<^verbatim>\<open>cluster/membership/membership_types.h\<close> and
    \<^verbatim>\<open>cluster/control/topology_failure_classifier.cpp\<close>. A member is confirmed missing only after the whole timeout of
    readable absence.
  \<^item> \<^verbatim>\<open>Topology_Keys\<close>, \<^verbatim>\<open>Topology_Codec\<close>: \<^verbatim>\<open>cluster/repository/topology_key_helper.cpp\<close> and
    \<^verbatim>\<open>topology_repository_codec.cpp\<close>. No table of one cluster holds a key of another; a topology within the limits
    of the decoder survives a round trip and one beyond them is refused; a composed notification decodes to the merged
    one or is refused.
  \<^item> \<^verbatim>\<open>Task_Materializer\<close>: \<^verbatim>\<open>cluster/control/topology_task_materializer.cpp\<close>. The tasks of a batch move exactly the tokens
    for which routing names different current and prospective owners, and pass every check of their encoder.
  \<^item> \<^verbatim>\<open>Topology_Repository\<close>: \<^verbatim>\<open>cluster/repository/topology_repository.cpp\<close> over the store backend, the keys and the codec. A
    topology reported as committed is valid and stored, and its write was applied to a state with exactly the expected
    version.
  \<^item> \<^verbatim>\<open>Topology_Control\<close>: the decisions of \<^verbatim>\<open>cluster/control/topology_controller.cpp\<close>. The locale \<open>topology_authority\<close> states what
    they rely on and is interpreted on the encoder of the repository. Runs of any number of controllers on possibly
    stale snapshots store only topologies that satisfy \<open>topology_inv\<close>, with growing versions, each computed from the one it
    replaced; the replacement of a cluster that is gone is one of the handlers. The sweep over the tasks of a batch reports
    completion only when every task was read as finished, and within as many ticks as there are tasks.

  \<^bold>\<open>Conventions.\<close> A struct is a record, an enum a datatype, an unsigned integer a word of its width, a signed 64-bit
  counter an integer with \<open>wrap64\<close> where it is incremented. A status other than OK is \<open>Inl\<close>. An ordered map is a
  sorted association list, an unordered map a function to options. Mutexes do not appear: an operation that the code
  runs under a lock is one function, and where several threads take turns the turns are the steps of a relation.
  Where one operation accesses the store several times, what others do in between is an argument (\<open>ifc\<close>).
  Logging is left out. Loops are recursive functions; the token probe of the ring stops after
  \<^verbatim>\<open>MAX_TOKEN_PROBES\<close> attempts and the compare-and-swap after \<^verbatim>\<open>MAX_CAS_ATTEMPTS\<close> as in the source, and no definition
  uses fuel of its own.

  \<^bold>\<open>Parameters.\<close> Code outside the sources is an argument: the regular expression library (\<open>re\<close>, with
  \<open>re2_semantics\<close> and the executable \<open>re2_model\<close>), the protobuf wire format (\<open>wire\<close>, with \<open>wire_ok\<close>: parsing
  inverts serialisation, and \<open>notify_merges\<close>: parsing a concatenation merges the messages), SHA-256 (\<open>sha\<close>, with \<open>sha_ok\<close>: a digest has 64 hexadecimal digits; \<open>sha256\<close> and \<open>shaHex\<close>
  without any hypothesis), clocks and random jitter (plain arguments). Each hypothesis has a concrete instance in a witness.

  \<^bold>\<open>Not modelled.\<close> RPC, threads and process start-up of the coordinator; leader election (a consensus library); the
  coordination clients for etcd; the event loop of the controller, its etcd event source, its probe rounds of
  suspected members and of a cluster that is gone, and the slices that write derived tasks; the codec of membership values; the topology engine, executor and janitor, which are thread pools around host
  callbacks; the worker, master and client data paths (shared memory, RDMA, RocksDB, devices), the language bindings
  and the deployment scripts. They are listed in the manifest with their reasons.
\<close>

end
